(* ===== verification/Juggle_Prelude.thy ===== *)
theory Juggle_Prelude
  imports Main "HOL-Library.Word"
begin

text \<open>
  What every component of the development shares: the panics of the Rust sources as
  values, \<open>usize\<close> arithmetic under the two build profiles, the execution of stateful code that
  may unwind (a state transformer whose result is a panic or a value), its weakest
  preconditions, and generic lemmas on lists of fixed-size chunks and on counting.
\<close>

named_theorems wp \<open>weakest precondition rules of the operations of the model\<close>
named_theorems run \<open>equations that evaluate the model on a concrete input\<close>

subsection \<open>Build profiles, panics and \<open>usize\<close>\<close>

text \<open>
  \<open>debug_assertions\<close> selects the overflow checks of the arithmetic and the run-time borrow
  flags of the registry. A panic carries the message of the source; the two other constructors
  are the panic that rustc inserts for an arithmetic overflow and a panic raised by code the
  user supplied (the body of a task).
\<close>

datatype profile = Debug | Release

text \<open>\<open>core::task::Poll\<close>.\<close>

datatype 'a poll = Pending | Ready 'a

datatype panic = Panic string | ArithOverflow | UserPanic

definition usize_MAX :: nat where
  "usize_MAX = 2 ^ 64 - 1"

definition usize_add :: "profile \<Rightarrow> nat \<Rightarrow> nat \<Rightarrow> panic + nat" where
  "usize_add p a b =
     (if a + b \<le> usize_MAX then Inr (a + b)
      else case p of Debug \<Rightarrow> Inl ArithOverflow | Release \<Rightarrow> Inr ((a + b) mod (usize_MAX + 1)))"

definition usize_sub :: "profile \<Rightarrow> nat \<Rightarrow> nat \<Rightarrow> panic + nat" where
  "usize_sub p a b =
     (if b \<le> a then Inr (a - b)
      else case p of Debug \<Rightarrow> Inl ArithOverflow | Release \<Rightarrow> Inr (usize_MAX + 1 + a - b))"

definition wrapping_add :: "nat \<Rightarrow> nat \<Rightarrow> nat" where
  "wrapping_add a b = (a + b) mod (usize_MAX + 1)"

subsection \<open>Stateful code that may unwind\<close>

text \<open>
  The state is returned with a panic too: unwinding leaves the interior-mutable state as it
  was when the panic was raised, less what the drop guards on the way restore.
\<close>

type_synonym ('s, 'a) exec = "'s \<Rightarrow> (panic + 'a) \<times> 's"

definition return_exec :: "'a \<Rightarrow> ('s, 'a) exec" where
  "return_exec x s = (Inr x, s)"

definition bind_exec :: "('s, 'a) exec \<Rightarrow> ('a \<Rightarrow> ('s, 'b) exec) \<Rightarrow> ('s, 'b) exec" where
  "bind_exec m f s = (case m s of (Inl e, s') \<Rightarrow> (Inl e, s') | (Inr x, s') \<Rightarrow> f x s')"

definition panic_exec :: "panic \<Rightarrow> ('s, 'a) exec" where
  "panic_exec e s = (Inl e, s)"

definition modify_exec :: "('s \<Rightarrow> 's) \<Rightarrow> ('s, unit) exec" where
  "modify_exec f s = (Inr (), f s)"

definition gets_exec :: "('s \<Rightarrow> 'a) \<Rightarrow> ('s, 'a) exec" where
  "gets_exec f s = (Inr (f s), s)"

text \<open>A value computed without touching the state, which may panic.\<close>

definition lift_exec :: "panic + 'a \<Rightarrow> ('s, 'a) exec" where
  "lift_exec r s = (r, s)"

text \<open>
  \<open>DropGuard::new(|| g)\<close> around \<open>m\<close>: the closure runs when the guard is dropped, on the
  normal path and while unwinding.
\<close>

definition guard_exec :: "('s, 'a) exec \<Rightarrow> ('s \<Rightarrow> 's) \<Rightarrow> ('s, 'a) exec" where
  "guard_exec m g s = (case m s of (r, s') \<Rightarrow> (r, g s'))"

text \<open>Code that goes on with the value of \<open>m\<close>, or that runs while a panic of \<open>m\<close> unwinds.\<close>

definition catch_exec ::
  "('s, 'a) exec \<Rightarrow> ('a \<Rightarrow> ('s, 'b) exec) \<Rightarrow> (panic \<Rightarrow> ('s, 'b) exec) \<Rightarrow> ('s, 'b) exec" where
  "catch_exec m f h s = (case m s of (Inl e, s') \<Rightarrow> h e s' | (Inr x, s') \<Rightarrow> f x s')"

text \<open>The panic an operation ended with, if it did.\<close>

definition panic_of :: "panic + 'a \<Rightarrow> panic option" where
  "panic_of r = (case r of Inl e \<Rightarrow> Some e | Inr _ \<Rightarrow> None)"

text \<open>\<open>Option::expect\<close>.\<close>

definition expect_exec :: "string \<Rightarrow> 'a option \<Rightarrow> ('s, 'a) exec" where
  "expect_exec msg v = (case v of None \<Rightarrow> panic_exec (Panic msg) | Some x \<Rightarrow> return_exec x)"

subsection \<open>Evaluation\<close>

text \<open>
  Concrete runs are evaluated by the simplifier with the collection \<open>run\<close>. The congruence rules
  \<open>run_cong\<close> keep it from rewriting a continuation before the state it is applied to is known.
\<close>

lemma bind_run_cong: "s = s' \<Longrightarrow> bind_exec m f s = bind_exec m f s'"
  by simp

lemma guard_run_cong: "s = s' \<Longrightarrow> guard_exec m f s = guard_exec m f s'"
  by simp

lemma let_run_cong: "a = b \<Longrightarrow> Let a f = Let b f"
  by simp

lemma catch_run_cong: "s = s' \<Longrightarrow> catch_exec m f h s = catch_exec m f h s'"
  by simp

lemmas run_cong = bind_run_cong guard_run_cong catch_run_cong let_run_cong

lemmas exec_defs = return_exec_def bind_exec_def panic_exec_def modify_exec_def gets_exec_def
  lift_exec_def guard_exec_def catch_exec_def expect_exec_def

declare exec_defs [run] usize_MAX_def [run] usize_add_def [run] usize_sub_def [run]
  wrapping_add_def [run] Let_def [run]

subsection \<open>Weakest preconditions\<close>

text \<open>
  \<open>wpx m Q E s\<close>: run from \<open>s\<close>, \<open>m\<close> returns a value and a state that satisfy \<open>Q\<close>, or
  unwinds with a panic and a state that satisfy \<open>E\<close>.
\<close>

definition wpx :: "('s, 'a) exec \<Rightarrow> ('a \<Rightarrow> 's \<Rightarrow> bool) \<Rightarrow> (panic \<Rightarrow> 's \<Rightarrow> bool) \<Rightarrow> 's \<Rightarrow> bool" where
  "wpx m Q E s = (case m s of (Inl e, s') \<Rightarrow> E e s' | (Inr x, s') \<Rightarrow> Q x s')"

lemma wpx_return [wp, simp]: "wpx (return_exec x) Q E s = Q x s"
  by (simp add: wpx_def return_exec_def)

lemma wpx_panic [wp, simp]: "wpx (panic_exec e) Q E s = E e s"
  by (simp add: wpx_def panic_exec_def)

lemma wpx_modify [wp, simp]: "wpx (modify_exec f) Q E s = Q () (f s)"
  by (simp add: wpx_def modify_exec_def)

lemma wpx_gets [wp, simp]: "wpx (gets_exec f) Q E s = Q (f s) s"
  by (simp add: wpx_def gets_exec_def)

lemma wpx_lift [wp, simp]:
  "wpx (lift_exec r) Q E s = (case r of Inl e \<Rightarrow> E e s | Inr x \<Rightarrow> Q x s)"
  by (simp add: wpx_def lift_exec_def)

lemma wpx_bind [wp, simp]:
  "wpx (bind_exec m f) Q E s = wpx m (\<lambda>x s'. wpx (f x) Q E s') E s"
  by (simp add: wpx_def bind_exec_def split: prod.splits sum.splits)

lemma wpx_guard [wp, simp]:
  "wpx (guard_exec m g) Q E s = wpx m (\<lambda>x s'. Q x (g s')) (\<lambda>e s'. E e (g s')) s"
  by (simp add: wpx_def guard_exec_def split: prod.splits sum.splits)

lemma wpx_catch [wp, simp]:
  "wpx (catch_exec m f h) Q E s = wpx m (\<lambda>x s'. wpx (f x) Q E s') (\<lambda>e s'. wpx (h e) Q E s') s"
  by (simp add: wpx_def catch_exec_def split: prod.splits sum.splits)

lemma wpx_expect [wp, simp]:
  "wpx (expect_exec msg v) Q E s = (case v of None \<Rightarrow> E (Panic msg) s | Some x \<Rightarrow> Q x s)"
  by (simp add: expect_exec_def split: option.splits)

lemma wpx_mono:
  assumes "wpx m Q E s"
    and "\<And>x s'. Q x s' \<Longrightarrow> Q' x s'" and "\<And>e s'. E e s' \<Longrightarrow> E' e s'"
  shows "wpx m Q' E' s"
  using assms by (auto simp: wpx_def split: prod.splits sum.splits)

lemma wpx_conj:
  "wpx m Q E s \<Longrightarrow> wpx m Q' E' s \<Longrightarrow> wpx m (\<lambda>x s'. Q x s' \<and> Q' x s') (\<lambda>e s'. E e s' \<and> E' e s') s"
  by (auto simp: wpx_def split: prod.splits sum.splits)

lemma wpx_if: "wpx (if c then m else m') Q E s = (if c then wpx m Q E s else wpx m' Q E s)"
  by simp

lemma wpx_True [simp]: "wpx m (\<lambda>_ _. True) (\<lambda>_ _. True) s"
  by (simp add: wpx_def split: prod.split sum.split)

lemma wpx_InrD: "wpx m Q E s \<Longrightarrow> m s = (Inr x, s') \<Longrightarrow> Q x s'"
  by (simp add: wpx_def)

lemma wpx_InlD: "wpx m Q E s \<Longrightarrow> m s = (Inl e, s') \<Longrightarrow> E e s'"
  by (simp add: wpx_def)

lemma wpxI:
  assumes "\<And>x s'. m s = (Inr x, s') \<Longrightarrow> Q x s'" and "\<And>e s'. m s = (Inl e, s') \<Longrightarrow> E e s'"
  shows "wpx m Q E s"
  using assms by (auto simp: wpx_def split: prod.splits sum.splits)

text \<open>A block that never panics runs to a value.\<close>

lemma wpx_no_panicD:
  assumes "wpx m Q (\<lambda>_ _. False) s"
  obtains x s' where "m s = (Inr x, s')" and "Q x s'"
  using assms by (auto simp: wpx_def split: prod.splits sum.splits)

subsection \<open>Code that keeps an invariant\<close>

text \<open>
  \<open>keeps I E m\<close>: from a state with \<open>I\<close> the code \<open>m\<close> ends in one, whether it returns or unwinds, and
  unwinds only with a panic in \<open>E\<close>. The rules \<open>keeps\<close> follow the structure of \<open>m\<close>.
\<close>

named_theorems keeps \<open>introduction rules for code that keeps an invariant\<close>

definition keeps :: "('s \<Rightarrow> bool) \<Rightarrow> (panic \<Rightarrow> bool) \<Rightarrow> ('s, 'a) exec \<Rightarrow> bool" where
  "keeps I E m \<longleftrightarrow> (\<forall>s. I s \<longrightarrow> wpx m (\<lambda>_. I) (\<lambda>e s'. E e \<and> I s') s)"

lemma keepsI: "(\<And>s. I s \<Longrightarrow> wpx m (\<lambda>_. I) (\<lambda>e s'. E e \<and> I s') s) \<Longrightarrow> keeps I E m"
  by (simp add: keeps_def)

lemma keepsD: "keeps I E m \<Longrightarrow> I s \<Longrightarrow> wpx m (\<lambda>_. I) (\<lambda>e s'. E e \<and> I s') s"
  by (simp add: keeps_def)

lemma keeps_run: "keeps I E m \<Longrightarrow> I s \<Longrightarrow> m s = (r, s') \<Longrightarrow> I s'"
  by (drule (1) keepsD) (auto simp: wpx_def split: sum.splits)

lemma keeps_return [keeps]: "keeps I E (return_exec x)"
  by (simp add: keeps_def)

lemma keeps_panic [keeps]: "E e \<Longrightarrow> keeps I E (panic_exec e)"
  by (simp add: keeps_def)

lemma keeps_gets [keeps]: "keeps I E (gets_exec f)"
  by (simp add: keeps_def)

lemma keeps_modify: "(\<And>s. I s \<Longrightarrow> I (f s)) \<Longrightarrow> keeps I E (modify_exec f)"
  by (simp add: keeps_def)

lemma keeps_lift [keeps]: "(\<And>e. r = Inl e \<Longrightarrow> E e) \<Longrightarrow> keeps I E (lift_exec r)"
  by (simp add: keeps_def split: sum.split)

lemma keeps_expect [keeps]: "E (Panic msg) \<Longrightarrow> keeps I E (expect_exec msg v)"
  by (simp add: keeps_def split: option.split)

lemma keeps_catch [keeps]:
  assumes "keeps I E m" and "\<And>x. keeps I E (f x)" and "\<And>e. E e \<Longrightarrow> keeps I E (h e)"
  shows "keeps I E (catch_exec m f h)"
proof (rule keepsI)
  fix s
  assume "I s"
  from keepsD [OF assms(1) this] show "wpx (catch_exec m f h) (\<lambda>_. I) (\<lambda>e s'. E e \<and> I s') s"
    by (subst wpx_catch) (erule wpx_mono, erule keepsD [OF assms(2)], blast intro: keepsD [OF assms(3)])
qed

lemma keeps_bind [keeps]:
  assumes "keeps I E m" and "\<And>x. keeps I E (f x)"
  shows "keeps I E (bind_exec m f)"
proof (rule keepsI)
  fix s
  assume "I s"
  from keepsD [OF assms(1) this] show "wpx (bind_exec m f) (\<lambda>_. I) (\<lambda>e s'. E e \<and> I s') s"
    by (subst wpx_bind) (erule wpx_mono, erule keepsD [OF assms(2)])
qed

lemma keeps_guard:
  assumes "keeps I E m" and "\<And>s. I s \<Longrightarrow> I (g s)"
  shows "keeps I E (guard_exec m g)"
proof (rule keepsI)
  fix s
  assume "I s"
  from keepsD [OF assms(1) this] show "wpx (guard_exec m g) (\<lambda>_. I) (\<lambda>e s'. E e \<and> I s') s"
    by (subst wpx_guard) (erule wpx_mono, auto intro: assms(2))
qed

lemma keeps_if [keeps]: "(b \<Longrightarrow> keeps I E m) \<Longrightarrow> (\<not> b \<Longrightarrow> keeps I E m') \<Longrightarrow> keeps I E (if b then m else m')"
  by simp

lemma keeps_option [keeps]:
  "keeps I E m \<Longrightarrow> (\<And>x. v = Some x \<Longrightarrow> keeps I E (f x)) \<Longrightarrow> keeps I E (case v of None \<Rightarrow> m | Some x \<Rightarrow> f x)"
  by (simp split: option.split)

lemma keeps_let [keeps]: "keeps I E (f v) \<Longrightarrow> keeps I E (Let v f)"
  by simp

lemma keeps_prod [keeps]: "(\<And>x y. v = (x, y) \<Longrightarrow> keeps I E (f x y)) \<Longrightarrow> keeps I E (case v of (x, y) \<Rightarrow> f x y)"
  by (simp split: prod.split)

subsection \<open>Arithmetic\<close>

lemma usize_add_ok [simp]: "a + b \<le> usize_MAX \<Longrightarrow> usize_add p a b = Inr (a + b)"
  by (simp add: usize_add_def)

lemma usize_sub_ok [simp]: "b \<le> a \<Longrightarrow> usize_sub p a b = Inr (a - b)"
  by (simp add: usize_sub_def)

lemma usize_add_cases:
  "usize_add p a b = Inr (a + b)
   \<or> usize_add p a b = Inl ArithOverflow \<or> (p = Release \<and> usize_MAX < a + b)"
  by (cases p) (auto simp: usize_add_def)

lemma wrapping_add_ok [simp]: "a + b \<le> usize_MAX \<Longrightarrow> wrapping_add a b = a + b"
  by (simp add: wrapping_add_def)

subsection \<open>Lists of chunks of one size\<close>

definition uniform :: "nat \<Rightarrow> 'a list list \<Rightarrow> bool" where
  "uniform n xss \<longleftrightarrow> (\<forall>xs \<in> set xss. length xs = n)"

lemma uniform_simps [simp]:
  "uniform n []"
  "uniform n (xs # xss) \<longleftrightarrow> length xs = n \<and> uniform n xss"
  "uniform n (xss @ yss) \<longleftrightarrow> uniform n xss \<and> uniform n yss"
  by (auto simp: uniform_def)

lemma uniform_update [simp]:
  "uniform n xss \<Longrightarrow> length xs = n \<Longrightarrow> uniform n (xss[i := xs])"
  by (auto simp: uniform_def dest!: set_update_subset_insert [THEN subsetD])

lemma uniform_nth: "uniform n xss \<Longrightarrow> i < length xss \<Longrightarrow> length (xss ! i) = n"
  by (auto simp: uniform_def)

lemma length_concat_uniform: "uniform n xss \<Longrightarrow> length (concat xss) = n * length xss"
  by (induction xss) auto

lemma nth_concat_uniform:
  "uniform n xss \<Longrightarrow> 0 < n \<Longrightarrow> k < n * length xss \<Longrightarrow>
   concat xss ! k = xss ! (k div n) ! (k mod n)"
proof (induction xss arbitrary: k)
  case Nil
  then show ?case by simp
next
  case (Cons xs xss)
  show ?case
  proof (cases "k < n")
    case True
    with Cons.prems show ?thesis by (simp add: nth_append)
  next
    case False
    then obtain j where j: "k = n + j" using le_Suc_ex not_less by blast
    with Cons.prems Cons.IH [of j] show ?thesis
      by (simp add: nth_append div_add_self1)
  qed
qed

lemma concat_update_uniform:
  "uniform n xss \<Longrightarrow> 0 < n \<Longrightarrow> k < n * length xss \<Longrightarrow>
   concat (xss[k div n := (xss ! (k div n))[k mod n := v]]) = (concat xss)[k := v]"
proof (induction xss arbitrary: k)
  case Nil
  then show ?case by simp
next
  case (Cons xs xss)
  show ?case
  proof (cases "k < n")
    case True
    with Cons.prems show ?thesis by (simp add: list_update_append)
  next
    case False
    then obtain j where j: "k = n + j" using le_Suc_ex not_less by blast
    with Cons.prems Cons.IH [of j] show ?thesis
      by (simp add: list_update_append div_add_self1)
  qed
qed

lemma div_less_iff_uniform: "0 < (n::nat) \<Longrightarrow> k div n < m \<longleftrightarrow> k < n * m"
  by (simp add: less_mult_imp_div_less div_less_iff_less_mult mult.commute)

lemma nth_update_any: "j < length xs \<Longrightarrow> xs[i := x] ! j = (if i = j then x else xs ! j)"
  by (cases "i = j") simp_all

subsection \<open>Counting\<close>

text \<open>The number of positions of a list that satisfy a predicate, under a single update.\<close>

lemma length_filter_update:
  assumes "k < length xs"
  shows "length (filter P (xs[k := v])) + (if P (xs ! k) then 1 else 0)
       = length (filter P xs) + (if P v then 1 else 0)"
proof -
  have old: "filter P xs = filter P (take k xs) @ filter P [xs ! k] @ filter P (drop (Suc k) xs)"
    using assms by (metis append_Cons append_Nil filter_append id_take_nth_drop)
  have "filter P (xs[k := v]) = filter P (take k xs) @ filter P [v] @ filter P (drop (Suc k) xs)"
    using assms by (simp add: upd_conv_take_nth_drop)
  then show ?thesis by (simp add: old)
qed

lemma length_filter_nth:
  "length (filter P xs) = card {k. k < length xs \<and> P (xs ! k)}"
  by (simp add: length_filter_conv_card)

lemma length_filter_mono:
  "(\<And>x. x \<in> set xs \<Longrightarrow> P x \<Longrightarrow> Q x) \<Longrightarrow> length (filter P xs) \<le> length (filter Q xs)"
  by (induction xs) (auto simp: le_SucI)

lemma length_filter_pos: "x \<in> set xs \<Longrightarrow> P x \<Longrightarrow> 0 < length (filter P xs)"
  by (metis filter_empty_conv length_greater_0_conv)

end
