(* ===== verification/Chunk_Slab.thy ===== *)
theory Chunk_Slab
  imports Juggle_Prelude
begin

text \<open>
  \<open>src/utils/chunk_slab.rs\<close>: the slab that stores the tasks of the dynamic scheduler and the
  entries of a timing group. Entries live in boxed chunks of 16, so an insertion never moves
  an entry; the free entries are linked through the indices they hold, from \<open>next\<close>.

  The key type \<open>I\<close> is given by \<open>mx\<close>, its \<open>I::max_value()\<close>; keys are naturals up to it. The
  theory models every operation and shows that the slab implements a finite map: the free
  list is exactly the set of empty entries, insertion returns an unused key and fails only
  when every key of the type is in use, removal frees the key, and the length is the number
  of stored values. The contract is the locale \<open>keyed_store\<close>, interpreted on the slab.
\<close>

subsection \<open>Keys\<close>

definition CHUNK_SIZE :: nat where
  "CHUNK_SIZE = 16"

definition into_index :: "nat \<Rightarrow> nat" where
  "into_index k = k"

definition from_index :: "nat \<Rightarrow> nat \<Rightarrow> nat" where
  "from_index mx idx = idx mod (mx + 1)"

definition add_one :: "profile \<Rightarrow> nat \<Rightarrow> nat \<Rightarrow> panic + nat" where
  "add_one p mx k =
     (if k + 1 \<le> mx then Inr (k + 1)
      else case p of Debug \<Rightarrow> Inl ArithOverflow | Release \<Rightarrow> Inr ((k + 1) mod (mx + 1)))"

text \<open>The instances of the trait: \<open>impl_key!(u8,u16,u32,usize)\<close>.\<close>

definition key_types :: "nat list" where
  "key_types = [2 ^ 8 - 1, 2 ^ 16 - 1, 2 ^ 32 - 1, usize_MAX]"

subsection \<open>The slab\<close>

text \<open>
  \<open>entries\<close> is a \<open>SmallVec\<close> of boxes, used through the interface it shares with \<open>Vec\<close>: the
  model is the list of its elements. A vector of pointers holds at most \<open>isize::MAX\<close> bytes; a
  push beyond that panics.
\<close>

definition VEC_MAX :: nat where
  "VEC_MAX = (2 ^ 63 - 1) div 8"

datatype 'a entry = Empty nat | Full 'a

type_synonym 'a chunk = "'a entry list"

record 'a chunk_slab =
  slab_entries :: "'a chunk list"
  slab_len :: nat
  slab_next :: nat

text \<open>The loop of \<open>Chunk::init\<close> over \<open>data[1..]\<close>.\<close>

primrec chunk_links :: "nat \<Rightarrow> nat \<Rightarrow> nat \<Rightarrow> 'a chunk" where
  "chunk_links mx 0 start = []"
| "chunk_links mx (Suc n) start =
     (let start' = from_index mx (wrapping_add (into_index start) 1)
      in Empty start' # chunk_links mx n start')"

definition chunk_init :: "profile \<Rightarrow> nat \<Rightarrow> nat \<Rightarrow> 'a \<Rightarrow> panic + 'a chunk" where
  "chunk_init p mx start first =
     (case add_one p mx start of
        Inl e \<Rightarrow> Inl e
      | Inr start1 \<Rightarrow> Inr (Full first # chunk_links mx (CHUNK_SIZE - 1) start1))"

definition slab_new :: "'a chunk_slab" where
  "slab_new = \<lparr>slab_entries = [], slab_len = 0, slab_next = 0\<rparr>"

text \<open>Only the reserved memory differs from \<open>new\<close>: \<open>chunks_for\<close> is the number of boxes reserved.\<close>

definition chunks_for :: "nat \<Rightarrow> nat" where
  "chunks_for cap = cap div CHUNK_SIZE + (if cap mod CHUNK_SIZE \<noteq> 0 then 1 else 0)"

definition slab_with_capacity :: "nat \<Rightarrow> nat \<times> 'a chunk_slab" where
  "slab_with_capacity cap =
     (chunks_for cap, \<lparr>slab_entries = [], slab_len = 0, slab_next = 0\<rparr>)"

definition slab_insert :: "profile \<Rightarrow> nat \<Rightarrow> 'a \<Rightarrow> ('a chunk_slab, nat) exec" where
  "slab_insert p mx v s =
     (if mx \<noteq> usize_MAX \<and> slab_len s - 1 = mx then (Inl (Panic ''ChunkSlab size overflow.''), s)
      else
        let key = slab_next s in
        case usize_add p (slab_len s) 1 of
          Inl e \<Rightarrow> (Inl e, s)
        | Inr l \<Rightarrow>
            let s1 = s\<lparr>slab_len := l\<rparr> in
            if into_index key = length (slab_entries s1) * CHUNK_SIZE then
              case chunk_init p mx key v of
                Inl e \<Rightarrow> (Inl e, s1)
              | Inr ch \<Rightarrow>
                  if VEC_MAX \<le> length (slab_entries s1) then (Inl (Panic ''capacity overflow''), s1)
                  else
                  let s2 = s1\<lparr>slab_entries := slab_entries s1 @ [ch]\<rparr> in
                  case add_one p mx key of
                    Inl e \<Rightarrow> (Inl e, s2)
                  | Inr n \<Rightarrow> (Inr key, s2\<lparr>slab_next := n\<rparr>)
            else if into_index key div CHUNK_SIZE < length (slab_entries s1) then
              let ci = into_index key div CHUNK_SIZE; sub = into_index key mod CHUNK_SIZE;
                  ch = slab_entries s1 ! ci; prev = ch ! sub;
                  s2 = s1\<lparr>slab_entries := (slab_entries s1)[ci := ch[sub := Full v]]\<rparr> in
              case prev of
                Empty n \<Rightarrow> (Inr key, s2\<lparr>slab_next := n\<rparr>)
              | Full _ \<Rightarrow> (Inl (Panic ''internal error: entered unreachable code''), s2)
            else (Inl (Panic ''index out of bounds''), s1))"

definition slab_remove :: "profile \<Rightarrow> nat \<Rightarrow> ('a chunk_slab, 'a option) exec" where
  "slab_remove p key s =
     (let ci = into_index key div CHUNK_SIZE; sub = into_index key mod CHUNK_SIZE in
      if ci < length (slab_entries s) then
        case slab_entries s ! ci ! sub of
          Full v \<Rightarrow>
            let s1 = s\<lparr>slab_entries := (slab_entries s)
                       [ci := (slab_entries s ! ci)[sub := Empty (slab_next s)]]\<rparr> in
            (case usize_sub p (slab_len s1) 1 of
               Inl e \<Rightarrow> (Inl e, s1)
             | Inr l \<Rightarrow> (Inr (Some v), s1\<lparr>slab_len := l, slab_next := key\<rparr>))
        | Empty _ \<Rightarrow> (Inr None, s)
      else (Inr None, s))"

definition slab_clear :: "'a chunk_slab \<Rightarrow> 'a chunk_slab" where
  "slab_clear s = s\<lparr>slab_entries := [], slab_len := 0, slab_next := 0\<rparr>"

definition slab_capacity :: "'a chunk_slab \<Rightarrow> nat" where
  "slab_capacity s = length (slab_entries s) * CHUNK_SIZE"

definition slab_get :: "nat \<Rightarrow> 'a chunk_slab \<Rightarrow> 'a option" where
  "slab_get key s =
     (if into_index key div CHUNK_SIZE < length (slab_entries s) then
        case slab_entries s ! (into_index key div CHUNK_SIZE) ! (into_index key mod CHUNK_SIZE) of
          Full v \<Rightarrow> Some v
        | Empty _ \<Rightarrow> None
      else None)"

text \<open>
  \<open>get_mut\<close> hands out a reference; the model applies to it the update \<open>f\<close> that the caller makes
  through the reference, and returns the value the reference then holds.
\<close>

definition slab_get_mut :: "nat \<Rightarrow> ('a \<Rightarrow> 'a) \<Rightarrow> 'a chunk_slab \<Rightarrow> 'a option \<times> 'a chunk_slab" where
  "slab_get_mut key f s =
     (let ci = into_index key div CHUNK_SIZE; sub = into_index key mod CHUNK_SIZE in
      if ci < length (slab_entries s) then
        case slab_entries s ! ci ! sub of
          Full v \<Rightarrow> (Some (f v), s\<lparr>slab_entries := (slab_entries s)
                                 [ci := (slab_entries s ! ci)[sub := Full (f v)]]\<rparr>)
        | Empty _ \<Rightarrow> (None, s)
      else (None, s))"

definition slab_iter :: "nat \<Rightarrow> 'a chunk_slab \<Rightarrow> (nat \<times> 'a) list" where
  "slab_iter mx s =
     List.map_filter (\<lambda>(i, e). case e of Full v \<Rightarrow> Some (from_index mx i, v) | Empty _ \<Rightarrow> None)
       (concat (map (\<lambda>(ci, ch). map (\<lambda>(i, e). (ci * CHUNK_SIZE + i, e)) (enumerate 0 ch))
                  (enumerate 0 (slab_entries s))))"

text \<open>\<open>iter_mut\<close> with the update \<open>f\<close> that the loop body makes through each reference.\<close>

definition slab_iter_mut :: "nat \<Rightarrow> (nat \<Rightarrow> 'a \<Rightarrow> 'a) \<Rightarrow> 'a chunk_slab \<Rightarrow> 'a chunk_slab" where
  "slab_iter_mut mx f s =
     s\<lparr>slab_entries :=
         map (\<lambda>(ci, ch). map (\<lambda>(i, e). case e of Full v \<Rightarrow> Full (f (from_index mx (ci * CHUNK_SIZE + i)) v)
                                              | Empty n \<Rightarrow> Empty n) (enumerate 0 ch))
           (enumerate 0 (slab_entries s))\<rparr>"

text \<open>
  \<open>retain\<close>: the body of the two nested loops at chunk \<open>ci\<close>, entry \<open>i\<close>. The closure is
  \<open>FnMut\<close>; its captured state is threaded as \<open>c\<close>.
\<close>

definition retain_step ::
  "profile \<Rightarrow> nat \<Rightarrow> (nat \<Rightarrow> 'a \<Rightarrow> 'c \<Rightarrow> bool \<times> 'c) \<Rightarrow> nat \<times> nat \<Rightarrow> 'c \<Rightarrow> ('a chunk_slab, 'c) exec" where
  "retain_step p mx func = (\<lambda>(ci, i) c s.
     case slab_entries s ! ci ! i of
       Full v \<Rightarrow>
         let key = from_index mx (ci * CHUNK_SIZE + i) in
         (case func key v c of (keep, c') \<Rightarrow>
            if keep then (Inr c', s)
            else
              let s1 = s\<lparr>slab_entries := (slab_entries s)
                         [ci := (slab_entries s ! ci)[i := Empty (slab_next s)]]\<rparr> in
              case usize_sub p (slab_len s1) 1 of
                Inl e \<Rightarrow> (Inl e, s1)
              | Inr l \<Rightarrow> (Inr c', s1\<lparr>slab_len := l, slab_next := key\<rparr>))
     | Empty _ \<Rightarrow> (Inr c, s))"

primrec retain_loop ::
  "profile \<Rightarrow> nat \<Rightarrow> (nat \<Rightarrow> 'a \<Rightarrow> 'c \<Rightarrow> bool \<times> 'c) \<Rightarrow> (nat \<times> nat) list \<Rightarrow> 'c \<Rightarrow> ('a chunk_slab, 'c) exec"
where
  "retain_loop p mx func [] c = return_exec c"
| "retain_loop p mx func (ix # ixs) c =
     bind_exec (retain_step p mx func ix c) (\<lambda>c'. retain_loop p mx func ixs c')"

definition slab_indices :: "'a chunk_slab \<Rightarrow> (nat \<times> nat) list" where
  "slab_indices s =
     concat (map (\<lambda>ci. map (Pair ci) [0..<CHUNK_SIZE]) [0..<length (slab_entries s)])"

definition slab_retain ::
  "profile \<Rightarrow> nat \<Rightarrow> (nat \<Rightarrow> 'a \<Rightarrow> 'c \<Rightarrow> bool \<times> 'c) \<Rightarrow> 'c \<Rightarrow> ('a chunk_slab, 'c) exec" where
  "slab_retain p mx func c s = retain_loop p mx func (slab_indices s) c s"

lemma chunk_links_numeral [run]:
  "chunk_links mx (numeral n) start =
     (let start' = from_index mx (wrapping_add (into_index start) 1)
      in Empty start' # chunk_links mx (pred_numeral n) start')"
  by (simp add: numeral_eq_Suc)

lemma upt_chunk [run]: "[0..<16] = [0, 1, 2, 3, 4, 5, 6, 7, 8, 9, 10, 11, 12, 13, 14, 15::nat]"
  by (simp add: upt_rec)

declare CHUNK_SIZE_def [run] VEC_MAX_def [run] into_index_def [run] from_index_def [run]
  add_one_def [run] chunk_init_def [run] slab_new_def [run] slab_insert_def [run]
  slab_remove_def [run] slab_get_def [run] slab_get_mut_def [run] slab_capacity_def [run]
  slab_retain_def [run] retain_step_def [run] slab_indices_def [run] slab_iter_def [run]
  List.map_filter_simps [run]

subsection \<open>The abstract view and the representation invariant\<close>

definition slab_flat :: "'a chunk_slab \<Rightarrow> 'a entry list" where
  "slab_flat s = concat (slab_entries s)"

primrec entry_value :: "'a entry \<Rightarrow> 'a option" where
  "entry_value (Empty n) = None"
| "entry_value (Full v) = Some v"

primrec is_full :: "'a entry \<Rightarrow> bool" where
  "is_full (Empty n) = False"
| "is_full (Full v) = True"

definition slab_view :: "'a chunk_slab \<Rightarrow> nat \<Rightarrow> 'a option" where
  "slab_view s k = (if k < length (slab_flat s) then entry_value (slab_flat s ! k) else None)"

text \<open>
  \<open>free_chain es i fl e\<close>: following the links from \<open>i\<close> visits exactly the entries \<open>fl\<close> and then
  reaches \<open>e\<close>.
\<close>

primrec free_chain :: "'a entry list \<Rightarrow> nat \<Rightarrow> nat list \<Rightarrow> nat \<Rightarrow> bool" where
  "free_chain es i [] e = (i = e)"
| "free_chain es i (j # js) e =
     (i = j \<and> j < length es \<and> (case es ! j of Empty k \<Rightarrow> free_chain es k js e | Full _ \<Rightarrow> False))"

definition empties :: "'a entry list \<Rightarrow> nat set" where
  "empties es = {k. k < length es \<and> \<not> is_full (es ! k)}"

definition free_list_ok :: "nat \<Rightarrow> 'a chunk_slab \<Rightarrow> nat list \<Rightarrow> bool" where
  "free_list_ok mx s fl \<longleftrightarrow>
     distinct fl \<and> set fl = empties (slab_flat s)
     \<and> free_chain (slab_flat s) (slab_next s) fl (from_index mx (length (slab_flat s)))"

definition slab_inv :: "nat \<Rightarrow> 'a chunk_slab \<Rightarrow> bool" where
  "slab_inv mx s \<longleftrightarrow>
     mx \<in> set key_types \<and> uniform CHUNK_SIZE (slab_entries s)
     \<and> length (slab_flat s) \<le> mx + 1 \<and> length (slab_entries s) \<le> VEC_MAX
     \<and> slab_len s = length (filter is_full (slab_flat s)) \<and> (\<exists>fl. free_list_ok mx s fl)"

text \<open>Some key of the type is unused, and so is some entry of the chunks a vector can hold.\<close>

definition slab_room :: "nat \<Rightarrow> 'a chunk_slab \<Rightarrow> bool" where
  "slab_room mx s \<longleftrightarrow> slab_len s \<le> mx \<and> slab_len s < CHUNK_SIZE * VEC_MAX"

subsection \<open>Keys and chunks\<close>

lemma entry_value_None [simp]: "entry_value e = None \<longleftrightarrow> \<not> is_full e"
  by (cases e) simp_all

lemma entry_value_Some [simp]: "entry_value e = Some v \<longleftrightarrow> e = Full v"
  by (cases e) simp_all

lemma is_full_iff: "is_full e \<longleftrightarrow> (\<exists>v. e = Full v)"
  by (cases e) simp_all

lemma CHUNK_SIZE_pos [simp]: "0 < CHUNK_SIZE"
  by (simp add: CHUNK_SIZE_def)

lemma into_index_id [simp]: "into_index k = k"
  by (simp add: into_index_def)

lemma key_type_max: "mx \<in> set key_types \<Longrightarrow> mx \<le> usize_MAX"
  by (auto simp: key_types_def usize_MAX_def)

lemma key_type_dvd: "mx \<in> set key_types \<Longrightarrow> CHUNK_SIZE dvd mx + 1"
  by (auto simp: key_types_def usize_MAX_def CHUNK_SIZE_def)

lemma from_index_small [simp]: "i \<le> mx \<Longrightarrow> from_index mx i = i"
  by (simp add: from_index_def)

lemma from_index_end [simp]: "from_index mx (Suc mx) = 0"
  by (simp add: from_index_def)

lemma dvd_room:
  assumes "(c::nat) dvd m" and "c dvd n" and "n < m"
  shows "n + c \<le> m"
  using assms by (metis dvd_diff_nat dvd_imp_le le_add_diff_inverse less_imp_le_nat
      nat_add_left_cancel_le zero_less_diff)

lemma from_index_wrapping:
  assumes "mx \<le> usize_MAX" and "start \<le> mx"
  shows "from_index mx (wrapping_add start 1) = from_index mx (Suc start)"
proof (cases "start < usize_MAX")
  case True
  then show ?thesis by simp
next
  case False
  with assms have "start = mx" "mx = usize_MAX" by auto
  then show ?thesis by (simp add: wrapping_add_def from_index_def)
qed

lemma length_chunk_links [simp]: "length (chunk_links mx n start) = n"
  by (induction n arbitrary: start) (simp_all add: Let_def)

lemma chunk_links_nth:
  assumes "mx \<le> usize_MAX" and "start + n \<le> mx + 1" and "i < n"
  shows "chunk_links mx n start ! i = Empty (from_index mx (start + i + 1))"
  using assms(2,3)
proof (induction n arbitrary: start i)
  case 0
  then show ?case by simp
next
  case (Suc n)
  have hd: "from_index mx (wrapping_add start 1) = from_index mx (Suc start)"
    using Suc.prems by (intro from_index_wrapping [OF assms(1)]) simp
  show ?case
  proof (cases i)
    case 0
    with hd show ?thesis by (simp add: Let_def)
  next
    case (Suc j)
    with Suc.prems have "start < mx" and "Suc start + n \<le> mx + 1" and "j < n" by auto
    with hd Suc Suc.IH [of "Suc start" j] show ?thesis by (simp add: Let_def)
  qed
qed

lemma filter_links_empty [simp]: "filter is_full (chunk_links mx n start) = []"
  by (induction n arbitrary: start) (simp_all add: Let_def)

lemma links_not_full: "i < n \<Longrightarrow> \<not> is_full (chunk_links mx n start ! i)"
  using filter_links_empty [of mx n start] by (metis filter_empty_conv length_chunk_links nth_mem)

subsection \<open>The free list\<close>

lemma free_chain_update [simp]:
  "j \<notin> set fl \<Longrightarrow> free_chain (es[j := x]) i fl e = free_chain es i fl e"
  by (induction fl arbitrary: i) (auto split: entry.splits)

lemma empties_update:
  "k < length es \<Longrightarrow> empties (es[k := x]) = (if is_full x then empties es - {k} else insert k (empties es))"
  by (auto simp: empties_def nth_list_update)

lemma nth_push:
  assumes "i < Suc (length es + n)"
  shows "entry_value ((es @ Full v # chunk_links mx n st) ! i)
       = (if i < length es then entry_value (es ! i) else if i = length es then Some v else None)"
proof (cases "i \<le> length es")
  case True
  then show ?thesis by (auto simp: nth_append)
next
  case False
  then obtain j where "i = Suc (length es + j)" using less_natE by (metis add.commute not_le)
  with assms show ?thesis by (simp add: nth_append links_not_full)
qed

lemma is_full_push:
  "i < Suc (length es + n) \<Longrightarrow> is_full ((es @ Full v # chunk_links mx n st) ! i)
   = (if i < length es then is_full (es ! i) else i = length es)"
  using nth_push [of i es n v mx st, THEN arg_cong, of "\<lambda>x. x = None"] by (simp split: if_splits)

lemma empties_push:
  assumes "empties es = {}"
  shows "empties (es @ Full v # chunk_links mx n st) = {Suc (length es)..<Suc (length es) + n}"
proof (rule set_eqI)
  fix i
  have "i < length es \<Longrightarrow> is_full (es ! i)" using assms by (auto simp: empties_def)
  then show "i \<in> empties (es @ Full v # chunk_links mx n st) \<longleftrightarrow> i \<in> {Suc (length es)..<Suc (length es) + n}"
    using is_full_push [of i es n v mx st] by (auto simp: empties_def split: if_splits)
qed

lemma free_chain_append:
  "free_chain es i fl e \<Longrightarrow> free_chain (es @ es') i fl e"
  by (induction fl arbitrary: i) (auto simp: nth_append split: entry.splits)

text \<open>The links of a fresh chunk form a chain through its free entries.\<close>

lemma free_chain_links:
  assumes mx: "mx \<le> usize_MAX" and fit: "length es + n \<le> mx + 1" and m: "m \<le> n"
  shows "free_chain (es @ chunk_links mx n (length es)) (from_index mx (length es + (n - m)))
           [length es + (n - m)..<length es + n] (from_index mx (length es + n))"
  using m
proof (induction m)
  case 0
  then show ?case by simp
next
  case (Suc m)
  obtain d where d: "n - Suc m = d" "n - m = Suc d" "d < n"
    using Suc.prems by (metis Suc_diff_Suc Suc_le_lessD diff_less_Suc lessI less_imp_diff_less
        less_trans_Suc nat_neq_iff not_less_eq)
  have "(es @ chunk_links mx n (length es)) ! (length es + d)
      = Empty (from_index mx (length es + Suc d))"
    using d fit by (simp add: chunk_links_nth [OF mx])
  moreover have "free_chain (es @ chunk_links mx n (length es)) (from_index mx (length es + Suc d))
      [length es + Suc d..<length es + n] (from_index mx (length es + n))"
    using Suc d by simp
  ultimately show ?case
    using d fit by (simp add: upt_conv_Cons)
qed

subsection \<open>The view\<close>

lemma slab_flat_length:
  "slab_inv mx s \<Longrightarrow> length (slab_flat s) = CHUNK_SIZE * length (slab_entries s)"
  by (simp add: slab_inv_def slab_flat_def length_concat_uniform)

lemma slab_capacity_flat: "slab_inv mx s \<Longrightarrow> slab_capacity s = length (slab_flat s)"
  by (simp add: slab_flat_length slab_capacity_def mult.commute)

lemma slab_cell:
  assumes "slab_inv mx s"
  shows "(k div CHUNK_SIZE < length (slab_entries s)) = (k < length (slab_flat s))"
    and "k < length (slab_flat s) \<Longrightarrow>
         slab_entries s ! (k div CHUNK_SIZE) ! (k mod CHUNK_SIZE) = slab_flat s ! k"
    and "k < length (slab_flat s) \<Longrightarrow>
         concat ((slab_entries s)[k div CHUNK_SIZE
           := (slab_entries s ! (k div CHUNK_SIZE))[k mod CHUNK_SIZE := x]]) = (slab_flat s)[k := x]"
  using assms
  by (simp_all add: div_less_iff_uniform slab_flat_length)
     (simp_all add: slab_inv_def slab_flat_def nth_concat_uniform [of CHUNK_SIZE]
       concat_update_uniform length_concat_uniform)

lemma slab_get_view:
  assumes "slab_inv mx s"
  shows "slab_get k s = slab_view s k"
  using assms
  by (auto simp: slab_get_def slab_view_def slab_cell [OF assms] split: entry.splits)

lemma slab_view_new [simp]: "slab_view slab_new = Map.empty"
  by (auto simp: slab_view_def slab_flat_def slab_new_def)

lemma slab_view_capacity: "slab_inv mx s \<Longrightarrow> slab_view s k = Some v \<Longrightarrow> k < slab_capacity s"
  by (auto simp: slab_capacity_flat slab_view_def split: if_splits)

lemma slab_dom: "dom (slab_view s) = {k. k < length (slab_flat s) \<and> is_full (slab_flat s ! k)}"
  by (auto simp: slab_view_def is_full_iff split: if_splits)

lemma slab_len_card: "slab_inv mx s \<Longrightarrow> slab_len s = card (dom (slab_view s))"
  by (simp add: slab_inv_def slab_dom length_filter_conv_card)

lemma slab_dom_finite [simp]: "finite (dom (slab_view s))"
  by (simp add: slab_dom)

text \<open>Writing one cell: the view, the number of full entries and the shape.\<close>

lemma slab_write:
  assumes "slab_inv mx s" and "k < length (slab_flat s)"
    and t: "slab_entries t = (slab_entries s)[k div CHUNK_SIZE
              := (slab_entries s ! (k div CHUNK_SIZE))[k mod CHUNK_SIZE := x]]"
  shows "slab_flat t = (slab_flat s)[k := x]"
    and "uniform CHUNK_SIZE (slab_entries t)"
    and "slab_view t = (slab_view s)(k := entry_value x)"
    and "length (slab_entries t) = length (slab_entries s)"
proof -
  show flat: "slab_flat t = (slab_flat s)[k := x]"
    using assms(2) by (simp add: slab_flat_def [of t] t slab_cell(3) [OF assms(1)])
  have "k div CHUNK_SIZE < length (slab_entries s)"
    using assms(2) by (simp add: slab_cell(1) [OF assms(1)])
  then show "uniform CHUNK_SIZE (slab_entries t)"
    using assms(1) by (auto simp: t slab_inv_def uniform_nth)
  show "length (slab_entries t) = length (slab_entries s)" by (simp add: t)
  show "slab_view t = (slab_view s)(k := entry_value x)"
    using assms(2) by (auto simp: slab_view_def flat)
qed

lemma slab_inv_new: "mx \<in> set key_types \<Longrightarrow> slab_inv mx slab_new"
  by (auto simp: slab_inv_def slab_new_def slab_flat_def free_list_ok_def empties_def intro: exI [of _ "[]"])

lemma slab_clear_new [simp]: "slab_clear s = slab_new"
  by (simp add: slab_clear_def slab_new_def)

text \<open>A write of a full entry over a full entry keeps the invariant.\<close>

lemma slab_inv_overwrite:
  assumes inv: "slab_inv mx s" and k: "k < length (slab_flat s)" and old: "is_full (slab_flat s ! k)"
    and t: "slab_entries t = (slab_entries s)[k div CHUNK_SIZE
              := (slab_entries s ! (k div CHUNK_SIZE))[k mod CHUNK_SIZE := Full v]]"
    and "slab_len t = slab_len s" and "slab_next t = slab_next s"
  shows "slab_inv mx t"
proof -
  note w = slab_write [OF inv k t]
  obtain fl where fl: "free_list_ok mx s fl" using inv by (auto simp: slab_inv_def)
  with old have "k \<notin> set fl" by (auto simp: free_list_ok_def empties_def)
  with fl have "free_list_ok mx t fl"
    by (simp add: free_list_ok_def w(1) assms(6) empties_update [OF k])
  moreover have "slab_len t = length (filter is_full (slab_flat t))"
    using length_filter_update [OF k, of is_full "Full v"] old inv
    by (simp add: w(1) assms(5) slab_inv_def)
  ultimately show ?thesis
    using inv w(1,2,4) unfolding slab_inv_def by auto
qed

subsection \<open>Insertion\<close>

text \<open>With room left, either \<open>next\<close> is a free entry or all entries are full and a chunk is pushed.\<close>

lemma slab_room_cases:
  assumes inv: "slab_inv mx s" and room: "slab_room mx s"
  obtains (free) n fl where "slab_next s < length (slab_flat s)"
      and "slab_flat s ! slab_next s = Empty n" and "free_list_ok mx s (slab_next s # fl)"
  | (push) "slab_next s = length (slab_flat s)" and "length (slab_flat s) + CHUNK_SIZE \<le> mx + 1"
      and "free_list_ok mx s []" and "length (slab_entries s) < VEC_MAX"
proof -
  obtain fl where fl: "free_list_ok mx s fl" using inv by (auto simp: slab_inv_def)
  show thesis
  proof (cases fl)
    case (Cons j js)
    with fl have "slab_next s = j" and "j < length (slab_flat s)"
      by (auto simp: free_list_ok_def)
    moreover from this fl Cons obtain n where "slab_flat s ! j = Empty n"
      by (cases "slab_flat s ! j") (auto simp: free_list_ok_def)
    ultimately show thesis using fl Cons free by blast
  next
    case Nil
    with fl have all: "filter is_full (slab_flat s) = slab_flat s"
      by (auto simp: free_list_ok_def empties_def filter_id_conv in_set_conv_nth)
    with inv room have "length (slab_flat s) < mx + 1"
      by (simp add: slab_inv_def slab_room_def)
    then have "length (slab_flat s) + CHUNK_SIZE \<le> mx + 1"
      using key_type_dvd slab_flat_length [OF inv] inv
      by (intro dvd_room) (auto simp: slab_inv_def)
    moreover have "slab_next s = length (slab_flat s)"
      using fl Nil \<open>length (slab_flat s) < mx + 1\<close> by (simp add: free_list_ok_def)
    moreover have "length (slab_entries s) < VEC_MAX"
      using all inv room slab_flat_length [OF inv] by (simp add: slab_inv_def slab_room_def)
    ultimately show thesis using push fl Nil by blast
  qed
qed

lemma slab_insert_free:
  assumes inv: "slab_inv mx s" and room: "slab_room mx s"
    and "slab_next s < length (slab_flat s)" and "slab_flat s ! slab_next s = Empty n"
    and fl: "free_list_ok mx s (slab_next s # fl)"
  shows "\<exists>t. slab_insert p mx v s = (Inr (slab_next s), t) \<and> slab_inv mx t
           \<and> slab_view t = (slab_view s)(slab_next s \<mapsto> v)"
proof -
  define k where "k = slab_next s"
  define t where "t = s\<lparr>slab_len := slab_len s + 1, slab_next := n,
      slab_entries := (slab_entries s)[k div CHUNK_SIZE
        := (slab_entries s ! (k div CHUNK_SIZE))[k mod CHUNK_SIZE := Full v]]\<rparr>"
  have k: "k < length (slab_flat s)" and cell: "slab_flat s ! k = Empty n"
    using assms(3,4) by (simp_all add: k_def)
  have "slab_entries t = (slab_entries s)[k div CHUNK_SIZE
        := (slab_entries s ! (k div CHUNK_SIZE))[k mod CHUNK_SIZE := Full v]]"
    by (simp add: t_def)
  note w = slab_write [OF inv k this]
  have "slab_flat s ! k \<in> set (slab_flat s)" "\<not> is_full (slab_flat s ! k)"
    using k by (rule nth_mem) (simp add: cell)
  then have "slab_len s < length (slab_flat s)"
    using inv length_filter_less by (metis slab_inv_def)
  then have "slab_len s + 1 \<le> mx + 1" using inv by (simp add: slab_inv_def)
  then have "slab_len s + 1 \<le> usize_MAX" and "mx = usize_MAX \<or> slab_len s - 1 \<noteq> mx"
    using room inv by (auto simp: slab_inv_def slab_room_def key_types_def VEC_MAX_def CHUNK_SIZE_def usize_MAX_def)
  moreover have "k \<noteq> length (slab_entries s) * CHUNK_SIZE"
    using k slab_flat_length [OF inv] by (simp add: mult.commute)
  ultimately have "slab_insert p mx v s = (Inr k, t)"
    using k cell by (auto simp: slab_insert_def slab_cell [OF inv] Let_def t_def k_def)
  moreover have "free_list_ok mx t fl"
  proof -
    have "k \<notin> set fl" and "insert k (set fl) = empties (slab_flat s)"
      using fl by (simp_all add: free_list_ok_def k_def)
    then have "set fl = empties (slab_flat t)" by (auto simp: w(1) empties_update [OF k])
    then show ?thesis using fl cell by (simp add: free_list_ok_def w(1) k_def) (simp add: t_def)
  qed
  moreover have "slab_len t = length (filter is_full (slab_flat t))"
    using length_filter_update [OF k, of is_full "Full v"] cell inv
    by (simp add: w(1) slab_inv_def) (simp add: t_def)
  ultimately show ?thesis
    using inv w(2) by (intro exI [of _ t]) (auto simp: slab_inv_def w(1,3,4) k_def)
qed

lemma slab_insert_push:
  assumes inv: "slab_inv mx s" and room: "slab_room mx s"
    and k: "slab_next s = length (slab_flat s)" and fit: "length (slab_flat s) + CHUNK_SIZE \<le> mx + 1"
    and fl: "free_list_ok mx s []" and vec: "length (slab_entries s) < VEC_MAX"
  shows "\<exists>t. slab_insert p mx v s = (Inr (slab_next s), t) \<and> slab_inv mx t
           \<and> slab_view t = (slab_view s)(slab_next s \<mapsto> v)"
proof -
  define n where "n = length (slab_flat s)"
  define m where "m = CHUNK_SIZE - 1"
  have m: "CHUNK_SIZE = Suc m" by (simp add: m_def)
  define t where "t = s\<lparr>slab_len := slab_len s + 1, slab_next := Suc n,
      slab_entries := slab_entries s @ [Full v # chunk_links mx m (Suc n)]\<rparr>"
  have mx: "mx \<le> usize_MAX" using inv key_type_max by (simp add: slab_inv_def)
  have small: "Suc n \<le> mx" "Suc n + m \<le> mx + 1" using fit by (simp_all add: n_def m_def CHUNK_SIZE_def)
  have "slab_len s \<le> n" using inv by (simp add: slab_inv_def n_def)
  with small mx have "slab_len s + 1 \<le> usize_MAX" "slab_len s - 1 \<noteq> mx" by auto
  moreover have "n = length (slab_entries s) * CHUNK_SIZE"
    using slab_flat_length [OF inv] by (simp add: mult.commute n_def)
  ultimately have ins: "slab_insert p mx v s = (Inr n, t)"
    using k small vec by (simp add: slab_insert_def chunk_init_def add_one_def Let_def t_def n_def m_def)
  have flat: "slab_flat t = (slab_flat s @ [Full v]) @ chunk_links mx m (Suc n)"
    by (simp add: slab_flat_def t_def)
  have "free_chain (slab_flat t) (Suc n) [Suc n..<Suc n + m] (from_index mx (Suc n + m))"
    using free_chain_links [OF mx, of "slab_flat s @ [Full v]" m m] small by (simp add: flat n_def del: upt_Suc)
  moreover have "empties (slab_flat t) = set [Suc n..<Suc n + m]"
    using fl empties_push [of "slab_flat s" v mx m "Suc n"]
    by (simp add: flat free_list_ok_def n_def del: upt_Suc)
  moreover have "length (slab_flat t) = Suc n + m" by (simp add: flat n_def)
  ultimately have "free_list_ok mx t [Suc n..<Suc n + m]"
    by (simp add: free_list_ok_def t_def del: upt_Suc)
  moreover have "slab_view t = (slab_view s)(n \<mapsto> v)"
    using nth_push [of _ "slab_flat s" m v mx "Suc n"]
    by (auto simp: slab_view_def flat fun_eq_iff n_def)
  moreover have "slab_len t = length (filter is_full (slab_flat t))"
    using inv by (simp add: flat) (simp add: t_def slab_inv_def)
  moreover have "uniform CHUNK_SIZE (slab_entries t)"
    using inv m by (simp add: slab_inv_def t_def)
  moreover have "length (slab_flat t) \<le> mx + 1" using small by (simp add: flat n_def)
  moreover have "length (slab_entries t) \<le> VEC_MAX" using vec by (simp add: t_def)
  ultimately have "slab_inv mx t"
    using inv unfolding slab_inv_def by blast
  then show ?thesis
    using ins k \<open>slab_view t = (slab_view s)(n \<mapsto> v)\<close> n_def by auto
qed

lemma slab_insert_ok:
  assumes "slab_inv mx s" and "slab_room mx s"
  shows "\<exists>k t. slab_insert p mx v s = (Inr k, t) \<and> slab_inv mx t \<and> k = slab_next s
           \<and> slab_view s k = None \<and> slab_view t = (slab_view s)(k \<mapsto> v)"
  using assms
proof (cases rule: slab_room_cases)
  case (free n fl)
  with slab_insert_free [OF assms free] show ?thesis by (auto simp: slab_view_def)
next
  case push
  with slab_insert_push [OF assms push] show ?thesis by (auto simp: slab_view_def)
qed

text \<open>Without room every entry is in use and the insertion panics.\<close>

lemma slab_insert_full_keys:
  assumes "slab_inv mx s" and "mx \<noteq> usize_MAX" and "\<not> slab_room mx s"
  shows "slab_insert p mx v s = (Inl (Panic ''ChunkSlab size overflow.''), s)"
proof -
  have "slab_len s \<le> length (slab_flat s)" using assms(1) by (simp add: slab_inv_def)
  then have "slab_len s \<le> mx + 1" using assms(1) unfolding slab_inv_def by linarith
  moreover have "mx + 1 < CHUNK_SIZE * VEC_MAX"
    using assms(1,2) by (auto simp: slab_inv_def key_types_def CHUNK_SIZE_def VEC_MAX_def)
  ultimately have "slab_len s = mx + 1" using assms(3) by (auto simp: slab_room_def)
  then show ?thesis using assms(2) by (simp add: slab_insert_def)
qed

lemma slab_insert_full_usize:
  assumes inv: "slab_inv usize_MAX s" and "\<not> slab_room usize_MAX s"
  shows "\<exists>t. slab_insert p usize_MAX v s = (Inl (Panic ''capacity overflow''), t)"
proof -
  have len: "slab_len s \<le> length (slab_flat s)" using inv by (simp add: slab_inv_def)
  have "length (slab_flat s) \<le> CHUNK_SIZE * VEC_MAX"
    using inv slab_flat_length [OF inv] by (simp add: slab_inv_def)
  moreover have "CHUNK_SIZE * VEC_MAX \<le> slab_len s"
    using assms len calculation by (auto simp: slab_room_def VEC_MAX_def CHUNK_SIZE_def usize_MAX_def)
  ultimately have eq: "length (slab_flat s) = CHUNK_SIZE * VEC_MAX" "slab_len s = length (slab_flat s)"
    using len by simp_all
  then have vec: "length (slab_entries s) = VEC_MAX"
    using slab_flat_length [OF inv] by (simp add: CHUNK_SIZE_def)
  have "filter is_full (slab_flat s) = slab_flat s"
    using eq inv by (metis length_filter_less less_irrefl filter_True slab_inv_def)
  then have "empties (slab_flat s) = {}"
    by (auto simp: empties_def filter_id_conv)
  then have "slab_next s = from_index usize_MAX (length (slab_flat s))"
    using inv by (auto simp: slab_inv_def free_list_ok_def)
  then have "slab_next s = length (slab_entries s) * CHUNK_SIZE" "slab_next s + 1 \<le> usize_MAX"
    by (simp_all add: eq vec from_index_def usize_MAX_def VEC_MAX_def CHUNK_SIZE_def)
  moreover have "slab_len s + 1 \<le> usize_MAX"
    by (simp add: eq usize_MAX_def VEC_MAX_def CHUNK_SIZE_def)
  ultimately show ?thesis
    using vec by (simp add: slab_insert_def Let_def chunk_init_def add_one_def)
qed

subsection \<open>Removal and update\<close>

lemma slab_remove_full:
  assumes inv: "slab_inv mx s" and v: "slab_view s k = Some v"
  shows "\<exists>t. slab_remove p k s = (Inr (Some v), t) \<and> slab_inv mx t \<and> slab_next t = k
           \<and> slab_view t = (slab_view s)(k := None)"
proof -
  have k: "k < length (slab_flat s)" and cell: "slab_flat s ! k = Full v"
    using v by (auto simp: slab_view_def split: if_splits)
  define t where "t = s\<lparr>slab_len := slab_len s - 1, slab_next := k,
      slab_entries := (slab_entries s)[k div CHUNK_SIZE
        := (slab_entries s ! (k div CHUNK_SIZE))[k mod CHUNK_SIZE := Empty (slab_next s)]]\<rparr>"
  have "slab_entries t = (slab_entries s)[k div CHUNK_SIZE
        := (slab_entries s ! (k div CHUNK_SIZE))[k mod CHUNK_SIZE := Empty (slab_next s)]]"
    by (simp add: t_def)
  note w = slab_write [OF inv k this]
  have cnt: "length (filter is_full (slab_flat t)) + 1 = slab_len s"
    using length_filter_update [OF k, of is_full "Empty (slab_next s)"] cell inv
    by (simp add: w(1) slab_inv_def)
  then have "slab_remove p k s = (Inr (Some v), t)"
    using k cell by (simp add: slab_remove_def slab_cell [OF inv] Let_def t_def)
  moreover have "slab_inv mx t"
  proof -
    obtain fl where fl: "free_list_ok mx s fl" using inv by (auto simp: slab_inv_def)
    then have "k \<notin> set fl" using cell by (auto simp: free_list_ok_def empties_def)
    with fl k have "free_list_ok mx t (k # fl)"
      by (simp add: free_list_ok_def w(1) empties_update [OF k]) (simp add: t_def)
    moreover have "slab_len t = length (filter is_full (slab_flat t))" using cnt by (simp add: t_def)
    moreover have "length (slab_flat t) \<le> mx + 1" using inv by (simp add: w(1) slab_inv_def)
    moreover have "length (slab_entries t) \<le> VEC_MAX" using inv by (simp add: w(4) slab_inv_def)
    ultimately show ?thesis using inv w(2) unfolding slab_inv_def by blast
  qed
  ultimately show ?thesis by (simp add: w(3)) (simp add: t_def)
qed

lemma slab_remove_ok:
  assumes "slab_inv mx s"
  shows "\<exists>t. slab_remove p k s = (Inr (slab_view s k), t) \<and> slab_inv mx t
           \<and> slab_view t = (slab_view s)(k := None)"
proof (cases "slab_view s k")
  case None
  then have "slab_remove p k s = (Inr None, s)"
    using slab_get_view [OF assms, of k]
    by (auto simp: slab_remove_def slab_get_def Let_def split: if_splits entry.splits)
  moreover have "(slab_view s)(k := None) = slab_view s" using None by (simp add: fun_upd_idem)
  ultimately show ?thesis using None assms by auto
next
  case (Some v)
  then show ?thesis using slab_remove_full [OF assms Some] by fastforce
qed

lemma slab_get_mut_ok:
  assumes inv: "slab_inv mx s"
  shows "\<exists>t. slab_get_mut k f s = (map_option f (slab_view s k), t) \<and> slab_inv mx t
           \<and> slab_view t = (slab_view s)(k := map_option f (slab_view s k))
           \<and> slab_len t = slab_len s \<and> slab_capacity t = slab_capacity s"
proof (cases "slab_view s k")
  case None
  then have "slab_get_mut k f s = (None, s)"
    using slab_get_view [OF inv, of k]
    by (auto simp: slab_get_mut_def slab_get_def Let_def split: if_splits entry.splits)
  then show ?thesis using None inv by (auto simp: fun_upd_idem)
next
  case (Some v)
  then have k: "k < length (slab_flat s)" and cell: "slab_flat s ! k = Full v"
    by (auto simp: slab_view_def split: if_splits)
  define t where "t = s\<lparr>slab_entries := (slab_entries s)[k div CHUNK_SIZE
        := (slab_entries s ! (k div CHUNK_SIZE))[k mod CHUNK_SIZE := Full (f v)]]\<rparr>"
  have e: "slab_entries t = (slab_entries s)[k div CHUNK_SIZE
        := (slab_entries s ! (k div CHUNK_SIZE))[k mod CHUNK_SIZE := Full (f v)]]"
    by (simp add: t_def)
  have "slab_get_mut k f s = (Some (f v), t)"
    using k cell by (simp add: slab_get_mut_def slab_cell [OF inv] Let_def t_def)
  moreover have "slab_inv mx t"
    using slab_inv_overwrite [OF inv k _ e] cell by (simp add: t_def)
  ultimately show ?thesis
    using slab_write(3) [OF inv k e] Some by (simp add: slab_capacity_def t_def)
qed

lemma slab_insert_capacity:
  "slab_insert p mx v s = (Inr k, t) \<Longrightarrow> slab_capacity s \<le> slab_capacity t"
  by (auto simp: slab_insert_def slab_capacity_def Let_def
      split: if_splits sum.splits entry.splits)

lemma slab_remove_capacity:
  "slab_remove p k s = (r, t) \<Longrightarrow> slab_capacity t = slab_capacity s"
  by (auto simp: slab_remove_def slab_capacity_def Let_def split: if_splits sum.splits entry.splits)

subsection \<open>Retaining and iterating\<close>

text \<open>What \<open>retain\<close> means on the map the slab stands for, with the keys visited in order.\<close>

primrec retain_map ::
  "(nat \<Rightarrow> 'a \<Rightarrow> 'c \<Rightarrow> bool \<times> 'c) \<Rightarrow> nat list \<Rightarrow> 'c \<Rightarrow> (nat \<rightharpoonup> 'a) \<Rightarrow> 'c \<times> (nat \<rightharpoonup> 'a)" where
  "retain_map func [] c m = (c, m)"
| "retain_map func (k # ks) c m =
     (case m k of
        None \<Rightarrow> retain_map func ks c m
      | Some v \<Rightarrow> (case func k v c of (keep, c') \<Rightarrow>
                    retain_map func ks c' (if keep then m else m(k := None))))"

abbreviation index_key :: "nat \<times> nat \<Rightarrow> nat" where
  "index_key ix \<equiv> fst ix * CHUNK_SIZE + snd ix"

lemma retain_step_ok:
  assumes inv: "slab_inv mx s" and i: "snd ix < CHUNK_SIZE" and k: "index_key ix < slab_capacity s"
  shows "\<exists>c' t. retain_step p mx func ix c s = (Inr c', t) \<and> slab_inv mx t
           \<and> slab_capacity t = slab_capacity s
           \<and> (c', slab_view t) = retain_map func [index_key ix] c (slab_view s)"
proof -
  obtain ci j where ix: "ix = (ci, j)" by (cases ix)
  define key where "key = index_key ix"
  have flat: "key < length (slab_flat s)" using k slab_capacity_flat [OF inv] by (simp add: key_def)
  have kk: "ci * CHUNK_SIZE + j = key" by (simp add: key_def ix)
  have dm: "key div CHUNK_SIZE = ci" "key mod CHUNK_SIZE = j" using i by (simp_all add: key_def ix)
  have cell: "slab_entries s ! ci ! j = slab_flat s ! key"
    using slab_cell(2) [OF inv flat] by (simp add: dm)
  have fi: "from_index mx key = key" using flat inv by (intro from_index_small) (auto simp: slab_inv_def)
  show ?thesis
  proof (cases "slab_flat s ! key")
    case (Empty n)
    then show ?thesis using inv flat cell key_def
      by (auto simp: retain_step_def ix slab_view_def)
  next
    case (Full v)
    then have view: "slab_view s key = Some v" using flat by (simp add: slab_view_def)
    obtain keep c' where fn: "func key v c = (keep, c')" by (cases "func key v c")
    show ?thesis
    proof (cases keep)
      case True
      then show ?thesis using inv view Full cell fn fi key_def
        by (auto simp: retain_step_def ix Let_def)
    next
      case False
      obtain t where rem: "slab_remove p key s = (Inr (Some v), t)" and t: "slab_inv mx t"
          "slab_view t = (slab_view s)(key := None)"
        using slab_remove_full [OF inv view] by blast
      have "retain_step p mx func ix c s = (Inr c', t)"
        using rem Full False cell fn fi flat slab_cell(1) [OF inv, of key]
        by (auto simp: retain_step_def slab_remove_def ix Let_def dm kk split: sum.splits if_splits)
      then show ?thesis
        using t view fn False slab_remove_capacity [OF rem] by (simp add: key_def [symmetric])
    qed
  qed
qed

lemma retain_map_Cons_step:
  "(c', m') = retain_map func [k] c m \<Longrightarrow> retain_map func (k # ks) c m = retain_map func ks c' m'"
  by (auto split: option.splits prod.splits)

lemma retain_loop_ok:
  assumes "slab_inv mx s" and "\<forall>ix \<in> set ixs. snd ix < CHUNK_SIZE \<and> index_key ix < slab_capacity s"
  shows "\<exists>c' t. retain_loop p mx func ixs c s = (Inr c', t) \<and> slab_inv mx t
           \<and> (c', slab_view t) = retain_map func (map index_key ixs) c (slab_view s)"
  using assms
proof (induction ixs arbitrary: s c)
  case Nil
  then show ?case by (simp add: return_exec_def)
next
  case (Cons ix ixs)
  then obtain c1 s1 where st: "retain_step p mx func ix c s = (Inr c1, s1)" "slab_inv mx s1"
      "slab_capacity s1 = slab_capacity s"
      "(c1, slab_view s1) = retain_map func [index_key ix] c (slab_view s)"
    using retain_step_ok [of mx s ix p func c] by auto
  with Cons.IH [of s1 c1] Cons.prems show ?case
    using retain_map_Cons_step [OF st(4)] by (simp add: bind_exec_def)
qed

lemma slab_indices_keys: "map index_key (slab_indices s) = [0..<slab_capacity s]"
proof -
  have "map index_key (concat (map (\<lambda>ci. map (Pair ci) [0..<CHUNK_SIZE]) [0..<n])) = [0..<n * CHUNK_SIZE]" for n
  proof (induction n)
    case 0
    then show ?case by simp
  next
    case (Suc n)
    have "map (\<lambda>i. n * CHUNK_SIZE + i) [0..<CHUNK_SIZE] = [n * CHUNK_SIZE..<n * CHUNK_SIZE + CHUNK_SIZE]"
      by (simp add: map_add_upt add.commute)
    moreover have "[0..<n * CHUNK_SIZE + CHUNK_SIZE]
        = [0..<n * CHUNK_SIZE] @ [n * CHUNK_SIZE..<n * CHUNK_SIZE + CHUNK_SIZE]"
      by (rule upt_add_eq_append) simp
    ultimately show ?case using Suc by (simp add: add.commute comp_def)
  qed
  then show ?thesis by (simp add: slab_indices_def slab_capacity_def)
qed

lemma slab_retain_ok:
  assumes "slab_inv mx s"
  shows "\<exists>c' t. slab_retain p mx func c s = (Inr c', t) \<and> slab_inv mx t
           \<and> (c', slab_view t) = retain_map func [0..<slab_capacity s] c (slab_view s)"
proof -
  have "\<forall>ix \<in> set (slab_indices s). snd ix < CHUNK_SIZE \<and> index_key ix < slab_capacity s"
  proof
    fix ix assume ix: "ix \<in> set (slab_indices s)"
    then have "index_key ix \<in> set (map index_key (slab_indices s))" by force
    with ix show "snd ix < CHUNK_SIZE \<and> index_key ix < slab_capacity s"
      by (auto simp: slab_indices_keys) (auto simp: slab_indices_def)
  qed
  from retain_loop_ok [OF assms this] show ?thesis
    by (simp add: slab_retain_def slab_indices_keys)
qed

text \<open>A closure without state: the entries it rejects are gone, the others are kept.\<close>

lemma retain_map_pred:
  assumes "distinct ks"
  shows "snd (retain_map (\<lambda>k v c. (P k v, c)) ks c m)
       = (\<lambda>k. case m k of None \<Rightarrow> None | Some v \<Rightarrow> if k \<in> set ks \<and> \<not> P k v then None else Some v)"
  using assms
proof (induction ks arbitrary: m)
  case Nil
  then show ?case by (auto split: option.splits)
next
  case (Cons k ks)
  then show ?case by (auto simp: fun_eq_iff split: option.splits)
qed

lemma enumerate_shift: "map (\<lambda>(i, e). (a + i, e)) (enumerate b xs) = enumerate (a + b) xs"
  by (induction xs arbitrary: b) simp_all

lemma concat_enumerate:
  "uniform n xss \<Longrightarrow>
   concat (map (\<lambda>(ci, ch). map (\<lambda>(i, e). (ci * n + i, e)) (enumerate 0 ch)) (enumerate m xss))
   = enumerate (m * n) (concat xss)"
proof (induction xss arbitrary: m)
  case Nil
  then show ?case by simp
next
  case (Cons xs xss)
  then show ?case
    using enumerate_shift [of "m * n" 0 xs] Cons.IH [of "Suc m"]
    by (simp add: enumerate_append_eq add.commute [of n])
qed

lemma enumerate_upt: "enumerate n xs = map (\<lambda>i. (i, xs ! (i - n))) [n..<n + length xs]"
  by (rule nth_equalityI) (simp_all add: nth_enumerate_eq)

lemma map_filter_cong:
  "(\<And>x. x \<in> set xs \<Longrightarrow> f x = g x) \<Longrightarrow> List.map_filter f xs = List.map_filter g xs"
  by (induction xs) (auto simp: List.map_filter_simps split: option.splits)

lemma map_filter_map: "List.map_filter f (map g xs) = List.map_filter (f \<circ> g) xs"
  by (induction xs) (auto simp: List.map_filter_simps split: option.splits)

text \<open>Iteration lists the stored pairs in the order of their keys.\<close>

lemma slab_iter_view:
  assumes inv: "slab_inv mx s"
  shows "slab_iter mx s
       = List.map_filter (\<lambda>k. map_option (Pair k) (slab_view s k)) [0..<slab_capacity s]"
proof -
  have "concat (map (\<lambda>(ci, ch). map (\<lambda>(i, e). (ci * CHUNK_SIZE + i, e)) (enumerate 0 ch))
          (enumerate 0 (slab_entries s))) = map (\<lambda>i. (i, slab_flat s ! i)) [0..<slab_capacity s]"
    using concat_enumerate [of CHUNK_SIZE "slab_entries s" 0] inv
    by (simp add: slab_inv_def enumerate_upt slab_capacity_flat [OF inv] slab_flat_def)
  moreover have "from_index mx i = i" if "i < slab_capacity s" for i
    using that inv by (intro from_index_small) (auto simp: slab_inv_def slab_capacity_flat [OF inv])
  ultimately show ?thesis
    unfolding slab_iter_def
    by (auto simp: map_filter_map slab_view_def slab_capacity_flat [OF inv] split: entry.splits
        intro!: map_filter_cong)
qed

lemma map_filter_Pair_keys:
  "map fst (List.map_filter (\<lambda>k. map_option (Pair k) (m k)) ks) = filter (\<lambda>k. m k \<noteq> None) ks"
  by (induction ks) (auto simp: List.map_filter_simps split: option.splits)

lemma set_map_filter_Pair:
  "(k, v) \<in> set (List.map_filter (\<lambda>k. map_option (Pair k) (m k)) ks) \<longleftrightarrow> k \<in> set ks \<and> m k = Some v"
  by (induction ks) (auto simp: List.map_filter_simps split: option.splits)

subsection \<open>The contract of a keyed store\<close>

text \<open>
  What the registry of the scheduler and a timing group rely on: a finite map from keys that
  the store chooses. The lemmas of the block are the clients' view.
\<close>

locale keyed_store =
  fixes inv :: "'s \<Rightarrow> bool"
    and room :: "'s \<Rightarrow> bool"
    and view :: "'s \<Rightarrow> nat \<Rightarrow> 'a option"
    and ins :: "'a \<Rightarrow> ('s, nat) exec"
    and rem :: "nat \<Rightarrow> ('s, 'a option) exec"
    and lookup :: "nat \<Rightarrow> 's \<Rightarrow> 'a option"
    and size_of :: "'s \<Rightarrow> nat"
    and cap :: "'s \<Rightarrow> nat"
  assumes lookup_view: "inv s \<Longrightarrow> lookup k s = view s k"
    and ins_ok: "inv s \<Longrightarrow> room s \<Longrightarrow>
      \<exists>k t. ins v s = (Inr k, t) \<and> inv t \<and> view s k = None \<and> view t = (view s)(k \<mapsto> v) \<and> cap s \<le> cap t"
    and rem_ok: "inv s \<Longrightarrow>
      \<exists>t. rem k s = (Inr (view s k), t) \<and> inv t \<and> view t = (view s)(k := None) \<and> cap t = cap s"
    and size_view: "inv s \<Longrightarrow> size_of s = card (dom (view s))"
    and finite_view: "inv s \<Longrightarrow> finite (dom (view s))"
    and view_cap: "inv s \<Longrightarrow> view s k = Some v \<Longrightarrow> k < cap s"
begin

lemma ins_wp:
  assumes "inv s" and "room s"
    and "\<And>k t. inv t \<Longrightarrow> view s k = None \<Longrightarrow> view t = (view s)(k \<mapsto> v) \<Longrightarrow> cap s \<le> cap t \<Longrightarrow> Q k t"
  shows "wpx (ins v) Q E s"
  using ins_ok [OF assms(1,2), of v] assms(3) by (auto simp: wpx_def)

lemma rem_wp:
  assumes "inv s"
    and "\<And>t. inv t \<Longrightarrow> view t = (view s)(k := None) \<Longrightarrow> cap t = cap s \<Longrightarrow> Q (view s k) t"
  shows "wpx (rem k) Q E s"
  using rem_ok [OF assms(1), of k] assms(2) by (auto simp: wpx_def)

lemma ins_lookup:
  assumes "inv s" and "room s" and "ins v s = (Inr k, t)"
  shows "lookup k t = Some v" and "j \<noteq> k \<Longrightarrow> lookup j t = lookup j s"
  using ins_ok [OF assms(1,2), of v] assms by (auto simp: lookup_view)

lemma rem_lookup:
  assumes "inv s" and "rem k s = (r, t)"
  shows "r = Inr (lookup k s)" and "lookup k t = None" and "j \<noteq> k \<Longrightarrow> lookup j t = lookup j s"
  using rem_ok [OF assms(1), of k] assms by (auto simp: lookup_view)

lemma ins_size:
  assumes "inv s" and "room s" and "ins v s = (Inr k, t)"
  shows "size_of t = size_of s + 1"
  using ins_ok [OF assms(1,2), of v] assms finite_view [OF assms(1)]
  by (auto simp: size_view card_insert_if domIff)

lemma rem_size:
  assumes "inv s" and "rem k s = (Inr (Some v), t)"
  shows "size_of t + 1 = size_of s"
proof -
  have "inv t" and v: "view s k = Some v" and t: "dom (view t) = dom (view s) - {k}"
    using rem_ok [OF assms(1), of k] assms by auto
  moreover have "card (dom (view s)) = Suc (card (dom (view s) - {k}))"
    using v by (intro card.remove finite_view [OF assms(1)]) auto
  ultimately show ?thesis using assms(1) by (simp add: size_view)
qed

text \<open>Inserting and removing again restores the contents.\<close>

lemma ins_rem:
  assumes "inv s" and "room s" and "ins v s = (Inr k, t)" and "rem k t = (r, u)"
  shows "r = Inr (Some v) \<and> view u = view s"
proof -
  have t: "inv t" "view s k = None" "view t = (view s)(k \<mapsto> v)"
    using ins_ok [OF assms(1,2), of v] assms(3) by auto
  then show ?thesis using rem_ok [OF t(1), of k] assms(4) by auto
qed

end

interpretation slab: keyed_store "slab_inv mx" "slab_room mx" slab_view
    "slab_insert p mx" "slab_remove p" slab_get slab_len slab_capacity
  for p mx
proof unfold_locales
  fix s :: "'a chunk_slab" and k :: nat and v :: 'a
  assume inv: "slab_inv mx s"
  show "slab_get k s = slab_view s k" by (rule slab_get_view [OF inv])
  show "\<exists>k t. slab_insert p mx v s = (Inr k, t) \<and> slab_inv mx t \<and> slab_view s k = None
      \<and> slab_view t = (slab_view s)(k \<mapsto> v) \<and> slab_capacity s \<le> slab_capacity t" if "slab_room mx s"
    using slab_insert_ok [OF inv that, of p v] slab_insert_capacity [of p mx v s] by blast
  show "\<exists>t. slab_remove p k s = (Inr (slab_view s k), t) \<and> slab_inv mx t
      \<and> slab_view t = (slab_view s)(k := None) \<and> slab_capacity t = slab_capacity s"
    using slab_remove_ok [OF inv, of p k] slab_remove_capacity [of p k s] by blast
  show "slab_len s = card (dom (slab_view s))" by (rule slab_len_card [OF inv])
  show "k < slab_capacity s" if "slab_view s k = Some v" by (rule slab_view_capacity [OF inv that])
qed simp

end
