(* ===== verification/Dyn_Future.thy ===== *)
theory Dyn_Future
  imports Chunk_Slab
begin

text \<open>
  \<open>src/dy/stat.rs\<close>, \<open>src/dy/dyn_future.rs\<close> and the data types of \<open>src/dy/handle.rs\<close>: the stop
  reasons and states of a task, its name, the parameters it is spawned with, and the wrapper
  \<open>DynamicFuture\<close> the registry stores.

  The boxed future is a value of the type parameter \<open>'f\<close>; what polling it does is a parameter of
  the scheduler's model. The wrapper's \<open>Arc<InnerSyncFlags>\<close> is a reference: the model keeps the
  number of the allocation, and the scheduler's state holds the \<open>runnable\<close> flag of every
  allocation, since a waker can outlive the task it was made for.
\<close>

subsection \<open>Stop reasons and states\<close>

datatype stop_reason = SrNone | SrSuspended | SrCancelled

definition is_poll_allowed :: "stop_reason \<Rightarrow> bool" where
  "is_poll_allowed r = (r = SrNone)"

datatype task_state = Runnable | Suspended | Waiting | Cancelled | Inactive

subsection \<open>Names and spawn parameters\<close>

datatype task_name = Static string | Dynamic string | NoName

primrec as_str :: "task_name \<Rightarrow> string option" where
  "as_str (Static s) = Some s"
| "as_str (Dynamic s) = Some s"
| "as_str NoName = None"

record spawn_params =
  sp_suspended :: bool
  sp_name :: task_name

definition params_default :: spawn_params where
  "params_default = \<lparr>sp_suspended = False, sp_name = NoName\<rparr>"

definition params_suspend :: "bool \<Rightarrow> spawn_params \<Rightarrow> spawn_params" where
  "params_suspend v sp = sp\<lparr>sp_suspended := v\<rparr>"

definition params_name :: "string \<Rightarrow> spawn_params \<Rightarrow> spawn_params" where
  "params_name n sp = sp\<lparr>sp_name := Static n\<rparr>"

definition params_dyn_name :: "string \<Rightarrow> spawn_params \<Rightarrow> spawn_params" where
  "params_dyn_name n sp = sp\<lparr>sp_name := Dynamic n\<rparr>"

definition params_named :: "string \<Rightarrow> spawn_params" where
  "params_named n = params_name n params_default"

definition params_dyn_named :: "string \<Rightarrow> spawn_params" where
  "params_dyn_named n = params_dyn_name n params_default"

definition params_suspended :: "bool \<Rightarrow> spawn_params" where
  "params_suspended v = params_suspend v params_default"

text \<open>The three \<open>From\<close> instances, by which \<open>spawn\<close> accepts a string, an owned string or a flag.\<close>

datatype into_params = FromParams spawn_params | FromStr string | FromString string | FromBool bool

primrec params_from :: "into_params \<Rightarrow> spawn_params" where
  "params_from (FromParams sp) = sp"
| "params_from (FromStr s) = params_named s"
| "params_from (FromString s) = params_dyn_named s"
| "params_from (FromBool b) = params_suspended b"

subsection \<open>Dynamic futures\<close>

record 'f dynamic_future =
  df_future :: 'f
  df_flags :: nat
  df_name :: task_name
  df_stop_reason :: stop_reason
  df_polling :: bool

text \<open>\<open>DynamicFuture::new\<close>; \<open>flags\<close> is the allocation made by \<open>SyncFlags::new\<close>.\<close>

definition dynamic_future_new :: "'f \<Rightarrow> nat \<Rightarrow> spawn_params \<Rightarrow> 'f dynamic_future" where
  "dynamic_future_new fut flags sp =
     \<lparr>df_future = fut, df_flags = flags, df_name = sp_name sp,
      df_stop_reason = (if sp_suspended sp then SrSuspended else SrNone), df_polling = False\<rparr>"

text \<open>
  The allocations of \<open>InnerSyncFlags\<close>: the list of their \<open>runnable\<close> flags. A fresh allocation
  is runnable.
\<close>

definition sync_flags_new :: "bool list \<Rightarrow> nat \<times> bool list" where
  "sync_flags_new arcs = (length arcs, arcs @ [True])"

definition is_runnable :: "bool list \<Rightarrow> 'f dynamic_future \<Rightarrow> bool" where
  "is_runnable arcs t = (df_flags t < length arcs \<and> arcs ! df_flags t)"

definition set_runnable :: "nat \<Rightarrow> bool \<Rightarrow> bool list \<Rightarrow> bool list" where
  "set_runnable fid v arcs = arcs[fid := v]"

definition set_stop_reason :: "stop_reason \<Rightarrow> 'f dynamic_future \<Rightarrow> 'f dynamic_future" where
  "set_stop_reason r t = t\<lparr>df_stop_reason := r\<rparr>"

definition set_polling :: "bool \<Rightarrow> 'f dynamic_future \<Rightarrow> 'f dynamic_future" where
  "set_polling b t = t\<lparr>df_polling := b\<rparr>"

declare is_poll_allowed_def [run] params_default_def [run] params_suspend_def [run]
  params_name_def [run] params_named_def [run] params_suspended_def [run]
  dynamic_future_new_def [run] sync_flags_new_def [run] is_runnable_def [run]
  set_runnable_def [run] set_stop_reason_def [run] set_polling_def [run]

lemma set_stop_reason_simps [simp]:
  "df_stop_reason (set_stop_reason r t) = r" "df_flags (set_stop_reason r t) = df_flags t"
  "df_polling (set_stop_reason r t) = df_polling t" "df_name (set_stop_reason r t) = df_name t"
  "df_future (set_stop_reason r t) = df_future t"
  by (simp_all add: set_stop_reason_def)

lemma set_polling_simps [simp]:
  "df_stop_reason (set_polling b t) = df_stop_reason t" "df_flags (set_polling b t) = df_flags t"
  "df_polling (set_polling b t) = b" "df_name (set_polling b t) = df_name t"
  "df_future (set_polling b t) = df_future t"
  by (simp_all add: set_polling_def)

lemma dynamic_future_new_simps [simp]:
  "df_flags (dynamic_future_new f fid sp) = fid" "df_polling (dynamic_future_new f fid sp) = False"
  "df_future (dynamic_future_new f fid sp) = f" "df_name (dynamic_future_new f fid sp) = sp_name sp"
  "df_stop_reason (dynamic_future_new f fid sp) = (if sp_suspended sp then SrSuspended else SrNone)"
  by (simp_all add: dynamic_future_new_def)

lemma is_runnable_stop [simp]: "is_runnable arcs (set_stop_reason r t) = is_runnable arcs t"
  by (simp add: is_runnable_def)

subsection \<open>Identifiers\<close>

text \<open>
  \<open>IdNum\<close> holds a key plus one, so that it is never zero. For the key \<open>usize::MAX\<close> a release build
  would wrap to zero; no registry has such a key.
\<close>

definition id_from_usize :: "profile \<Rightarrow> nat \<Rightarrow> panic + nat" where
  "id_from_usize p v = usize_add p v 1"

definition id_to_usize :: "nat \<Rightarrow> nat" where
  "id_to_usize n = n - 1"

end
