(* ===== verification/Task_Registry.thy ===== *)
theory Task_Registry
  imports Dyn_Future
begin

text \<open>
  \<open>src/dy/registry.rs\<close>: the slab of tasks behind shared references. In debug builds the registry
  counts the references it has handed out and the iterators that are alive, and panics where an
  operation could invalidate one; in release builds there are no flags (they stay 0 here).

  The operations are state transformers; a reference is returned as the task's value, and the
  \<open>Drop\<close> of the reference is the explicit step \<open>borrow_drop\<close>. The contract of the trait
  \<open>TaskRegistry\<close> of \<open>src/dy/stat.rs\<close> is the locale \<open>task_registry\<close>, interpreted on the registry
  under both profiles.
\<close>

record 't registry =
  reg_slab :: "'t chunk_slab"
  reg_borrow_flag :: nat
  reg_iterate_flag :: nat

definition SENTINEL :: nat where
  "SENTINEL = usize_MAX"

definition wrapping_sub :: "nat \<Rightarrow> nat \<Rightarrow> nat" where
  "wrapping_sub a b = (a + (usize_MAX + 1 - b)) mod (usize_MAX + 1)"

definition registry_new :: "'t registry" where
  "registry_new = \<lparr>reg_slab = slab_new, reg_borrow_flag = 0, reg_iterate_flag = 0\<rparr>"

text \<open>The view of the registry: the task stored under a key.\<close>

definition reg_view :: "'t registry \<Rightarrow> nat \<Rightarrow> 't option" where
  "reg_view r = slab_view (reg_slab r)"

subsection \<open>References\<close>

definition registry_get :: "profile \<Rightarrow> nat \<Rightarrow> ('t registry, 't option) exec" where
  "registry_get p key r =
     (if p = Debug \<and> reg_borrow_flag r = SENTINEL then
        (Inl (Panic ''Registry: Cannot borrow task during retain operation.''), r)
      else
        case slab_get key (reg_slab r) of
          None \<Rightarrow> (Inr None, r)
        | Some task \<Rightarrow>
            (case p of
               Release \<Rightarrow> (Inr (Some task), r)
             | Debug \<Rightarrow>
                 (case usize_add p (reg_borrow_flag r) 1 of
                    Inl e \<Rightarrow> (Inl e, r)
                  | Inr b \<Rightarrow> (Inr (Some task), r\<lparr>reg_borrow_flag := b\<rparr>))))"

text \<open>
  \<open>Drop for BorrowRef\<close>. It also runs while unwinding, so it is a total function; the
  subtraction never wraps, because the flag counts the reference being dropped.
\<close>

definition borrow_drop :: "profile \<Rightarrow> 't registry \<Rightarrow> 't registry" where
  "borrow_drop p r =
     (case p of Debug \<Rightarrow> r\<lparr>reg_borrow_flag := wrapping_sub (reg_borrow_flag r) 1\<rparr> | Release \<Rightarrow> r)"

text \<open>A write to the cells of a task through a reference to it.\<close>

definition registry_modify :: "nat \<Rightarrow> ('t \<Rightarrow> 't) \<Rightarrow> 't registry \<Rightarrow> 't registry" where
  "registry_modify key f r = r\<lparr>reg_slab := snd (slab_get_mut key f (reg_slab r))\<rparr>"

subsection \<open>Insertion, removal, size\<close>

definition registry_insert :: "profile \<Rightarrow> 't \<Rightarrow> ('t registry, nat option) exec" where
  "registry_insert p val r =
     (if p = Debug \<and> reg_iterate_flag r \<noteq> 0 then
        (Inl (Panic (if reg_iterate_flag r = SENTINEL
                     then ''Registry: Cannot insert task during retain operation.''
                     else ''Registry: Cannot insert task during iteration.'')), r)
      else
        case slab_insert p usize_MAX val (reg_slab r) of
          (Inl e, sl) \<Rightarrow> (Inl e, r\<lparr>reg_slab := sl\<rparr>)
        | (Inr k, sl) \<Rightarrow> (Inr (Some k), r\<lparr>reg_slab := sl\<rparr>))"

definition registry_remove :: "profile \<Rightarrow> nat \<Rightarrow> ('t registry, unit option) exec" where
  "registry_remove p key r =
     (if p = Debug \<and> (reg_borrow_flag r \<noteq> 0 \<or> reg_iterate_flag r \<noteq> 0) then
        (Inl (Panic (if reg_borrow_flag r = SENTINEL
                     then ''Registry: Cannot remove task during retain operation.''
                     else ''Registry: Cannot remove task that might be borrowed.'')), r)
      else
        case slab_remove p key (reg_slab r) of
          (Inl e, sl) \<Rightarrow> (Inl e, r\<lparr>reg_slab := sl\<rparr>)
        | (Inr v, sl) \<Rightarrow> (Inr (map_option (\<lambda>_. ()) v), r\<lparr>reg_slab := sl\<rparr>))"

definition registry_count :: "'t registry \<Rightarrow> nat" where
  "registry_count r = slab_len (reg_slab r)"

definition registry_capacity :: "'t registry \<Rightarrow> nat" where
  "registry_capacity r = slab_capacity (reg_slab r)"

subsection \<open>Iteration and retain\<close>

text \<open>\<open>guarded_iterator\<close>: the pairs the iterator yields, and the flag it holds until it is dropped.\<close>

definition registry_iter :: "profile \<Rightarrow> ('t registry, (nat \<times> 't) list) exec" where
  "registry_iter p r =
     (case p of
        Release \<Rightarrow> (Inr (slab_iter usize_MAX (reg_slab r)), r)
      | Debug \<Rightarrow>
          if reg_iterate_flag r = SENTINEL then
            (Inl (Panic ''Registry: Cannot iterate during retain operation.''), r)
          else
            case usize_add p (reg_iterate_flag r) 1 of
              Inl e \<Rightarrow> (Inl e, r)
            | Inr n \<Rightarrow> (Inr (slab_iter usize_MAX (reg_slab r)), r\<lparr>reg_iterate_flag := n\<rparr>))"

definition iter_drop :: "profile \<Rightarrow> 't registry \<Rightarrow> 't registry" where
  "iter_drop p r =
     (case p of Debug \<Rightarrow> r\<lparr>reg_iterate_flag := wrapping_sub (reg_iterate_flag r) 1\<rparr> | Release \<Rightarrow> r)"

definition guard_retain :: "profile \<Rightarrow> ('t registry, unit) exec" where
  "guard_retain p r =
     (case p of
        Release \<Rightarrow> (Inr (), r)
      | Debug \<Rightarrow>
          if reg_borrow_flag r \<noteq> 0 \<or> reg_iterate_flag r \<noteq> 0 then
            (Inl (Panic ''Registry: Cannot remove tasks that might be borrowed.''), r)
          else (Inr (), r\<lparr>reg_borrow_flag := SENTINEL, reg_iterate_flag := SENTINEL\<rparr>))"

definition unguard_retain :: "profile \<Rightarrow> 't registry \<Rightarrow> 't registry" where
  "unguard_retain p r =
     (case p of Debug \<Rightarrow> r\<lparr>reg_borrow_flag := 0, reg_iterate_flag := 0\<rparr> | Release \<Rightarrow> r)"

definition registry_retain ::
  "profile \<Rightarrow> (nat \<Rightarrow> 't \<Rightarrow> 'c \<Rightarrow> bool \<times> 'c) \<Rightarrow> 'c \<Rightarrow> ('t registry, 'c) exec" where
  "registry_retain p func c =
     bind_exec (guard_retain p) (\<lambda>_.
       guard_exec
         (\<lambda>r. case slab_retain p usize_MAX func c (reg_slab r) of (x, sl) \<Rightarrow> (x, r\<lparr>reg_slab := sl\<rparr>))
         (unguard_retain p))"

declare SENTINEL_def [run] wrapping_sub_def [run] registry_new_def [run] registry_get_def [run]
  borrow_drop_def [run] registry_modify_def [run] registry_insert_def [run]
  registry_remove_def [run] registry_count_def [run] registry_capacity_def [run]
  registry_iter_def [run] iter_drop_def [run] guard_retain_def [run] unguard_retain_def [run]
  registry_retain_def [run]

subsection \<open>Invariant\<close>

text \<open>\<open>b\<close> references are alive and no iterator is.\<close>

definition reg_inv :: "profile \<Rightarrow> nat \<Rightarrow> 't registry \<Rightarrow> bool" where
  "reg_inv p b r \<longleftrightarrow>
     slab_inv usize_MAX (reg_slab r) \<and> reg_iterate_flag r = 0
     \<and> reg_borrow_flag r = (case p of Debug \<Rightarrow> b | Release \<Rightarrow> 0)"

text \<open>The only panic of an operation whose guards hold: the memory of the slab is exhausted.\<close>

definition out_of_memory :: "panic \<Rightarrow> bool" where
  "out_of_memory e \<longleftrightarrow> e = Panic ''capacity overflow''"

subsection \<open>The contract of \<open>TaskRegistry\<close>\<close>

text \<open>
  The operations of the trait, over the number \<open>b\<close> of references alive. A removal is only
  promised when there is none. \<open>fatal\<close> are the panics of a failed allocation.
\<close>

locale task_registry =
  fixes inv :: "nat \<Rightarrow> 'r \<Rightarrow> bool"
    and view :: "'r \<Rightarrow> nat \<Rightarrow> 't option"
    and get_ref :: "nat \<Rightarrow> ('r, 't option) exec"
    and drop_ref :: "'r \<Rightarrow> 'r"
    and modify :: "nat \<Rightarrow> ('t \<Rightarrow> 't) \<Rightarrow> 'r \<Rightarrow> 'r"
    and ins :: "'t \<Rightarrow> ('r, nat option) exec"
    and rem :: "nat \<Rightarrow> ('r, unit option) exec"
    and count :: "'r \<Rightarrow> nat"
    and cap :: "'r \<Rightarrow> nat"
    and fatal :: "panic \<Rightarrow> bool"
  assumes get_ok: "inv b r \<Longrightarrow> b < usize_MAX \<Longrightarrow>
      \<exists>r'. get_ref k r = (Inr (view r k), r') \<and> view r' = view r \<and> cap r' = cap r
         \<and> inv (if view r k = None then b else Suc b) r'"
    and drop_ok: "inv (Suc b) r \<Longrightarrow> b < usize_MAX \<Longrightarrow>
      inv b (drop_ref r) \<and> view (drop_ref r) = view r \<and> cap (drop_ref r) = cap r"
    and modify_ok: "inv b r \<Longrightarrow>
      inv b (modify k f r) \<and> view (modify k f r) = (view r)(k := map_option f (view r k))
      \<and> cap (modify k f r) = cap r"
    and ins_ok: "inv b r \<Longrightarrow>
      (\<exists>k r'. ins v r = (Inr (Some k), r') \<and> inv b r' \<and> view r k = None
         \<and> view r' = (view r)(k \<mapsto> v) \<and> cap r \<le> cap r')
      \<or> (\<exists>e r'. ins v r = (Inl e, r') \<and> fatal e)"
    and rem_ok: "inv 0 r \<Longrightarrow>
      \<exists>r'. rem k r = (Inr (map_option (\<lambda>_. ()) (view r k)), r') \<and> inv 0 r'
         \<and> view r' = (view r)(k := None) \<and> cap r' = cap r"
    and count_view: "inv b r \<Longrightarrow> count r = card (dom (view r))"
    and finite_view: "inv b r \<Longrightarrow> finite (dom (view r))"
    and view_cap: "inv b r \<Longrightarrow> view r k = Some t \<Longrightarrow> k < cap r"
    and cap_max: "inv b r \<Longrightarrow> cap r < usize_MAX"
begin

lemma count_bound:
  assumes "inv b r"
  shows "count r \<le> cap r"
proof -
  have "dom (view r) \<subseteq> {..<cap r}" using view_cap [OF assms] by auto
  then have "card (dom (view r)) \<le> card {..<cap r}" by (intro card_mono) auto
  then show ?thesis by (simp add: count_view [OF assms])
qed

lemma get_wp:
  assumes "inv b r" and "b < usize_MAX"
    and "\<And>r'. view r' = view r \<Longrightarrow> cap r' = cap r \<Longrightarrow>
           inv (if view r k = None then b else Suc b) r' \<Longrightarrow> Q (view r k) r'"
  shows "wpx (get_ref k) Q E r"
  using get_ok [OF assms(1,2), of k] assms(3) by (auto simp: wpx_def)

lemma ins_wp:
  assumes "inv b r"
    and "\<And>k r'. inv b r' \<Longrightarrow> view r k = None \<Longrightarrow> view r' = (view r)(k \<mapsto> v) \<Longrightarrow>
           cap r \<le> cap r' \<Longrightarrow> Q (Some k) r'"
    and "\<And>e r'. fatal e \<Longrightarrow> E e r'"
  shows "wpx (ins v) Q E r"
  using ins_ok [OF assms(1), of v] assms(2,3) by (auto simp: wpx_def)

lemma rem_wp:
  assumes "inv 0 r"
    and "\<And>r'. inv 0 r' \<Longrightarrow> view r' = (view r)(k := None) \<Longrightarrow> cap r' = cap r \<Longrightarrow>
           Q (map_option (\<lambda>_. ()) (view r k)) r'"
  shows "wpx (rem k) Q E r"
  using rem_ok [OF assms(1), of k] assms(2) by (auto simp: wpx_def)

text \<open>
  The pattern of the scheduler's loop: a task obtained from the registry is still there after
  its reference has been dropped, so the removal that follows succeeds.
\<close>

lemma get_drop_rem:
  assumes "inv 0 r" and "get_ref k r = (Inr (Some t), r')"
  shows "\<exists>r''. rem k (drop_ref r') = (Inr (Some ()), r'') \<and> inv 0 r'' \<and> view r'' = (view r)(k := None)"
proof -
  have r': "view r k = Some t" "view r' = view r" "inv (Suc 0) r'"
    using get_ok [OF assms(1), of k] assms(2) cap_max [OF assms(1)]
    by (auto dest: sym split: if_splits)
  then have "inv 0 (drop_ref r')" "view (drop_ref r') = view r"
    using drop_ok [of 0 r'] cap_max [OF assms(1)] by auto
  then show ?thesis using rem_ok [of "drop_ref r'" k] r'(1) by auto
qed

end

subsection \<open>The registry implements it\<close>

lemma wrapping_sub_Suc [simp]:
  assumes "Suc b \<le> usize_MAX"
  shows "wrapping_sub (Suc b) (Suc 0) = b"
proof -
  have "wrapping_sub (Suc b) (Suc 0) = (b + (usize_MAX + 1)) mod (usize_MAX + 1)"
    by (simp add: wrapping_sub_def)
  also have "\<dots> = b mod (usize_MAX + 1)" by (rule mod_add_self2)
  finally show ?thesis using assms by simp
qed

lemma slab_capacity_max: "slab_inv usize_MAX s \<Longrightarrow> slab_capacity s < usize_MAX"
  by (auto simp: slab_inv_def slab_capacity_def usize_MAX_def VEC_MAX_def CHUNK_SIZE_def)

interpretation reg: task_registry "reg_inv p" reg_view "registry_get p" "borrow_drop p"
    registry_modify "registry_insert p" "registry_remove p" registry_count registry_capacity
    out_of_memory
  for p
proof unfold_locales
  fix b k f and r :: "'t registry" and v :: 't
  assume inv: "reg_inv p b r"
  then have slab: "slab_inv usize_MAX (reg_slab r)" by (simp add: reg_inv_def)
  show "\<exists>r'. registry_get p k r = (Inr (reg_view r k), r') \<and> reg_view r' = reg_view r
      \<and> registry_capacity r' = registry_capacity r \<and> reg_inv p (if reg_view r k = None then b else Suc b) r'"
    if "b < usize_MAX"
    using inv that slab_get_view [OF slab, of k]
    by (cases p; cases "slab_view (reg_slab r) k")
       (auto simp: registry_get_def reg_inv_def reg_view_def SENTINEL_def registry_capacity_def)
  show "reg_inv p b (registry_modify k f r)
      \<and> reg_view (registry_modify k f r) = (reg_view r)(k := map_option f (reg_view r k))
      \<and> registry_capacity (registry_modify k f r) = registry_capacity r"
    using inv slab_get_mut_ok [OF slab, of k f]
    by (auto simp: registry_modify_def reg_inv_def reg_view_def registry_capacity_def)
  show "(\<exists>k r'. registry_insert p v r = (Inr (Some k), r') \<and> reg_inv p b r' \<and> reg_view r k = None
         \<and> reg_view r' = (reg_view r)(k \<mapsto> v) \<and> registry_capacity r \<le> registry_capacity r')
      \<or> (\<exists>e r'. registry_insert p v r = (Inl e, r') \<and> out_of_memory e)"
  proof (cases "slab_room usize_MAX (reg_slab r)")
    case True
    then show ?thesis
      using inv slab.ins_ok [OF slab True, of p v]
      by (fastforce simp: registry_insert_def reg_inv_def reg_view_def registry_capacity_def)
  next
    case False
    then show ?thesis
      using inv slab_insert_full_usize [OF slab False, of p v]
      by (auto simp: registry_insert_def reg_inv_def out_of_memory_def)
  qed
  show "registry_count r = card (dom (reg_view r))" "finite (dom (reg_view r))"
    by (simp_all add: registry_count_def reg_view_def slab_len_card [OF slab])
  show "registry_capacity r < usize_MAX"
    by (simp add: registry_capacity_def slab_capacity_max [OF slab])
  show "k < registry_capacity r" if "reg_view r k = Some v"
    using slab_view_capacity [OF slab] that by (simp add: registry_capacity_def reg_view_def)
next
  fix b and r :: "'t registry"
  assume "reg_inv p (Suc b) r" and "b < usize_MAX"
  then show "reg_inv p b (borrow_drop p r) \<and> reg_view (borrow_drop p r) = reg_view r
      \<and> registry_capacity (borrow_drop p r) = registry_capacity r"
    by (cases p) (auto simp: borrow_drop_def reg_inv_def reg_view_def registry_capacity_def)
next
  fix k and r :: "'t registry"
  assume "reg_inv p 0 r"
  then show "\<exists>r'. registry_remove p k r = (Inr (map_option (\<lambda>_. ()) (reg_view r k)), r')
      \<and> reg_inv p 0 r' \<and> reg_view r' = (reg_view r)(k := None) \<and> registry_capacity r' = registry_capacity r"
    using slab.rem_ok [of usize_MAX "reg_slab r" p k]
    by (cases p) (fastforce simp: registry_remove_def reg_inv_def reg_view_def registry_capacity_def)+
qed

end
