(* ===== verification/Unordered_Algorithm.thy ===== *)
theory Unordered_Algorithm
  imports Task_Registry
begin

text \<open>
  \<open>src/dy/unordered_algorithm.rs\<close>, the scheduler behind \<open>Wheel\<close> (\<open>Algorithm\<close> in \<open>src/dy/mod.rs\<close>),
  with the polling of a task (\<open>DynamicFuture::poll_local\<close>), the wakers of its tasks
  (\<open>InnerSyncFlags\<close>) and the registry of the outer waker (\<open>AtomicWakerRegistry\<close> of
  \<open>src/utils/mod.rs\<close>).

  The state is one record. Besides the fields of \<open>UnorderedAlgorithm\<close> it has what its references
  point to (the \<open>runnable\<close> flags of the tasks' wakers), what the outside observes (the outer
  wakers that were woken), the world \<open>'u\<close> that the bodies of the tasks share, the wakes that other
  threads deliver while the scheduler runs, and the history of the polls, which no operation reads.

  The code of a task is a parameter: \<open>body f w u\<close> is what one poll of the future \<open>f\<close> does when it is
  polled with waker \<open>w\<close> in world \<open>u\<close>, a tree of calls into the scheduler that ends by returning
  \<open>Ready\<close>, returning \<open>Pending\<close> with the future's next state, or panicking.
\<close>

subsection \<open>State\<close>

record ('f, 'u) alg =
  registry :: "'f dynamic_future registry"
  last_waker :: "nat option"
  current :: "nat option"
  suspended_count :: nat
  arcs :: "bool list"
  woken :: "nat list"
  user :: 'u
  external :: "nat list list"
  polled :: "nat list"

abbreviation task_at :: "('f, 'u) alg \<Rightarrow> nat \<Rightarrow> 'f dynamic_future option" where
  "task_at s \<equiv> reg_view (registry s)"

definition alg_with :: "'f dynamic_future registry \<Rightarrow> 'u \<Rightarrow> nat list list \<Rightarrow> ('f, 'u) alg" where
  "alg_with r u ext =
     \<lparr>registry = r, last_waker = None, current = None, suspended_count = 0, arcs = [], woken = [],
      user = u, external = ext, polled = []\<rparr>"

definition alg_new :: "'u \<Rightarrow> nat list list \<Rightarrow> ('f, 'u) alg" where
  "alg_new u ext = alg_with registry_new u ext"

subsection \<open>The outer waker\<close>

text \<open>
  \<open>AtomicWakerRegistry\<close>: every operation is one \<open>swap\<close> of the cell's content, which the model
  takes as one step. A waker is a number; waking it appends the number to the history.
\<close>

definition waker_register :: "nat \<Rightarrow> ('f, 'u) alg \<Rightarrow> bool \<times> ('f, 'u) alg" where
  "waker_register w s = (last_waker s = None, s\<lparr>last_waker := Some w\<rparr>)"

definition waker_clear :: "('f, 'u) alg \<Rightarrow> bool \<times> ('f, 'u) alg" where
  "waker_clear s = (last_waker s \<noteq> None, s\<lparr>last_waker := None\<rparr>)"

definition notify_wake :: "('f, 'u) alg \<Rightarrow> bool \<times> ('f, 'u) alg" where
  "notify_wake s =
     (case last_waker s of
        Some w \<Rightarrow> (True, s\<lparr>last_waker := None, woken := woken s @ [w]\<rparr>)
      | None \<Rightarrow> (False, s\<lparr>last_waker := None\<rparr>))"

text \<open>\<open>DynamicWake for InnerSyncFlags\<close>: the waker of the allocation \<open>fid\<close>.\<close>

definition wake :: "nat \<Rightarrow> ('f, 'u) alg \<Rightarrow> ('f, 'u) alg" where
  "wake fid s =
     (let s1 = snd (notify_wake s) in s1\<lparr>arcs := set_runnable fid True (arcs s1)\<rparr>)"

text \<open>
  The wakes other threads deliver since the last such point: before the scheduler looks at a
  slot, before it registers the outer waker, and before it decides what to return.
\<close>

definition deliver :: "('f, 'u) alg \<Rightarrow> ('f, 'u) alg" where
  "deliver s =
     (case external s of
        [] \<Rightarrow> s
      | ws # rest \<Rightarrow> fold wake ws (s\<lparr>external := rest\<rparr>))"

subsection \<open>Access to the registry\<close>

definition on_registry :: "('f dynamic_future registry, 'a) exec \<Rightarrow> (('f, 'u) alg, 'a) exec" where
  "on_registry m s = (case m (registry s) of (x, r) \<Rightarrow> (x, s\<lparr>registry := r\<rparr>))"

definition drop_ref :: "profile \<Rightarrow> ('f, 'u) alg \<Rightarrow> ('f, 'u) alg" where
  "drop_ref p s = s\<lparr>registry := borrow_drop p (registry s)\<rparr>"

definition modify_task ::
  "nat \<Rightarrow> ('f dynamic_future \<Rightarrow> 'f dynamic_future) \<Rightarrow> ('f, 'u) alg \<Rightarrow> ('f, 'u) alg" where
  "modify_task key f s = s\<lparr>registry := registry_modify key f (registry s)\<rparr>"

text \<open>\<open>match self.registry.get(key)\<close>: the reference lives until the end of the \<open>match\<close>.\<close>

definition with_ref ::
  "profile \<Rightarrow> nat \<Rightarrow> ('f dynamic_future option \<Rightarrow> (('f, 'u) alg, 'a) exec) \<Rightarrow> (('f, 'u) alg, 'a) exec"
where
  "with_ref p key m =
     bind_exec (on_registry (registry_get p key)) (\<lambda>t.
       case t of None \<Rightarrow> m None | Some task \<Rightarrow> guard_exec (m (Some task)) (drop_ref p))"

subsection \<open>The operations of the handle\<close>

definition get_current :: "('f, 'u) alg \<Rightarrow> nat option" where
  "get_current s = current s"

definition inc_suspended :: "profile \<Rightarrow> (('f, 'u) alg, unit) exec" where
  "inc_suspended p =
     bind_exec (gets_exec suspended_count) (\<lambda>c.
     bind_exec (lift_exec (usize_add p c 1)) (\<lambda>c'.
     modify_exec (\<lambda>s. s\<lparr>suspended_count := c'\<rparr>)))"

definition dec_suspended :: "profile \<Rightarrow> (('f, 'u) alg, unit) exec" where
  "dec_suspended p =
     bind_exec (gets_exec suspended_count) (\<lambda>c.
     bind_exec (lift_exec (usize_sub p c 1)) (\<lambda>c'.
     modify_exec (\<lambda>s. s\<lparr>suspended_count := c'\<rparr>)))"

definition register :: "profile \<Rightarrow> 'f dynamic_future \<Rightarrow> (('f, 'u) alg, nat option) exec" where
  "register p dynamic =
     bind_exec (on_registry (registry_insert p dynamic)) (\<lambda>key.
       if df_stop_reason dynamic = SrSuspended \<and> key \<noteq> None then
         bind_exec (inc_suspended p) (\<lambda>_. return_exec key)
       else return_exec key)"

definition resume :: "profile \<Rightarrow> nat \<Rightarrow> (('f, 'u) alg, bool) exec" where
  "resume p key = with_ref p key (\<lambda>t. case t of
       Some task \<Rightarrow>
         if df_stop_reason task = SrSuspended then
           bind_exec (modify_exec (modify_task key (set_stop_reason SrNone))) (\<lambda>_.
           bind_exec (dec_suspended p) (\<lambda>_. return_exec True))
         else return_exec False
     | None \<Rightarrow> return_exec False)"

definition suspend :: "profile \<Rightarrow> nat \<Rightarrow> (('f, 'u) alg, bool) exec" where
  "suspend p key = with_ref p key (\<lambda>t. case t of
       Some task \<Rightarrow>
         if df_stop_reason task = SrNone then
           bind_exec (modify_exec (modify_task key (set_stop_reason SrSuspended))) (\<lambda>_.
           bind_exec (inc_suspended p) (\<lambda>_. return_exec True))
         else return_exec False
     | None \<Rightarrow> return_exec False)"

definition cancel :: "profile \<Rightarrow> nat \<Rightarrow> (('f, 'u) alg, bool) exec" where
  "cancel p key = with_ref p key (\<lambda>t. case t of
       Some task \<Rightarrow>
         let r = df_stop_reason task in
         if r \<noteq> SrCancelled then
           bind_exec (modify_exec (modify_task key (set_stop_reason SrCancelled))) (\<lambda>_.
           bind_exec (if r = SrSuspended then dec_suspended p else return_exec ()) (\<lambda>_.
           return_exec True))
         else return_exec False
     | None \<Rightarrow> return_exec False)"

definition state_of :: "bool list \<Rightarrow> 'f dynamic_future option \<Rightarrow> task_state" where
  "state_of arc t =
     (case t of
        Some task \<Rightarrow>
          (case df_stop_reason task of
             SrCancelled \<Rightarrow> Cancelled
           | SrSuspended \<Rightarrow> Suspended
           | SrNone \<Rightarrow> if is_runnable arc task then Runnable else Waiting)
      | None \<Rightarrow> Inactive)"

definition get_state :: "profile \<Rightarrow> nat \<Rightarrow> (('f, 'u) alg, task_state) exec" where
  "get_state p key = with_ref p key (\<lambda>t. gets_exec (\<lambda>s. state_of (arcs s) t))"

primrec get_by_name_loop :: "profile \<Rightarrow> string \<Rightarrow> nat list \<Rightarrow> (('f, 'u) alg, nat option) exec" where
  "get_by_name_loop p name [] = return_exec None"
| "get_by_name_loop p name (k # ks) =
     bind_exec
       (with_ref p k (\<lambda>t. case t of
          Some v \<Rightarrow> return_exec (as_str (df_name v) = Some name)
        | None \<Rightarrow> return_exec False))
       (\<lambda>found. if found then return_exec (Some k) else get_by_name_loop p name ks)"

definition get_by_name :: "profile \<Rightarrow> string \<Rightarrow> (('f, 'u) alg, nat option) exec" where
  "get_by_name p name =
     bind_exec (gets_exec (\<lambda>s. registry_capacity (registry s))) (\<lambda>cap.
     get_by_name_loop p name [0..<cap])"

definition registered_count :: "('f, 'u) alg \<Rightarrow> nat" where
  "registered_count s = registry_count (registry s)"

definition with_name :: "profile \<Rightarrow> nat \<Rightarrow> (task_name \<Rightarrow> 'b) \<Rightarrow> (('f, 'u) alg, 'b) exec" where
  "with_name p key func = with_ref p key (\<lambda>t. case t of
       Some task \<Rightarrow> return_exec (func (df_name task))
     | None \<Rightarrow> return_exec (func NoName))"

text \<open>\<open>spawn_dyn\<close> on a live scheduler: allocate the flags, wrap the future, register it.\<close>

definition spawn_task :: "profile \<Rightarrow> spawn_params \<Rightarrow> 'f \<Rightarrow> (('f, 'u) alg, nat option) exec" where
  "spawn_task p sp fut =
     bind_exec (gets_exec (\<lambda>s. sync_flags_new (arcs s))) (\<lambda>(fid, arc).
     bind_exec (modify_exec (\<lambda>s. s\<lparr>arcs := arc\<rparr>)) (\<lambda>_.
     register p (dynamic_future_new fut fid sp)))"

subsection \<open>The code of a task\<close>

datatype 'f hcall =
    CallSpawn spawn_params 'f
  | CallCancel nat
  | CallSuspend nat
  | CallResume nat
  | CallGetState nat
  | CallCurrent
  | CallGetName nat
  | CallGetByName string
  | CallCount
  | CallWake nat

datatype reply = RKey "nat option" | RBool bool | RState task_state | RName task_name | RCount nat | RUnit

datatype ('f, 'u) prog =
    PReady 'u
  | PPending 'f 'u
  | PPanic 'u
  | PCall "'f hcall" "reply \<Rightarrow> ('f, 'u) prog"

type_synonym ('f, 'u) body = "'f \<Rightarrow> nat \<Rightarrow> 'u \<Rightarrow> ('f, 'u) prog"

fun exec_call :: "profile \<Rightarrow> 'f hcall \<Rightarrow> (('f, 'u) alg, reply) exec" where
  "exec_call p (CallSpawn sp fut) = bind_exec (spawn_task p sp fut) (\<lambda>k. return_exec (RKey k))"
| "exec_call p (CallCancel k) = bind_exec (cancel p k) (\<lambda>b. return_exec (RBool b))"
| "exec_call p (CallSuspend k) = bind_exec (suspend p k) (\<lambda>b. return_exec (RBool b))"
| "exec_call p (CallResume k) = bind_exec (resume p k) (\<lambda>b. return_exec (RBool b))"
| "exec_call p (CallGetState k) = bind_exec (get_state p k) (\<lambda>b. return_exec (RState b))"
| "exec_call p CallCurrent = gets_exec (\<lambda>s. RKey (get_current s))"
| "exec_call p (CallGetName k) = bind_exec (with_name p k (\<lambda>n. n)) (\<lambda>n. return_exec (RName n))"
| "exec_call p (CallGetByName n) = bind_exec (get_by_name p n) (\<lambda>k. return_exec (RKey k))"
| "exec_call p CallCount = gets_exec (\<lambda>s. RCount (registered_count s))"
| "exec_call p (CallWake w) = bind_exec (modify_exec (wake w)) (\<lambda>_. return_exec RUnit)"

text \<open>Running the code of one poll: \<open>None\<close> is \<open>Ready\<close>, \<open>Some f\<close> is \<open>Pending\<close> with the next future.\<close>

primrec run_prog :: "profile \<Rightarrow> ('f, 'u) prog \<Rightarrow> (('f, 'u) alg, 'f option) exec" where
  "run_prog p (PReady u) = bind_exec (modify_exec (\<lambda>s. s\<lparr>user := u\<rparr>)) (\<lambda>_. return_exec None)"
| "run_prog p (PPending f u) =
     bind_exec (modify_exec (\<lambda>s. s\<lparr>user := u\<rparr>)) (\<lambda>_. return_exec (Some f))"
| "run_prog p (PPanic u) = bind_exec (modify_exec (\<lambda>s. s\<lparr>user := u\<rparr>)) (\<lambda>_. panic_exec UserPanic)"
| "run_prog p (PCall c k) = bind_exec (exec_call p c) (\<lambda>r. run_prog p (k r))"

subsection \<open>Polling\<close>

text \<open>\<open>DynamicFuture::poll_local\<close> of the task \<open>key\<close>, to which the caller holds the reference \<open>task\<close>.\<close>

definition poll_local ::
  "profile \<Rightarrow> ('f, 'u) body \<Rightarrow> nat \<Rightarrow> 'f dynamic_future \<Rightarrow> (('f, 'u) alg, unit poll) exec" where
  "poll_local p body key task =
     bind_exec (modify_exec (modify_task key (set_polling True))) (\<lambda>_.
       if df_polling task then
         panic_exec (Panic ''Recursive call to DynamicFuture::poll_local is not allowed.'')
       else
         guard_exec
           (bind_exec (modify_exec (\<lambda>s. s\<lparr>arcs := set_runnable (df_flags task) False (arcs s)\<rparr>)) (\<lambda>_.
            bind_exec (gets_exec user) (\<lambda>u.
            bind_exec (run_prog p (body (df_future task) (df_flags task) u)) (\<lambda>res.
            case res of
              None \<Rightarrow> return_exec (Ready ())
            | Some f \<Rightarrow>
                bind_exec (modify_exec (modify_task key (\<lambda>t. t\<lparr>df_future := f\<rparr>))) (\<lambda>_.
                return_exec Pending)))))
           (modify_task key (set_polling False)))"

text \<open>\<open>self.registry.remove(run_key).expect(..)\<close>\<close>

definition remove_task :: "profile \<Rightarrow> nat \<Rightarrow> (('f, 'u) alg, unit) exec" where
  "remove_task p key =
     bind_exec (on_registry (registry_remove p key)) (expect_exec ''Internal Error: task not found.'')"

text \<open>The polling of a runnable task in the body of the loop; the result is \<open>is_ready\<close>.\<close>

definition poll_task ::
  "profile \<Rightarrow> ('f, 'u) body \<Rightarrow> nat \<Rightarrow> 'f dynamic_future \<Rightarrow> (('f, 'u) alg, bool) exec" where
  "poll_task p body key task =
     bind_exec (modify_exec (\<lambda>s. s\<lparr>current := Some key, polled := polled s @ [key]\<rparr>)) (\<lambda>_.
     guard_exec
       (guard_exec
          (bind_exec (poll_local p body key task) (\<lambda>res. return_exec (res = Ready ())))
          (\<lambda>s. s\<lparr>current := None\<rparr>))
       (drop_ref p))"

text \<open>One iteration of the loop of \<open>beat_once\<close>, at slot \<open>key\<close>.\<close>

definition beat_slot :: "profile \<Rightarrow> ('f, 'u) body \<Rightarrow> nat \<Rightarrow> bool \<Rightarrow> (('f, 'u) alg, bool) exec" where
  "beat_slot p body key any_poll =
     bind_exec (modify_exec deliver) (\<lambda>_.
     bind_exec (on_registry (registry_get p key)) (\<lambda>t.
     case t of
       None \<Rightarrow> return_exec any_poll
     | Some run_task \<Rightarrow>
         let reason = df_stop_reason run_task in
         if \<not> is_poll_allowed reason then
           bind_exec (modify_exec (drop_ref p)) (\<lambda>_.
           if reason = SrCancelled then bind_exec (remove_task p key) (\<lambda>_. return_exec any_poll)
           else return_exec any_poll)
         else
           bind_exec (gets_exec (\<lambda>s. is_runnable (arcs s) run_task)) (\<lambda>runnable.
           if \<not> runnable then bind_exec (modify_exec (drop_ref p)) (\<lambda>_. return_exec any_poll)
           else
             bind_exec (poll_task p body key run_task) (\<lambda>is_ready.
             if is_ready then bind_exec (remove_task p key) (\<lambda>_. return_exec True)
             else return_exec True))))"

primrec beat_loop ::
  "profile \<Rightarrow> ('f, 'u) body \<Rightarrow> nat list \<Rightarrow> bool \<Rightarrow> (('f, 'u) alg, bool) exec" where
  "beat_loop p body [] any_poll = return_exec any_poll"
| "beat_loop p body (k # ks) any_poll =
     bind_exec (beat_slot p body k any_poll) (\<lambda>any. beat_loop p body ks any)"

definition beat_once :: "profile \<Rightarrow> ('f, 'u) body \<Rightarrow> (('f, 'u) alg, bool) exec" where
  "beat_once p body =
     bind_exec (gets_exec (\<lambda>s. registry_capacity (registry s))) (\<lambda>cap.
     beat_loop p body [0..<cap] False)"

text \<open>
  One iteration of the loop of \<open>poll_internal\<close>: \<open>Some\<close> the value it returns, or \<open>None\<close> to go on.
\<close>

definition poll_iter :: "profile \<Rightarrow> ('f, 'u) body \<Rightarrow> nat \<Rightarrow> (('f, 'u) alg, bool poll option) exec" where
  "poll_iter p body waker =
     bind_exec (beat_once p body) (\<lambda>any.
     if any then return_exec None
     else
       bind_exec (modify_exec (\<lambda>s. snd (waker_register waker (deliver s)))) (\<lambda>_.
       bind_exec (beat_once p body) (\<lambda>any'.
       bind_exec (modify_exec deliver) (\<lambda>_.
       if \<not> any' then
         bind_exec (gets_exec (\<lambda>s. (registered_count s, suspended_count s))) (\<lambda>(cnt, sus).
         if cnt = 0 \<or> cnt = sus then
           bind_exec (modify_exec (\<lambda>s. snd (waker_clear s))) (\<lambda>_. return_exec (Some (Ready (cnt = 0))))
         else return_exec (Some Pending))
       else
         bind_exec (modify_exec (\<lambda>s. snd (waker_clear s))) (\<lambda>_. return_exec None)))))"

text \<open>The loop itself, with at most \<open>n\<close> iterations; \<open>None\<close> when they are used up.\<close>

primrec poll_loop ::
  "profile \<Rightarrow> ('f, 'u) body \<Rightarrow> nat \<Rightarrow> nat \<Rightarrow> ('f, 'u) alg \<Rightarrow> ((panic + bool poll) \<times> ('f, 'u) alg) option"
where
  "poll_loop p body waker 0 s = None"
| "poll_loop p body waker (Suc n) s =
     (case poll_iter p body waker s of
        (Inl e, s') \<Rightarrow> Some (Inl e, s')
      | (Inr (Some r), s') \<Rightarrow> Some (Inr r, s')
      | (Inr None, s') \<Rightarrow> poll_loop p body waker n s')"

definition poll_internal ::
  "profile \<Rightarrow> ('f, 'u) body \<Rightarrow> nat \<Rightarrow> nat \<Rightarrow> ('f, 'u) alg \<Rightarrow> ((panic + bool poll) \<times> ('f, 'u) alg) option"
where
  "poll_internal p body waker n s = poll_loop p body waker n (snd (waker_clear s))"

declare alg_new_def [run] alg_with_def [run] waker_register_def [run] waker_clear_def [run]
  notify_wake_def [run] wake_def [run] deliver_def [run] on_registry_def [run] drop_ref_def [run]
  modify_task_def [run] with_ref_def [run] get_current_def [run] inc_suspended_def [run]
  dec_suspended_def [run] register_def [run] resume_def [run] suspend_def [run] cancel_def [run]
  state_of_def [run] get_state_def [run] get_by_name_def [run] registered_count_def [run]
  with_name_def [run] spawn_task_def [run] poll_local_def [run] remove_task_def [run]
  poll_task_def [run] beat_slot_def [run] beat_once_def [run] poll_iter_def [run]
  poll_internal_def [run]

lemma poll_loop_numeral [run]:
  "poll_loop p body waker (numeral n) s =
     (case poll_iter p body waker s of
        (Inl e, s') \<Rightarrow> Some (Inl e, s')
      | (Inr (Some r), s') \<Rightarrow> Some (Inr r, s')
      | (Inr None, s') \<Rightarrow> poll_loop p body waker (pred_numeral n) s')"
  by (simp add: numeral_eq_Suc)

subsection \<open>The invariant\<close>

text \<open>
  \<open>b\<close> references into the registry are alive, \<open>c\<close> is the current task and \<open>q\<close> the task that is
  being polled. The wakers of the stored tasks are distinct live allocations, only the polled
  task has its \<open>polling\<close> flag set, and (where the arithmetic is checked) the suspended tasks are
  all counted. The count may exceed their number: see \<open>suspended_count_leak\<close>.
\<close>

definition suspended_keys :: "('f, 'u) alg \<Rightarrow> nat set" where
  "suspended_keys s = {k. \<exists>t. task_at s k = Some t \<and> df_stop_reason t = SrSuspended}"

definition flags_ok :: "('f, 'u) alg \<Rightarrow> bool" where
  "flags_ok s \<longleftrightarrow>
     (\<forall>k t. task_at s k = Some t \<longrightarrow> df_flags t < length (arcs s))
     \<and> (\<forall>k k' t t'. task_at s k = Some t \<longrightarrow> task_at s k' = Some t' \<longrightarrow> df_flags t = df_flags t' \<longrightarrow> k = k')"

definition alg_inv :: "profile \<Rightarrow> nat \<Rightarrow> nat option \<Rightarrow> nat option \<Rightarrow> ('f, 'u) alg \<Rightarrow> bool" where
  "alg_inv p b c q s \<longleftrightarrow>
     reg_inv p b (registry s) \<and> current s = c \<and> flags_ok s
     \<and> (\<forall>k t. task_at s k = Some t \<longrightarrow> df_polling t = (q = Some k))
     \<and> (\<forall>k. q = Some k \<longrightarrow> task_at s k \<noteq> None)
     \<and> (p = Debug \<longrightarrow> card (suspended_keys s) \<le> suspended_count s)"

abbreviation alg_idle :: "profile \<Rightarrow> ('f, 'u) alg \<Rightarrow> bool" where
  "alg_idle p \<equiv> alg_inv p 0 None None"

lemma task_at_new [simp]: "reg_view registry_new = Map.empty"
  by (simp add: reg_view_def registry_new_def)

lemma alg_new_idle: "alg_idle p (alg_new u ext)"
  by (auto simp: alg_inv_def alg_new_def alg_with_def flags_ok_def suspended_keys_def reg_inv_def
      registry_new_def slab_inv_new key_types_def reg_view_def split: profile.splits)

lemma suspended_keys_dom: "suspended_keys s \<subseteq> dom (task_at s)"
  by (auto simp: suspended_keys_def)

lemma alg_inv_finite: "alg_inv p b c q s \<Longrightarrow> finite (suspended_keys s)"
  using suspended_keys_dom reg.finite_view by (metis alg_inv_def finite_subset)

lemma suspended_bound:
  assumes "alg_inv p b c q s"
  shows "card (suspended_keys s) < usize_MAX"
proof -
  have r: "reg_inv p b (registry s)" using assms by (simp add: alg_inv_def)
  have "card (suspended_keys s) \<le> card (dom (task_at s))"
    by (intro card_mono reg.finite_view [OF r] suspended_keys_dom)
  also have "\<dots> \<le> registry_capacity (registry s)"
    using reg.count_bound [OF r] by (simp add: reg.count_view [OF r])
  also have "\<dots> < usize_MAX" by (rule reg.cap_max [OF r])
  finally show ?thesis .
qed

subsection \<open>References and writes\<close>

definition add_ref :: "profile \<Rightarrow> ('f, 'u) alg \<Rightarrow> ('f, 'u) alg" where
  "add_ref p s = (case p of
       Debug \<Rightarrow> s\<lparr>registry := (registry s)\<lparr>reg_borrow_flag := Suc (reg_borrow_flag (registry s))\<rparr>\<rparr>
     | Release \<Rightarrow> s)"

lemma add_ref_inv: "alg_inv p b c q s \<Longrightarrow> alg_inv p (Suc b) c q (add_ref p s)"
  by (cases p) (auto simp: alg_inv_def add_ref_def reg_inv_def flags_ok_def suspended_keys_def reg_view_def)

lemma drop_ref_inv: "alg_inv p (Suc b) c q s \<Longrightarrow> b < usize_MAX \<Longrightarrow> alg_inv p b c q (drop_ref p s)"
  using reg.drop_ok [of p b "registry s"]
  by (auto simp: alg_inv_def drop_ref_def flags_ok_def suspended_keys_def)

lemma get_ref_eq:
  assumes "alg_inv p b c q s" and "b < usize_MAX"
  shows "on_registry (registry_get p k) s
       = (Inr (task_at s k), if task_at s k = None then s else add_ref p s)"
proof -
  have slab: "slab_inv usize_MAX (reg_slab (registry s))"
    using assms by (simp add: alg_inv_def reg_inv_def)
  show ?thesis
    using assms slab_get_view [OF slab, of k]
    by (cases p; cases "task_at s k")
       (auto simp: on_registry_def registry_get_def add_ref_def alg_inv_def reg_inv_def
         SENTINEL_def reg_view_def)
qed

lemma drop_add_ref [simp]:
  assumes "alg_inv p b c q s" and "b < usize_MAX"
  shows "drop_ref p (add_ref p s) = s"
    and "drop_ref p (modify_task k f (add_ref p s)) = modify_task k f s"
    and "drop_ref p ((modify_task k f (add_ref p s))\<lparr>suspended_count := n\<rparr>)
       = (modify_task k f s)\<lparr>suspended_count := n\<rparr>"
  using assms
  by (cases p; simp add: drop_ref_def add_ref_def borrow_drop_def modify_task_def
      registry_modify_def alg_inv_def reg_inv_def)+

lemma add_ref_fields [simp]:
  "arcs (add_ref p s) = arcs s" "suspended_count (add_ref p s) = suspended_count s"
  "user (add_ref p s) = user s" "current (add_ref p s) = current s"
  "polled (add_ref p s) = polled s" "last_waker (add_ref p s) = last_waker s"
  "task_at (add_ref p s) = task_at s" "woken (add_ref p s) = woken s"
  by (cases p; simp add: add_ref_def reg_view_def)+

lemma drop_ref_fields [simp]:
  "arcs (drop_ref p s) = arcs s" "suspended_count (drop_ref p s) = suspended_count s"
  "user (drop_ref p s) = user s" "current (drop_ref p s) = current s"
  "polled (drop_ref p s) = polled s" "last_waker (drop_ref p s) = last_waker s"
  "task_at (drop_ref p s) = task_at s" "woken (drop_ref p s) = woken s"
  by (cases p; simp add: drop_ref_def borrow_drop_def reg_view_def)+

lemma modify_task_fields [simp]:
  "arcs (modify_task k f s) = arcs s" "suspended_count (modify_task k f s) = suspended_count s"
  "user (modify_task k f s) = user s" "current (modify_task k f s) = current s"
  "polled (modify_task k f s) = polled s" "last_waker (modify_task k f s) = last_waker s"
  "woken (modify_task k f s) = woken s"
  by (simp_all add: modify_task_def)

lemma with_ref_eq:
  assumes "alg_inv p b c q s" and "b < usize_MAX"
  shows "with_ref p k m s =
     (case task_at s k of
        None \<Rightarrow> m None s
      | Some t \<Rightarrow> guard_exec (m (Some t)) (drop_ref p) (add_ref p s))"
  using get_ref_eq [OF assms, of k]
  by (cases "task_at s k") (simp_all add: with_ref_def bind_exec_def)

lemma task_at_modify:
  "alg_inv p b c q s \<Longrightarrow> task_at (modify_task k f s) = (task_at s)(k := map_option f (task_at s k))"
  using reg.modify_ok [of p b "registry s" k f] by (simp add: alg_inv_def modify_task_def)

end
