(* ===== verification/Scheduler_Calls.thy ===== *)
theory Scheduler_Calls
  imports Unordered_Algorithm
begin

text \<open>
  The operations the handle performs on a live scheduler (\<open>register\<close>, \<open>resume\<close>, \<open>suspend\<close>,
  \<open>cancel\<close>, \<open>get_state\<close>, \<open>get_by_name\<close>, \<open>with_name\<close> of \<open>src/dy/unordered_algorithm.rs\<close>), in closed
  form, and that each of them, and so the whole code of a task, keeps the scheduler's invariant and
  leaves every stored task where it is.
\<close>

subsection \<open>Writing a stop reason\<close>

lemma suspended_keys_stop:
  assumes "alg_inv p b c q s" and "task_at s k = Some t"
  shows "suspended_keys (modify_task k (set_stop_reason r) s)
       = (if r = SrSuspended then insert k (suspended_keys s) else suspended_keys s - {k})"
  using assms(2) by (auto simp: suspended_keys_def task_at_modify [OF assms(1)])

lemma suspended_keys_count [simp]: "suspended_keys (s\<lparr>suspended_count := n\<rparr>) = suspended_keys s"
  by (simp add: suspended_keys_def)

lemma modify_task_inv:
  assumes inv: "alg_inv p b c q s"
    and f: "\<And>t. df_flags (f t) = df_flags t" "\<And>t. df_polling (f t) = df_polling t"
    and n: "p = Debug \<Longrightarrow> card (suspended_keys (modify_task k f s)) \<le> n"
  shows "alg_inv p b c q ((modify_task k f s)\<lparr>suspended_count := n\<rparr>)"
proof -
  have view: "task_at (modify_task k f s) = (task_at s)(k := map_option f (task_at s k))"
    by (rule task_at_modify [OF inv])
  have "reg_inv p b (registry (modify_task k f s))"
    using inv reg.modify_ok [of p b "registry s" k f] by (simp add: alg_inv_def modify_task_def)
  moreover have "flags_ok ((modify_task k f s)\<lparr>suspended_count := n\<rparr>)"
    using inv f by (fastforce simp: alg_inv_def flags_ok_def view split: if_splits)
  moreover have "\<forall>k' t. task_at (modify_task k f s) k' = Some t \<longrightarrow> df_polling t = (q = Some k')"
    using inv f by (fastforce simp: alg_inv_def view split: if_splits)
  moreover have "\<forall>k'. q = Some k' \<longrightarrow> task_at (modify_task k f s) k' \<noteq> None"
    using inv by (auto simp: alg_inv_def view)
  ultimately show ?thesis
    using inv n by (simp add: alg_inv_def)
qed

text \<open>The relation every operation of the handle keeps between the states before and after it.\<close>

definition frame :: "('f, 'u) alg \<Rightarrow> ('f, 'u) alg \<Rightarrow> bool" where
  "frame s s' \<longleftrightarrow>
     (\<forall>k t. task_at s k = Some t \<longrightarrow>
        (\<exists>r. task_at s' k = Some (set_stop_reason r t) \<and> (df_stop_reason t = SrCancelled \<longrightarrow> r = SrCancelled)))
     \<and> polled s' = polled s \<and> registry_capacity (registry s) \<le> registry_capacity (registry s')
     \<and> length (woken s) \<le> length (woken s')"

lemma set_stop_reason_same [simp]: "set_stop_reason (df_stop_reason t) t = t"
  by (simp add: set_stop_reason_def)

lemma set_stop_reason_idem [simp]: "set_stop_reason r (set_stop_reason r' t) = set_stop_reason r t"
  by (simp add: set_stop_reason_def)

lemma stop_reason_kept [simp]:
  "\<exists>r. t = set_stop_reason r t \<and> (df_stop_reason t = SrCancelled \<longrightarrow> r = SrCancelled)"
  by (rule exI [of _ "df_stop_reason t"]) simp

lemma frame_refl [simp]: "frame s s"
  by (simp add: frame_def)

lemma frame_trans [trans]: "frame s s' \<Longrightarrow> frame s' s'' \<Longrightarrow> frame s s''"
  unfolding frame_def by fastforce

lemma frame_stop:
  assumes inv: "alg_inv p b c q s" and "task_at s k = Some t"
    and "df_stop_reason t = SrCancelled \<Longrightarrow> r = SrCancelled"
  shows "frame s ((modify_task k (set_stop_reason r) s)\<lparr>suspended_count := n\<rparr>)"
proof -
  have "registry_capacity (registry (modify_task k (set_stop_reason r) s)) = registry_capacity (registry s)"
    using inv reg.modify_ok [of p b "registry s" k] by (simp add: alg_inv_def modify_task_def)
  then show ?thesis
    using assms by (auto simp: frame_def task_at_modify [OF inv])
qed

subsection \<open>The operations in closed form\<close>

text \<open>
  With the counts right, no operation of the handle panics except a suspension at a saturated
  count, and each is one write of a stop reason.
\<close>

definition stop_write :: "profile \<Rightarrow> nat \<Rightarrow> stop_reason \<Rightarrow> panic + nat \<Rightarrow> (('f, 'u) alg, bool) exec" where
  "stop_write p k r cnt s =
     (case cnt of
        Inl e \<Rightarrow> (Inl e, modify_task k (set_stop_reason r) s)
      | Inr n \<Rightarrow> (Inr True, (modify_task k (set_stop_reason r) s)\<lparr>suspended_count := n\<rparr>))"

lemma modify_task_count [simp]: "(modify_task k f s)\<lparr>suspended_count := suspended_count s\<rparr> = modify_task k f s"
  by (simp add: modify_task_def)

lemma resume_eq:
  assumes "alg_inv p b c q s" and "b < usize_MAX"
  shows "resume p k s =
     (case task_at s k of
        Some t \<Rightarrow> if df_stop_reason t = SrSuspended
                 then stop_write p k SrNone (usize_sub p (suspended_count s) 1) s else (Inr False, s)
      | None \<Rightarrow> (Inr False, s))"
  by (simp add: resume_def with_ref_eq [OF assms] stop_write_def dec_suspended_def exec_defs assms
      drop_add_ref [OF assms] split: option.splits sum.splits)

lemma suspend_eq:
  assumes "alg_inv p b c q s" and "b < usize_MAX"
  shows "suspend p k s =
     (case task_at s k of
        Some t \<Rightarrow> if df_stop_reason t = SrNone
                 then stop_write p k SrSuspended (usize_add p (suspended_count s) 1) s else (Inr False, s)
      | None \<Rightarrow> (Inr False, s))"
  by (simp add: suspend_def with_ref_eq [OF assms] stop_write_def inc_suspended_def exec_defs assms
      drop_add_ref [OF assms] split: option.splits sum.splits)

lemma cancel_eq:
  assumes "alg_inv p b c q s" and "b < usize_MAX"
  shows "cancel p k s =
     (case task_at s k of
        Some t \<Rightarrow>
          (case df_stop_reason t of
             SrCancelled \<Rightarrow> (Inr False, s)
           | SrSuspended \<Rightarrow> stop_write p k SrCancelled (usize_sub p (suspended_count s) 1) s
           | SrNone \<Rightarrow> stop_write p k SrCancelled (Inr (suspended_count s)) s)
      | None \<Rightarrow> (Inr False, s))"
  by (simp add: cancel_def with_ref_eq [OF assms] stop_write_def dec_suspended_def exec_defs assms
      drop_add_ref [OF assms] Let_def split: option.splits sum.splits stop_reason.splits)

lemma get_state_eq:
  assumes "alg_inv p b c q s" and "b < usize_MAX"
  shows "get_state p k s = (Inr (state_of (arcs s) (task_at s k)), s)"
  by (simp add: get_state_def with_ref_eq [OF assms] exec_defs drop_add_ref [OF assms] split: option.splits)

lemma with_name_eq:
  assumes "alg_inv p b c q s" and "b < usize_MAX"
  shows "with_name p k f s = (Inr (f (case task_at s k of Some t \<Rightarrow> df_name t | None \<Rightarrow> NoName)), s)"
  by (simp add: with_name_def with_ref_eq [OF assms] exec_defs drop_add_ref [OF assms] split: option.splits)

definition has_name :: "('f, 'u) alg \<Rightarrow> string \<Rightarrow> nat \<Rightarrow> bool" where
  "has_name s n k \<longleftrightarrow> (\<exists>t. task_at s k = Some t \<and> as_str (df_name t) = Some n)"

lemma get_by_name_loop_eq:
  assumes "alg_inv p b c q s" and "b < usize_MAX"
  shows "get_by_name_loop p n ks s = (Inr (find (has_name s n) ks), s)"
proof (induction ks)
  case (Cons k ks)
  then show ?case
    by (simp add: with_ref_eq [OF assms] exec_defs drop_add_ref [OF assms] has_name_def split: option.splits)
qed (simp add: exec_defs)

lemma get_by_name_eq:
  assumes "alg_inv p b c q s" and "b < usize_MAX"
  shows "get_by_name p n s = (Inr (find (has_name s n) [0..<registry_capacity (registry s)]), s)"
  by (simp add: get_by_name_def get_by_name_loop_eq [OF assms] exec_defs)


subsection \<open>Every call of a task keeps the invariant\<close>

text \<open>
  What a panic of an operation leaves: memory exhaustion of the registry apart, the only panic
  is the overflow of the suspended count, checked in debug builds, and the invariant holds.
\<close>

definition call_panic :: "profile \<Rightarrow> nat \<Rightarrow> nat option \<Rightarrow> nat option \<Rightarrow> ('f, 'u) alg \<Rightarrow> panic \<Rightarrow> ('f, 'u) alg \<Rightarrow> bool"
where
  "call_panic p b c q s e s' \<longleftrightarrow>
     out_of_memory e \<or> (e = ArithOverflow \<and> p = Debug \<and> alg_inv p b c q s' \<and> frame s s')"

definition call_ok :: "profile \<Rightarrow> nat \<Rightarrow> nat option \<Rightarrow> nat option \<Rightarrow> ('f, 'u) alg \<Rightarrow> 'a \<Rightarrow> ('f, 'u) alg \<Rightarrow> bool"
where
  "call_ok p b c q s x s' \<longleftrightarrow> alg_inv p b c q s' \<and> frame s s'"

lemma alg_inv_count: "alg_inv p b c q s \<Longrightarrow> p = Debug \<Longrightarrow> card (suspended_keys s) \<le> suspended_count s"
  by (simp add: alg_inv_def)

lemma suspended_pos:
  assumes "alg_inv p b c q s" and "task_at s k = Some t" and "df_stop_reason t = SrSuspended"
  shows "p = Debug \<Longrightarrow> 0 < suspended_count s"
proof -
  have "k \<in> suspended_keys s" using assms by (auto simp: suspended_keys_def)
  then have "0 < card (suspended_keys s)" using alg_inv_finite [OF assms(1)] by (auto simp: card_gt_0_iff)
  then show "p = Debug \<Longrightarrow> 0 < suspended_count s" using assms(1) by (auto simp: alg_inv_def)
qed

lemma stop_write_ok:
  assumes inv: "alg_inv p b c q s" and t: "task_at s k = Some t"
    and r: "df_stop_reason t = SrCancelled \<Longrightarrow> r = SrCancelled"
    and ok: "\<And>n. cnt = Inr n \<Longrightarrow> p = Debug \<Longrightarrow>
               card (suspended_keys (modify_task k (set_stop_reason r) s)) \<le> n"
    and err: "\<And>e. cnt = Inl e \<Longrightarrow> e = ArithOverflow \<and> p = Debug \<and> usize_MAX \<le> suspended_count s"
  shows "wpx (stop_write p k r cnt) (call_ok p b c q s) (call_panic p b c q s) s"
proof (cases cnt)
  case (Inr n)
  then show ?thesis
    using frame_stop [OF inv t r]
    by (simp add: wpx_def stop_write_def call_ok_def modify_task_inv [OF inv _ _ ok])
next
  case (Inl e)
  let ?s' = "modify_task k (set_stop_reason r) s"
  have e: "e = ArithOverflow" "p = Debug" "usize_MAX \<le> suspended_count s" using err [OF Inl] by auto
  have fin: "finite (suspended_keys s)" by (rule alg_inv_finite [OF inv])
  have "card (suspended_keys ?s') \<le> Suc (card (suspended_keys s))"
    using fin by (auto simp: suspended_keys_stop [OF inv t] card_insert_if card_Diff_singleton_if)
  also have "\<dots> \<le> suspended_count s" using suspended_bound [OF inv] e by simp
  finally have card: "card (suspended_keys ?s') \<le> suspended_count s" .
  have "alg_inv p b c q (?s'\<lparr>suspended_count := suspended_count s\<rparr>)"
    by (rule modify_task_inv [OF inv]) (use card in simp_all)
  moreover have "frame s (?s'\<lparr>suspended_count := suspended_count s\<rparr>)" by (rule frame_stop [OF inv t r])
  ultimately show ?thesis
    using e Inl by (simp add: wpx_def stop_write_def call_panic_def)
qed

lemma usize_sub_Inl: "usize_sub p a b = Inl e \<Longrightarrow> p = Debug \<and> a < b \<and> e = ArithOverflow"
  by (cases p) (auto simp: usize_sub_def split: if_splits)

lemma usize_add_Inl: "usize_add p a b = Inl e \<Longrightarrow> p = Debug \<and> usize_MAX < a + b \<and> e = ArithOverflow"
  by (cases p) (auto simp: usize_add_def split: if_splits)

lemma call_same: "alg_inv p b c q s \<Longrightarrow> call_ok p b c q s x s"
  by (simp add: call_ok_def)

lemma unsuspend_ok:
  assumes inv: "alg_inv p b c q s" and t: "task_at s k = Some t" "df_stop_reason t = SrSuspended"
    and r: "r \<noteq> SrSuspended"
  shows "wpx (stop_write p k r (usize_sub p (suspended_count s) 1)) (call_ok p b c q s) (call_panic p b c q s) s"
proof (rule stop_write_ok [OF inv t(1)])
  have k: "k \<in> suspended_keys s" using t by (auto simp: suspended_keys_def)
  show "card (suspended_keys (modify_task k (set_stop_reason r) s)) \<le> n"
    if n: "usize_sub p (suspended_count s) 1 = Inr n" and "p = Debug" for n
    using n suspended_pos [OF inv t \<open>p = Debug\<close>] inv r k \<open>p = Debug\<close> alg_inv_finite [OF inv]
    by (auto simp: suspended_keys_stop [OF inv t(1)] alg_inv_def)
  show "e = ArithOverflow \<and> p = Debug \<and> usize_MAX \<le> suspended_count s"
    if "usize_sub p (suspended_count s) 1 = Inl e" for e
    using usize_sub_Inl [OF that] suspended_pos [OF inv t] by auto
qed (use t in simp)

lemma resume_ok:
  assumes inv: "alg_inv p b c q s" and b: "b < usize_MAX"
  shows "wpx (resume p k) (call_ok p b c q s) (call_panic p b c q s) s"
proof (cases "task_at s k")
  case (Some t)
  then show ?thesis
    using unsuspend_ok [OF inv Some, of SrNone] call_same [OF inv]
    by (auto simp: wpx_def resume_eq [OF assms])
qed (simp add: wpx_def resume_eq [OF assms] call_same [OF inv])

lemma suspend_ok:
  assumes inv: "alg_inv p b c q s" and b: "b < usize_MAX"
  shows "wpx (suspend p k) (call_ok p b c q s) (call_panic p b c q s) s"
proof (cases "task_at s k")
  case (Some t)
  have "wpx (stop_write p k SrSuspended (usize_add p (suspended_count s) 1))
          (call_ok p b c q s) (call_panic p b c q s) s" if "df_stop_reason t = SrNone"
  proof (rule stop_write_ok [OF inv Some])
    show "card (suspended_keys (modify_task k (set_stop_reason SrSuspended) s)) \<le> n"
      if "usize_add p (suspended_count s) 1 = Inr n" and "p = Debug" for n
      using that inv alg_inv_finite [OF inv]
      by (auto simp: suspended_keys_stop [OF inv Some] alg_inv_def card_insert_if usize_add_def
          split: if_splits)
    show "e = ArithOverflow \<and> p = Debug \<and> usize_MAX \<le> suspended_count s"
      if "usize_add p (suspended_count s) 1 = Inl e" for e
      using usize_add_Inl [OF that] inv by (auto simp: alg_inv_def)
  qed (use that in simp)
  then show ?thesis
    using call_same [OF inv] Some by (auto simp: wpx_def suspend_eq [OF assms])
qed (simp add: wpx_def suspend_eq [OF assms] call_same [OF inv])


lemma cancel_ok:
  assumes inv: "alg_inv p b c q s" and b: "b < usize_MAX"
  shows "wpx (cancel p k) (call_ok p b c q s) (call_panic p b c q s) s"
proof (cases "task_at s k")
  case (Some t)
  have "wpx (stop_write p k SrCancelled (Inr (suspended_count s))) (call_ok p b c q s) (call_panic p b c q s) s"
    by (rule stop_write_ok [OF inv Some])
       (use inv in \<open>auto simp: suspended_keys_stop [OF inv Some] alg_inv_def
          intro: order_trans [OF card_Diff1_le]\<close>)
  then show ?thesis
    using unsuspend_ok [OF inv Some, of SrCancelled] call_same [OF inv] Some
    by (auto simp: wpx_def cancel_eq [OF assms] split: stop_reason.split)
qed (simp add: wpx_def cancel_eq [OF assms] call_same [OF inv])

subsection \<open>Spawning\<close>

text \<open>The effect of \<open>spawn_task\<close>: a fresh key and a fresh waker; nothing else of the tasks changes.\<close>

definition spawned :: "spawn_params \<Rightarrow> 'f \<Rightarrow> nat \<Rightarrow> ('f, 'u) alg \<Rightarrow> ('f, 'u) alg \<Rightarrow> bool" where
  "spawned sp fut k s s' \<longleftrightarrow>
     task_at s k = None
     \<and> task_at s' = (task_at s)(k \<mapsto> dynamic_future_new fut (length (arcs s)) sp)
     \<and> arcs s' = arcs s @ [True] \<and> polled s' = polled s \<and> current s' = current s
     \<and> registry_capacity (registry s) \<le> registry_capacity (registry s')
     \<and> last_waker s' = last_waker s \<and> user s' = user s \<and> woken s' = woken s \<and> external s' = external s"

lemma spawned_frame: "spawned sp fut k s s' \<Longrightarrow> frame s s'"
  by (auto simp: spawned_def frame_def)

lemma spawned_suspended:
  "spawned sp fut k s s' \<Longrightarrow>
   suspended_keys s' = (if sp_suspended sp then insert k (suspended_keys s) else suspended_keys s)"
  by (auto simp: spawned_def suspended_keys_def split: if_splits)

lemma spawned_inv:
  assumes inv: "alg_inv p b c q s" and sp: "spawned sp fut k s s'"
    and reg: "reg_inv p b (registry s')"
    and cnt: "p = Debug \<Longrightarrow> card (suspended_keys s') \<le> suspended_count s'"
  shows "alg_inv p b c q s'"
proof -
  have "flags_ok s'"
    using inv sp unfolding alg_inv_def spawned_def flags_ok_def
    by (fastforce split: if_splits)
  moreover have "\<forall>k' t. task_at s' k' = Some t \<longrightarrow> df_polling t = (q = Some k')"
    using inv sp unfolding alg_inv_def spawned_def by (fastforce split: if_splits)
  ultimately show ?thesis
    using inv sp reg cnt by (auto simp: alg_inv_def spawned_def)
qed

text \<open>What spawning does once the registry has taken the task.\<close>

lemma spawn_task_run:
  assumes "registry_insert p (dynamic_future_new fut (length (arcs s)) sp) (registry s) = (Inr (Some k), r')"
  shows "spawn_task p sp fut s =
     (let s' = s\<lparr>registry := r', arcs := arcs s @ [True]\<rparr> in
      if sp_suspended sp then
        (case usize_add p (suspended_count s) 1 of
           Inl e \<Rightarrow> (Inl e, s') | Inr n \<Rightarrow> (Inr (Some k), s'\<lparr>suspended_count := n\<rparr>))
      else (Inr (Some k), s'))"
  using assms by (simp add: spawn_task_def register_def on_registry_def sync_flags_new_def
      inc_suspended_def exec_defs Let_def split: sum.split)

lemma spawn_task_ok:
  assumes inv: "alg_inv p b c q s"
  shows "wpx (spawn_task p sp fut)
           (\<lambda>x s'. \<exists>k. x = Some k \<and> alg_inv p b c q s' \<and> spawned sp fut k s s'
              \<and> (suspended_count s < usize_MAX \<longrightarrow>
                  suspended_count s' = suspended_count s + (if sp_suspended sp then 1 else 0)))
           (\<lambda>e s'. out_of_memory e \<or>
              (e = ArithOverflow \<and> p = Debug \<and> usize_MAX \<le> suspended_count s
               \<and> alg_inv p b c q s' \<and> frame s s')) s"
proof -
  let ?t = "dynamic_future_new fut (length (arcs s)) sp"
  have r: "reg_inv p b (registry s)" using inv by (simp add: alg_inv_def)
  consider (ok) k r' where "registry_insert p ?t (registry s) = (Inr (Some k), r')" "reg_inv p b r'"
      "task_at s k = None" "reg_view r' = (task_at s)(k \<mapsto> ?t)"
      "registry_capacity (registry s) \<le> registry_capacity r'"
    | (oom) e r' where "registry_insert p ?t (registry s) = (Inl e, r')" "out_of_memory e"
    using reg.ins_ok [OF r, of ?t] by blast
  then show ?thesis
  proof cases
    case ok
    let ?s' = "s\<lparr>registry := r', arcs := arcs s @ [True]\<rparr>"
    have sp: "spawned sp fut k s (?s'\<lparr>suspended_count := n\<rparr>)" for n
      using ok by (simp add: spawned_def)
    have susp: "suspended_keys ?s' = (if sp_suspended sp then insert k (suspended_keys s) else suspended_keys s)"
      using spawned_suspended [OF sp] by simp
    have inv': "alg_inv p b c q (?s'\<lparr>suspended_count := n\<rparr>)"
      if "p = Debug \<Longrightarrow> card (suspended_keys s) + (if sp_suspended sp then 1 else 0) \<le> n \<or> usize_MAX \<le> n" for n
      by (rule spawned_inv [OF inv sp])
         (use that ok alg_inv_finite [OF inv] suspended_bound [OF inv]
           in \<open>auto simp: susp card_insert_if\<close>)
    have same: "alg_inv p b c q ?s'" "spawned sp fut k s ?s'" if "\<not> sp_suspended sp"
      using inv' [of "suspended_count s"] sp [of "suspended_count s"] that inv by (auto simp: alg_inv_def)
    note run = spawn_task_run [OF ok(1), unfolded Let_def]
    consider (no) "\<not> sp_suspended sp" | (full) e where "sp_suspended sp" "usize_add p (suspended_count s) 1 = Inl e"
      | (counted) n where "sp_suspended sp" "usize_add p (suspended_count s) 1 = Inr n"
      by (cases "usize_add p (suspended_count s) 1") auto
    then show ?thesis
    proof cases
      case no
      with same show ?thesis by (simp add: wpx_def run)
    next
      case full
      then have "alg_inv p b c q ?s'" "frame s ?s'"
        using inv' [of "suspended_count s"] spawned_frame [OF sp, of "suspended_count s"] usize_add_Inl [OF full(2)]
        by auto
      with full usize_add_Inl [OF full(2)] show ?thesis unfolding wpx_def run by auto
    next
      case counted
      then have "alg_inv p b c q (?s'\<lparr>suspended_count := n\<rparr>)"
        using alg_inv_count [OF inv] by (intro inv') (auto simp: usize_add_def split: if_splits)
      with counted sp [of n] show ?thesis by (auto simp: wpx_def run usize_add_def split: if_splits)
    qed
  next
    case oom
    then show ?thesis
      by (simp add: wpx_def spawn_task_def register_def on_registry_def sync_flags_new_def exec_defs)
  qed
qed

subsection \<open>Wakes\<close>

text \<open>A wake changes flags and the outer waker only, so nothing a task or a key means depends on it.\<close>

lemma wake_fields [simp]:
  "registry (wake w s) = registry s" "suspended_count (wake w s) = suspended_count s"
  "current (wake w s) = current s" "polled (wake w s) = polled s" "user (wake w s) = user s"
  "external (wake w s) = external s" "arcs (wake w s) = (arcs s)[w := True]"
  by (simp_all add: wake_def notify_wake_def set_runnable_def split: option.splits)

lemma alg_inv_cong:
  assumes "registry s' = registry s" "current s' = current s" "suspended_count s' = suspended_count s"
    "length (arcs s') = length (arcs s)"
  shows "alg_inv p b c q s' = alg_inv p b c q s"
  using assms by (simp add: alg_inv_def flags_ok_def suspended_keys_def)

lemma wake_inv [simp]: "alg_inv p b c q (wake w s) = alg_inv p b c q s"
  by (rule alg_inv_cong) simp_all

lemma wake_woken [simp]: "length (woken s) \<le> length (woken (wake w s))"
  by (simp add: wake_def notify_wake_def split: option.split)

lemma fold_wake_woken [simp]: "length (woken s) \<le> length (woken (fold wake ws s))"
  by (induction ws arbitrary: s) (auto intro: order_trans [OF wake_woken])

lemma fold_wake_fields [simp]:
  "registry (fold wake ws s) = registry s" "suspended_count (fold wake ws s) = suspended_count s"
  "current (fold wake ws s) = current s" "polled (fold wake ws s) = polled s"
  "length (arcs (fold wake ws s)) = length (arcs s)" "user (fold wake ws s) = user s"
  by (induction ws arbitrary: s) simp_all

lemma deliver_fields [simp]:
  "registry (deliver s) = registry s" "suspended_count (deliver s) = suspended_count s"
  "current (deliver s) = current s" "polled (deliver s) = polled s"
  "length (arcs (deliver s)) = length (arcs s)" "user (deliver s) = user s"
  by (simp_all add: deliver_def split: list.split)

lemma deliver_woken [simp]: "length (woken s) \<le> length (woken (deliver s))"
  using fold_wake_woken [of "s\<lparr>external := _\<rparr>"] by (simp add: deliver_def split: list.split)

lemma deliver_inv [simp]: "alg_inv p b c q (deliver s) = alg_inv p b c q s"
  by (rule alg_inv_cong) simp_all

lemma frame_cong:
  "registry s1' = registry s1 \<Longrightarrow> polled s1' = polled s1 \<Longrightarrow> length (woken s1) \<le> length (woken s1') \<Longrightarrow>
   frame s s1 \<Longrightarrow> frame s s1'"
  by (simp add: frame_def)

subsection \<open>The code of a task\<close>

lemma exec_call_ok:
  assumes inv: "alg_inv p b c q s" and b: "b < usize_MAX"
  shows "wpx (exec_call p call) (call_ok p b c q s) (call_panic p b c q s) s"
proof (cases call)
  case (CallSpawn sp fut)
  then show ?thesis
    by (auto simp: call_ok_def call_panic_def intro!: wpx_mono [OF spawn_task_ok [OF inv]] dest: spawned_frame)
next
  case (CallWake w)
  then show ?thesis using inv frame_cong [of "wake w s" s s] by (simp add: call_ok_def)
next
  case (CallGetState k)
  then show ?thesis by (simp add: wpx_def bind_exec_def return_exec_def get_state_eq [OF assms] call_same [OF inv])
next
  case (CallGetName k)
  then show ?thesis by (simp add: wpx_def bind_exec_def return_exec_def with_name_eq [OF assms] call_same [OF inv])
next
  case (CallGetByName n)
  then show ?thesis by (simp add: wpx_def bind_exec_def return_exec_def get_by_name_eq [OF assms] call_same [OF inv])
next
  case (CallCancel k)
  then show ?thesis by (auto simp: call_ok_def intro!: wpx_mono [OF cancel_ok [OF assms]])
next
  case (CallSuspend k)
  then show ?thesis by (auto simp: call_ok_def intro!: wpx_mono [OF suspend_ok [OF assms]])
next
  case (CallResume k)
  then show ?thesis by (auto simp: call_ok_def intro!: wpx_mono [OF resume_ok [OF assms]])
qed (simp_all add: call_same [OF inv])

text \<open>Running a body can also end by a panic of the body itself.\<close>

definition body_panic :: "profile \<Rightarrow> nat \<Rightarrow> nat option \<Rightarrow> nat option \<Rightarrow> ('f, 'u) alg \<Rightarrow> panic \<Rightarrow> ('f, 'u) alg \<Rightarrow> bool"
where
  "body_panic p b c q s e s' \<longleftrightarrow>
     out_of_memory e
     \<or> (((e = ArithOverflow \<and> p = Debug) \<or> e = UserPanic) \<and> alg_inv p b c q s' \<and> frame s s')"

lemma user_inv [simp]:
  "alg_inv p b c q (s\<lparr>user := u\<rparr>) = alg_inv p b c q s" "frame s (s\<lparr>user := u\<rparr>)"
  using alg_inv_cong [of "s\<lparr>user := u\<rparr>" s] frame_cong [of "s\<lparr>user := u\<rparr>" s s] by simp_all

lemma run_prog_ok:
  assumes "alg_inv p b c q s" and b: "b < usize_MAX"
  shows "wpx (run_prog p pr) (call_ok p b c q s) (body_panic p b c q s) s"
  using assms(1)
proof (induction pr arbitrary: s)
  case (PCall call k)
  show ?case
    using frame_trans PCall
    by (auto intro!: wpx_mono [OF exec_call_ok [OF PCall.prems b]] wpx_mono [OF PCall.IH]
        simp: call_ok_def call_panic_def body_panic_def)
qed (auto simp: body_panic_def call_ok_def)

end
