(* ===== verification/Scheduler_Beat.thy ===== *)
theory Scheduler_Beat
  imports Scheduler_Calls "HOL-Library.Sublist"
begin

text \<open>
  \<open>beat_once\<close> of \<open>src/dy/unordered_algorithm.rs\<close> and \<open>poll_local\<close> of \<open>src/dy/dyn_future.rs\<close>: what one
  poll of a task, one visit of a slot and one pass over all slots do, on the normal path and when
  they unwind.
\<close>

subsection \<open>Polling a task\<close>

text \<open>
  What a poll keeps of every stored task: its place, its waker and its name, and that it is
  cancelled. \<open>kept\<close> is \<open>frame\<close> without the future and the polling flag.
\<close>

definition kept :: "('f, 'u) alg \<Rightarrow> ('f, 'u) alg \<Rightarrow> bool" where
  "kept s s' \<longleftrightarrow>
     (\<forall>k t. task_at s k = Some t \<longrightarrow>
        (\<exists>t'. task_at s' k = Some t' \<and> df_flags t' = df_flags t \<and> df_name t' = df_name t
            \<and> (df_stop_reason t = SrCancelled \<longrightarrow> df_stop_reason t' = SrCancelled)))
     \<and> registry_capacity (registry s) \<le> registry_capacity (registry s')
     \<and> length (woken s) \<le> length (woken s')"

lemma frame_kept: "frame s s' \<Longrightarrow> kept s s'"
  by (fastforce simp: frame_def kept_def)

lemma kept_trans [trans]: "kept s s' \<Longrightarrow> kept s' s'' \<Longrightarrow> kept s s''"
  unfolding kept_def by fastforce

lemma kept_modify:
  assumes "alg_inv p b c q s"
    and "\<And>t. df_flags (f t) = df_flags t" "\<And>t. df_name (f t) = df_name t"
    and "\<And>t. df_stop_reason (f t) = df_stop_reason t"
  shows "kept s (modify_task k f s)"
proof -
  have "registry_capacity (registry (modify_task k f s)) = registry_capacity (registry s)"
    using assms(1) reg.modify_ok [of p b "registry s" k] by (simp add: alg_inv_def modify_task_def)
  then show ?thesis by (auto simp: kept_def task_at_modify [OF assms(1)] assms)
qed

lemma suspended_keys_modify:
  assumes "alg_inv p b c q s" and "\<And>t. df_stop_reason (f t) = df_stop_reason t"
  shows "suspended_keys (modify_task k f s) = suspended_keys s"
  by (auto simp: suspended_keys_def task_at_modify [OF assms(1)] assms(2))

lemma set_polling_inv:
  assumes inv: "alg_inv p b c q s" and t: "task_at s k = Some t" and q: "q = None \<or> q = Some k"
  shows "alg_inv p b c (if v then Some k else None) (modify_task k (set_polling v) s)"
proof -
  have view: "task_at (modify_task k (set_polling v) s) = (task_at s)(k \<mapsto> set_polling v t)"
    using t by (simp add: task_at_modify [OF inv])
  have "reg_inv p b (registry (modify_task k (set_polling v) s))"
    using inv reg.modify_ok [of p b "registry s" k] by (simp add: alg_inv_def modify_task_def)
  moreover have "flags_ok (modify_task k (set_polling v) s)"
    using inv t unfolding alg_inv_def flags_ok_def view by (fastforce split: if_splits)
  ultimately show ?thesis
    using inv q suspended_keys_modify [OF inv, of "set_polling v" k]
    by (auto simp: alg_inv_def view)
qed

lemma arcs_inv [simp]: "length as = length (arcs s) \<Longrightarrow> alg_inv p b c q (s\<lparr>arcs := as\<rparr>) = alg_inv p b c q s"
  by (rule alg_inv_cong) simp_all

lemma kept_cong: "registry s1' = registry s1 \<Longrightarrow> woken s1' = woken s1 \<Longrightarrow> kept s s1' = kept s s1"
  "registry s' = registry s \<Longrightarrow> woken s' = woken s \<Longrightarrow> kept s' s1 = kept s s1"
  by (simp_all add: kept_def)

lemma kept_refl [simp]: "kept s s"
  by (simp add: kept_def)

definition polls_ok :: "profile \<Rightarrow> nat \<Rightarrow> nat option \<Rightarrow> ('f, 'u) alg \<Rightarrow> 'a \<Rightarrow> ('f, 'u) alg \<Rightarrow> bool" where
  "polls_ok p b c s x s' \<longleftrightarrow> alg_inv p b c None s' \<and> kept s s' \<and> polled s' = polled s"

definition polls_panic :: "profile \<Rightarrow> nat \<Rightarrow> nat option \<Rightarrow> ('f, 'u) alg \<Rightarrow> panic \<Rightarrow> ('f, 'u) alg \<Rightarrow> bool" where
  "polls_panic p b c s e s' \<longleftrightarrow>
     out_of_memory e \<or> (((e = ArithOverflow \<and> p = Debug) \<or> e = UserPanic) \<and> polls_ok p b c s () s')"

lemma end_poll:
  assumes inv: "alg_inv p b c (Some k) s" 
  shows "polls_ok p b c s x (modify_task k (set_polling False) s)"
proof -
  obtain t where t: "task_at s k = Some t" using inv by (auto simp: alg_inv_def)
  show ?thesis
    using set_polling_inv [OF inv t, of False] kept_modify [OF inv, of "set_polling False" k]
    by (simp add: polls_ok_def)
qed

lemma polls_ok_trans:
  "kept s s1 \<Longrightarrow> polled s1 = polled s \<Longrightarrow> polls_ok p b c s1 x s' \<Longrightarrow> polls_ok p b c s y s'"
  by (auto simp: polls_ok_def intro: kept_trans)

lemma poll_local_ok:
  assumes inv: "alg_inv p b c None s" and b: "b < usize_MAX" and t: "task_at s k = Some t"
  shows "wpx (poll_local p body k t) (polls_ok p b c s) (polls_panic p b c s) s"
proof -
  let ?s1 = "modify_task k (set_polling True) s"
  let ?s2 = "?s1\<lparr>arcs := set_runnable (df_flags t) False (arcs s)\<rparr>"
  have idle: "\<not> df_polling t" using inv t by (auto simp: alg_inv_def)
  have inv1: "alg_inv p b c (Some k) ?s1" using set_polling_inv [OF inv t, of True] by simp
  then have inv2: "alg_inv p b c (Some k) ?s2" by (simp add: set_runnable_def)
  have k2: "kept s ?s2" using kept_modify [OF inv, of "set_polling True" k] kept_cong(1) [of ?s2 ?s1 s] by simp
  have fin: "polls_ok p b c s x (modify_task k (set_polling False) s')"
    if "alg_inv p b c (Some k) s'" "kept ?s2 s'" "polled s' = polled s" for s' and x :: 'x
    using polls_ok_trans [OF kept_trans [OF k2 that(2)] that(3) end_poll [OF that(1)]] .
  have fut: "polls_ok p b c s x (modify_task k (set_polling False) (modify_task k (\<lambda>t. t\<lparr>df_future := f\<rparr>) s'))"
    if a: "alg_inv p b c (Some k) s'" "kept ?s2 s'" "polled s' = polled s" for s' f and x :: 'y
  proof (rule fin)
    let ?f = "\<lambda>t. t\<lparr>df_future := f\<rparr>"
    show "alg_inv p b c (Some k) (modify_task k ?f s')"
      using modify_task_inv [OF a(1), of ?f k "suspended_count s'"] suspended_keys_modify [OF a(1), of ?f k]
        alg_inv_count [OF a(1)] by simp
    show "kept ?s2 (modify_task k ?f s')"
      by (rule kept_trans [OF a(2)], rule kept_modify [OF a(1)]) simp_all
  qed (use a in simp)
  show ?thesis
    using idle unfolding poll_local_def
    by (auto intro!: wpx_mono [OF run_prog_ok [OF inv2 b]] fin fut
        simp: call_ok_def body_panic_def polls_panic_def frame_kept frame_def [of ?s2] split: option.split)
qed


text \<open>\<open>poll_task\<close> starts with one reference alive and returns with none, on every path.\<close>

definition task_polled :: "profile \<Rightarrow> nat \<Rightarrow> ('f, 'u) alg \<Rightarrow> 'a \<Rightarrow> ('f, 'u) alg \<Rightarrow> bool" where
  "task_polled p k s x s' \<longleftrightarrow> alg_idle p s' \<and> kept s s' \<and> polled s' = polled s @ [k]"

definition poll_panic :: "profile \<Rightarrow> panic \<Rightarrow> ('f, 'u) alg \<Rightarrow> bool" where
  "poll_panic p e s' \<longleftrightarrow>
     out_of_memory e \<or> (((e = ArithOverflow \<and> p = Debug) \<or> e = UserPanic) \<and> alg_idle p s')"

lemma current_inv:
  "alg_inv p b c q s \<Longrightarrow> alg_inv p b c' q (s\<lparr>current := c', polled := ps\<rparr>)"
  "alg_inv p b c q s \<Longrightarrow> alg_inv p b c' q (s\<lparr>current := c'\<rparr>)"
  by (simp_all add: alg_inv_def flags_ok_def suspended_keys_def)

lemma zero_less_usize [simp]: "0 < usize_MAX" "Suc 0 < usize_MAX"
  by (simp_all add: usize_MAX_def)

lemma drop_ref_capacity [simp]: "registry_capacity (registry (drop_ref p s)) = registry_capacity (registry s)"
  by (cases p; simp add: drop_ref_def borrow_drop_def registry_capacity_def)

lemma add_ref_capacity [simp]: "registry_capacity (registry (add_ref p s)) = registry_capacity (registry s)"
  by (cases p; simp add: add_ref_def registry_capacity_def)

lemma kept_drop_ref [simp]: "kept s (drop_ref p s') = kept s s'" "kept (add_ref p s) s' = kept s s'"
  by (simp_all add: kept_def)

lemma poll_task_ok:
  assumes inv: "alg_idle p s" and t: "task_at s k = Some t"
  shows "wpx (poll_task p body k t) (task_polled p k s) (poll_panic p) (add_ref p s)"
proof -
  let ?s1 = "(add_ref p s)\<lparr>current := Some k, polled := polled s @ [k]\<rparr>"
  have inv1: "alg_inv p (Suc 0) (Some k) None ?s1"
    by (rule current_inv(1) [OF add_ref_inv [OF inv]])
  have t1: "task_at ?s1 k = Some t" using t add_ref_fields(7) [of p s] by simp
  have s1: "kept ?s1 s' = kept s s'" for s'
    using kept_cong(2) [of ?s1 "add_ref p s" s'] by simp
  have fin: "alg_idle p (drop_ref p (s'\<lparr>current := None\<rparr>))
      \<and> kept s (drop_ref p (s'\<lparr>current := None\<rparr>)) \<and> polled s' = polled s @ [k]"
    if "polls_ok p (Suc 0) (Some k) ?s1 x s'" for s' and x :: 'x
    using that drop_ref_inv [OF current_inv(2), of p 0 "Some k" None s' None]
    by (simp add: polls_ok_def s1 kept_cong(1) [of "s'\<lparr>current := None\<rparr>" s'])
  show ?thesis
    unfolding poll_task_def
    by (auto intro!: wpx_mono [OF poll_local_ok [OF inv1 _ t1]] dest!: fin
        simp: task_polled_def poll_panic_def polls_panic_def)
qed

subsection \<open>Removing a task\<close>

definition removed :: "profile \<Rightarrow> nat \<Rightarrow> ('f, 'u) alg \<Rightarrow> ('f, 'u) alg" where
  "removed p k s = s\<lparr>registry := snd (registry_remove p k (registry s))\<rparr>"

lemma removed_fields [simp]:
  "arcs (removed p k s) = arcs s" "suspended_count (removed p k s) = suspended_count s"
  "user (removed p k s) = user s" "current (removed p k s) = current s"
  "polled (removed p k s) = polled s" "last_waker (removed p k s) = last_waker s"
  "woken (removed p k s) = woken s" "external (removed p k s) = external s"
  by (simp_all add: removed_def)

lemma removed_view:
  assumes "alg_idle p s"
  shows "task_at (removed p k s) = (task_at s)(k := None)"
    and "registry_capacity (registry (removed p k s)) = registry_capacity (registry s)"
    and "reg_inv p 0 (registry (removed p k s))"
  using reg.rem_ok [of p "registry s" k] assms by (auto simp: alg_inv_def removed_def)

lemma suspended_keys_removed: "alg_idle p s \<Longrightarrow> suspended_keys (removed p k s) = suspended_keys s - {k}"
  by (auto simp: suspended_keys_def removed_view)

lemma removed_inv:
  assumes inv: "alg_idle p s"
  shows "alg_idle p (removed p k s)"
proof -
  have "card (suspended_keys (removed p k s)) \<le> card (suspended_keys s)"
    using suspended_keys_removed [OF inv, of k] card_mono [OF alg_inv_finite [OF inv], of "suspended_keys s - {k}"]
    by auto
  moreover have "flags_ok (removed p k s)"
    using inv unfolding alg_inv_def flags_ok_def removed_view(1) [OF inv] by (auto split: if_splits)
  ultimately show ?thesis
    using inv by (auto simp: alg_inv_def removed_view(3) [OF inv] removed_view(1) [OF inv])
qed

lemma remove_task_eq:
  assumes "alg_idle p s" and "task_at s k \<noteq> None"
  shows "remove_task p k s = (Inr (), removed p k s)"
  using reg.rem_ok [of p "registry s" k] assms
  by (auto simp: alg_inv_def remove_task_def removed_def on_registry_def exec_defs)

subsection \<open>One slot\<close>

text \<open>The iteration of \<open>beat_once\<close> at a slot, with the references and the removals resolved.\<close>

lemma beat_slot_eq:
  assumes inv: "alg_idle p s"
  shows "beat_slot p body k any s =
     (let s1 = deliver s in
      case task_at s1 k of
        None \<Rightarrow> (Inr any, s1)
      | Some t \<Rightarrow>
          (case df_stop_reason t of
             SrCancelled \<Rightarrow> (Inr any, removed p k s1)
           | SrSuspended \<Rightarrow> (Inr any, s1)
           | SrNone \<Rightarrow>
               if is_runnable (arcs s1) t then
                 bind_exec (poll_task p body k t) (\<lambda>is_ready.
                   if is_ready then bind_exec (remove_task p k) (\<lambda>_. return_exec True)
                   else return_exec True) (add_ref p s1)
               else (Inr any, s1)))"
proof -
  have inv1: "alg_idle p (deliver s)" using inv by simp
  note ref = get_ref_eq [OF inv1 zero_less_usize(1)]
  note drop = drop_add_ref(1) [OF inv1 zero_less_usize(1)]
  show ?thesis
    by (auto simp: beat_slot_def bind_exec_def [of "modify_exec _"] bind_exec_def [of "on_registry _"]
        modify_exec_def ref drop is_poll_allowed_def gets_exec_def bind_exec_def [of "gets_exec _"]
        bind_exec_def [of "remove_task _ _"]
        remove_task_eq [OF inv1] return_exec_def Let_def split: option.split stop_reason.split)
qed


definition state_at :: "('f, 'u) alg \<Rightarrow> nat \<Rightarrow> task_state" where
  "state_at s k = state_of (arcs s) (task_at s k)"

lemma state_at_Runnable:
  "state_at s k = Runnable \<longleftrightarrow>
     (\<exists>t. task_at s k = Some t \<and> df_stop_reason t = SrNone \<and> is_runnable (arcs s) t)"
  by (auto simp: state_at_def state_of_def split: option.split stop_reason.split)

lemma state_at_Cancelled:
  "state_at s k = Cancelled \<longleftrightarrow> (\<exists>t. task_at s k = Some t \<and> df_stop_reason t = SrCancelled)"
  by (auto simp: state_at_def state_of_def split: option.split stop_reason.split)

lemma state_at_Inactive: "state_at s k = Inactive \<longleftrightarrow> task_at s k = None"
  by (auto simp: state_at_def state_of_def split: option.split stop_reason.split)

text \<open>What visiting a slot does when its task is not polled.\<close>

definition quiet_slot :: "profile \<Rightarrow> nat \<Rightarrow> ('f, 'u) alg \<Rightarrow> ('f, 'u) alg" where
  "quiet_slot p k s =
     (let s1 = deliver s in if state_at s1 k = Cancelled then removed p k s1 else s1)"

lemma quiet_slot_inv: "alg_idle p s \<Longrightarrow> alg_idle p (quiet_slot p k s)"
  by (simp add: quiet_slot_def Let_def removed_inv)

lemma beat_slot_quiet:
  assumes "alg_idle p s" and "state_at (deliver s) k \<noteq> Runnable"
  shows "beat_slot p body k any s = (Inr any, quiet_slot p k s)"
  using assms(2)
  by (auto simp: beat_slot_eq [OF assms(1)] quiet_slot_def state_at_Cancelled state_at_Runnable
      Let_def split: option.split stop_reason.split)

text \<open>Visiting the slot of a runnable task polls it; no other task leaves its place.\<close>

definition kept_but :: "nat \<Rightarrow> ('f, 'u) alg \<Rightarrow> ('f, 'u) alg \<Rightarrow> bool" where
  "kept_but k s s' \<longleftrightarrow>
     (\<forall>k' t. k' \<noteq> k \<longrightarrow> task_at s k' = Some t \<longrightarrow>
        (\<exists>t'. task_at s' k' = Some t' \<and> df_flags t' = df_flags t \<and> df_name t' = df_name t
            \<and> (df_stop_reason t = SrCancelled \<longrightarrow> df_stop_reason t' = SrCancelled)))
     \<and> registry_capacity (registry s) \<le> registry_capacity (registry s')
     \<and> length (woken s) \<le> length (woken s')"

lemma kept_kept_but: "kept s s' \<Longrightarrow> kept_but k s s'"
  by (auto simp: kept_def kept_but_def)

lemma kept_but_removed: "kept s s' \<Longrightarrow> alg_idle p s' \<Longrightarrow> kept_but k s (removed p k s')"
  by (auto simp: kept_def kept_but_def removed_view)

lemma kept_but_deliver: "kept_but k (deliver s) s' \<Longrightarrow> kept_but k s s'"
  using deliver_woken [of s] by (simp add: kept_but_def order_trans [OF deliver_woken])

definition slot_polled :: "profile \<Rightarrow> nat \<Rightarrow> ('f, 'u) alg \<Rightarrow> bool \<Rightarrow> ('f, 'u) alg \<Rightarrow> bool" where
  "slot_polled p k s x s' \<longleftrightarrow> x \<and> alg_idle p s' \<and> kept_but k s s' \<and> polled s' = polled s @ [k]"

lemma beat_slot_polls:
  assumes inv: "alg_idle p s" and r: "state_at (deliver s) k = Runnable"
  shows "wpx (beat_slot p body k any) (slot_polled p k s) (poll_panic p) s"
proof -
  have inv1: "alg_idle p (deliver s)" using inv by simp
  obtain t where t: "task_at (deliver s) k = Some t" "df_stop_reason t = SrNone" "is_runnable (arcs (deliver s)) t"
    using r by (auto simp: state_at_Runnable)
  have "wpx (bind_exec (poll_task p body k t) (\<lambda>is_ready.
            if is_ready then bind_exec (remove_task p k) (\<lambda>_. return_exec True) else return_exec True))
          (slot_polled p k s) (poll_panic p) (add_ref p (deliver s))"
  proof (simp, rule wpx_mono [OF poll_task_ok [OF inv1 t(1)]])
    fix x :: bool and s'
    assume post: "task_polled p k (deliver s) x s'"
    then obtain t' where "task_at s' k = Some t'" "alg_idle p s'" "kept (deliver s) s'"
      using t(1) by (fastforce simp: task_polled_def kept_def)
    with post show "wpx (if x then bind_exec (remove_task p k) (\<lambda>_. return_exec True) else return_exec True)
        (slot_polled p k s) (poll_panic p) s'"
      using kept_but_removed [of "deliver s" s' p k] kept_kept_but [of "deliver s" s' k]
        kept_but_deliver [of k s]
      by (auto simp: wpx_def bind_exec_def return_exec_def remove_task_eq slot_polled_def removed_inv task_polled_def)
  qed
  then show ?thesis
    using t by (simp add: wpx_def beat_slot_eq [OF inv] Let_def)
qed

subsection \<open>One beat\<close>

lemma beat_slot_inv:
  assumes "alg_idle p s"
  shows "wpx (beat_slot p body k any)
     (\<lambda>x s'. alg_idle p s' \<and> registry_capacity (registry s) \<le> registry_capacity (registry s') \<and> length (woken s) \<le> length (woken s')
        \<and> ((x \<and> polled s' = polled s @ [k]) \<or> (x = any \<and> polled s' = polled s \<and> s' = quiet_slot p k s
              \<and> state_at (deliver s) k \<noteq> Runnable)))
     (poll_panic p) s"
proof (cases "state_at (deliver s) k = Runnable")
  case True
  then show ?thesis
    by (rule wpx_mono [OF beat_slot_polls [OF assms]]) (auto simp: slot_polled_def kept_but_def)
next
  case False
  have "polled (quiet_slot p k s) = polled s" "length (woken s) \<le> length (woken (quiet_slot p k s))"
    "registry_capacity (registry (quiet_slot p k s)) = registry_capacity (registry s)"
    using assms by (simp_all add: quiet_slot_def Let_def removed_view)
  then show ?thesis
    using False quiet_slot_inv [OF assms] by (simp add: wpx_def beat_slot_quiet [OF assms False])
qed

text \<open>
  A beat visits the slots in order and polls a subsequence of them; if it returns \<open>False\<close> no task
  was polled, and it was the fold of the quiet visits.
\<close>

primrec quiet_run :: "profile \<Rightarrow> nat list \<Rightarrow> ('f, 'u) alg \<Rightarrow> bool" where
  "quiet_run p [] s = True"
| "quiet_run p (k # ks) s = (state_at (deliver s) k \<noteq> Runnable \<and> quiet_run p ks (quiet_slot p k s))"

lemma beat_loop_inv:
  assumes "alg_idle p s"
  shows "wpx (beat_loop p body ks any)
     (\<lambda>x s'. alg_idle p s' \<and> registry_capacity (registry s) \<le> registry_capacity (registry s') \<and> length (woken s) \<le> length (woken s')
        \<and> (\<exists>ps. polled s' = polled s @ ps \<and> subseq ps ks \<and> (x \<longleftrightarrow> any \<or> ps \<noteq> []))
        \<and> (\<not> x \<longrightarrow> quiet_run p ks s \<and> s' = fold (quiet_slot p) ks s))
     (poll_panic p) s"
  using assms
proof (induction ks arbitrary: any s)
  case (Cons k ks)
  show ?case
    unfolding beat_loop.simps wpx_bind
  proof (rule wpx_mono [OF beat_slot_inv [OF Cons.prems]])
    fix x s1
    assume slot: "alg_idle p s1 \<and> registry_capacity (registry s) \<le> registry_capacity (registry s1) \<and> length (woken s) \<le> length (woken s1)
        \<and> ((x \<and> polled s1 = polled s @ [k]) \<or> (x = any \<and> polled s1 = polled s \<and> s1 = quiet_slot p k s
              \<and> state_at (deliver s) k \<noteq> Runnable))"
    show "wpx (beat_loop p body ks x)
       (\<lambda>x s'. alg_idle p s' \<and> registry_capacity (registry s) \<le> registry_capacity (registry s') \<and> length (woken s) \<le> length (woken s')
          \<and> (\<exists>ps. polled s' = polled s @ ps \<and> subseq ps (k # ks) \<and> (x \<longleftrightarrow> any \<or> ps \<noteq> []))
          \<and> (\<not> x \<longrightarrow> quiet_run p (k # ks) s \<and> s' = fold (quiet_slot p) (k # ks) s))
       (poll_panic p) s1"
    proof (rule wpx_mono [OF Cons.IH])
      fix y s'
      assume rest: "alg_idle p s' \<and> registry_capacity (registry s1) \<le> registry_capacity (registry s') \<and> length (woken s1) \<le> length (woken s')
          \<and> (\<exists>ps. polled s' = polled s1 @ ps \<and> subseq ps ks \<and> (y \<longleftrightarrow> x \<or> ps \<noteq> []))
          \<and> (\<not> y \<longrightarrow> quiet_run p ks s1 \<and> s' = fold (quiet_slot p) ks s1)"
      then obtain ps where ps: "polled s' = polled s1 @ ps" "subseq ps ks" "y \<longleftrightarrow> x \<or> ps \<noteq> []" by blast
      have "\<exists>ps. polled s' = polled s @ ps \<and> subseq ps (k # ks) \<and> (y \<longleftrightarrow> any \<or> ps \<noteq> [])"
        using slot ps by (auto intro: exI [of _ "k # ps"] exI [of _ ps])
      with slot rest show "alg_idle p s' \<and> registry_capacity (registry s) \<le> registry_capacity (registry s') \<and> length (woken s) \<le> length (woken s')
          \<and> (\<exists>ps. polled s' = polled s @ ps \<and> subseq ps (k # ks) \<and> (y \<longleftrightarrow> any \<or> ps \<noteq> []))
          \<and> (\<not> y \<longrightarrow> quiet_run p (k # ks) s \<and> s' = fold (quiet_slot p) (k # ks) s)"
        by (auto simp: ps(3))
    qed (use slot in auto)
  qed simp
qed simp

end
