(* ===== verification/Scheduler_Poll.thy ===== *)
theory Scheduler_Poll
  imports Scheduler_Beat
begin

text \<open>
  \<open>poll_internal\<close> of \<open>src/dy/unordered_algorithm.rs\<close>: the beats repeated until none polls a task, the
  registration of the outer waker between the last two, and what each result means.
\<close>

subsection \<open>A beat\<close>

text \<open>
  A beat that polls nothing is a run of quiet visits. The user's state is left open: destructors change it
  (see \<open>Task_Drop\<close>).
\<close>

definition beat_post :: "profile \<Rightarrow> ('f, 'u) alg \<Rightarrow> bool \<Rightarrow> ('f, 'u) alg \<Rightarrow> bool" where
  "beat_post p s x s' \<longleftrightarrow>
     (let ks = [0..<registry_capacity (registry s)] in
      alg_idle p s' \<and> registry_capacity (registry s) \<le> registry_capacity (registry s')
      \<and> length (woken s) \<le> length (woken s')
      \<and> (\<exists>ps. polled s' = polled s @ ps \<and> subseq ps ks \<and> (x \<longleftrightarrow> ps \<noteq> []))
      \<and> (\<not> x \<longrightarrow> quiet_run p ks s \<and> s'\<lparr>user := user s\<rparr> = fold (quiet_slot p) ks s))"

lemma quiet_run_fields:
  "suspended_count (fold (quiet_slot p) ks s) = suspended_count s"
  "user (fold (quiet_slot p) ks s) = user s"
  "length (arcs (fold (quiet_slot p) ks s)) = length (arcs s)"
  by (induction ks arbitrary: s) (simp_all add: quiet_slot_def Let_def)

lemma beat_once_inv:
  assumes "alg_idle p s"
  shows "wpx (beat_once p body) (beat_post p s) (poll_panic p) s"
proof -
  have "wpx (beat_loop p body [0..<registry_capacity (registry s)] False) (beat_post p s) (poll_panic p) s"
    by (rule wpx_mono [OF beat_loop_inv [OF assms]]) (simp_all add: beat_post_def Let_def quiet_run_fields(2) [symmetric])
  then show ?thesis by (simp add: beat_once_def)
qed

subsection \<open>Wakes during a quiet beat\<close>

text \<open>
  The outer waker \<open>w\<close> was registered when \<open>n\<close> wake-ups had been delivered. It is still armed, or it
  has been woken since; in the first case no task of a slot in \<open>D\<close> is runnable.
\<close>

definition armed :: "nat \<Rightarrow> nat \<Rightarrow> nat set \<Rightarrow> ('f, 'u) alg \<Rightarrow> bool" where
  "armed w n D s \<longleftrightarrow>
     (last_waker s = Some w \<and> length (woken s) = n \<and> (\<forall>k \<in> D. state_at s k \<noteq> Runnable))
     \<or> (n < length (woken s) \<and> woken s ! n = w)"

lemma wake_armed: "armed w n D s \<Longrightarrow> armed w n D (wake v s)"
  by (auto simp: armed_def wake_def notify_wake_def nth_append split: option.split)

lemma wakes_armed:
  assumes "armed w n D s"
  shows "armed w n D (fold wake ws s)"
  using assms by (induction ws arbitrary: s) (simp_all add: wake_armed)

lemma deliver_armed: "armed w n D s \<Longrightarrow> armed w n D (deliver s)"
  by (cases "external s")
     (simp_all add: deliver_def wakes_armed armed_def [of w n D s] armed_def [of w n D "s\<lparr>external := _\<rparr>"]
        state_at_def)

lemma quiet_slot_armed:
  assumes inv: "alg_idle p s" and a: "armed w n D s" and quiet: "state_at (deliver s) k \<noteq> Runnable"
  shows "armed w n (insert k D) (quiet_slot p k s)"
proof -
  have d: "armed w n (insert k D) (deliver s)"
    using deliver_armed [OF a] quiet by (auto simp: armed_def)
  have "state_at (removed p k (deliver s)) j \<noteq> Runnable" if "state_at (deliver s) j \<noteq> Runnable" for j
    using that inv by (auto simp: state_at_Runnable removed_view)
  with d show ?thesis by (auto simp: quiet_slot_def Let_def armed_def)
qed

lemma quiet_run_armed:
  assumes "alg_idle p s" and "armed w n D s" and "quiet_run p ks s"
  shows "armed w n (D \<union> set ks) (fold (quiet_slot p) ks s)"
  using assms
proof (induction ks arbitrary: s D)
  case (Cons k ks)
  then show ?case
    using Cons.IH [of "quiet_slot p k s" "insert k D"] quiet_slot_armed [of p s w n D k] quiet_slot_inv [of p s k]
    by simp
qed simp

text \<open>A quiet beat removes the cancelled tasks and nothing else.\<close>

lemma quiet_slot_view:
  assumes "alg_idle p s"
  shows "task_at (quiet_slot p k s) = (if state_at s k = Cancelled then (task_at s)(k := None) else task_at s)"
  using assms by (auto simp: quiet_slot_def Let_def removed_view state_at_Cancelled)

lemma quiet_run_view:
  assumes "alg_idle p s"
  shows "task_at (fold (quiet_slot p) ks s)
       = (\<lambda>k. if k \<in> set ks \<and> state_at s k = Cancelled then None else task_at s k)"
  using assms
proof (induction ks arbitrary: s)
  case (Cons k ks)
  then show ?case
    using Cons.IH [OF quiet_slot_inv [OF Cons.prems, of k]] quiet_slot_view [OF Cons.prems, of k]
    by (auto simp: state_at_Cancelled fun_eq_iff)
qed simp

lemma task_at_capacity: "alg_inv p b c q s \<Longrightarrow> task_at s k = Some t \<Longrightarrow> k < registry_capacity (registry s)"
  using reg.view_cap [of p b "registry s"] by (auto simp: alg_inv_def)


subsection \<open>One iteration of the poll\<close>

definition outcome :: "nat \<Rightarrow> nat \<Rightarrow> bool poll \<Rightarrow> ('f, 'u) alg \<Rightarrow> bool" where
  "outcome w m r s' \<longleftrightarrow>
     (\<forall>k. state_at s' k \<noteq> Cancelled)
     \<and> (case r of
          Ready fin \<Rightarrow>
            last_waker s' = None
            \<and> (if fin then task_at s' = Map.empty
               else task_at s' \<noteq> Map.empty \<and> registered_count s' = suspended_count s')
        | Pending \<Rightarrow>
            task_at s' \<noteq> Map.empty \<and> registered_count s' \<noteq> suspended_count s'
            \<and> (\<exists>n. m \<le> n \<and> armed w n UNIV s'))"

lemma waker_inv [simp]: "alg_inv p b c q (s\<lparr>last_waker := x\<rparr>) = alg_inv p b c q s"
  by (rule alg_inv_cong) simp_all

lemma quiet_beat:
  assumes inv: "alg_idle p s" and post: "beat_post p s False s'"
  shows "alg_idle p s'" "polled s' = polled s" "length (woken s) \<le> length (woken s')"
    "state_at s' k \<noteq> Cancelled" "armed w n {} s \<Longrightarrow> armed w n UNIV s'"
proof -
  let ?ks = "[0..<registry_capacity (registry s)]"
  let ?q = "fold (quiet_slot p) ?ks s"
  have q: "quiet_run p ?ks s" "s'\<lparr>user := user s\<rparr> = ?q"
    using post by (simp_all add: beat_post_def Let_def)
  have same: "task_at s' = task_at ?q" "arcs s' = arcs ?q" "woken s' = woken ?q" "last_waker s' = last_waker ?q"
    unfolding q(2) [symmetric] by simp_all
  have st: "state_at s' k = state_at ?q k" for k by (simp add: state_at_def same)
  show *: "alg_idle p s'" "polled s' = polled s" "length (woken s) \<le> length (woken s')"
    using post by (auto simp: beat_post_def Let_def)
  show "state_at s' k \<noteq> Cancelled"
    using task_at_capacity [OF inv, of k] by (auto simp: st state_at_Cancelled quiet_run_view [OF inv])
  show "armed w n UNIV s'" if a: "armed w n {} s"
  proof -
    have "state_at s' k \<noteq> Runnable" if "k \<notin> set ?ks" for k
      using that task_at_capacity [OF inv, of k] by (auto simp: st state_at_Runnable quiet_run_view [OF inv])
    then show ?thesis
      using quiet_run_armed [OF inv a q(1)] by (auto simp: armed_def st same)
  qed
qed

lemma count_zero: "alg_inv p b c q s \<Longrightarrow> registered_count s = 0 \<longleftrightarrow> task_at s = Map.empty"
  using reg.count_view [of p b "registry s"] reg.finite_view [of p b "registry s"]
  by (simp add: alg_inv_def registered_count_def)

definition iter_post :: "profile \<Rightarrow> nat \<Rightarrow> ('f, 'u) alg \<Rightarrow> bool poll option \<Rightarrow> ('f, 'u) alg \<Rightarrow> bool" where
  "iter_post p w s x s' \<longleftrightarrow>
     alg_idle p s' \<and> length (woken s) \<le> length (woken s')
     \<and> (\<exists>ps. polled s' = polled s @ ps \<and> (ps = [] \<longleftrightarrow> x \<noteq> None))
     \<and> (\<forall>r. x = Some r \<longrightarrow> outcome w (length (woken s)) r s')"

lemma beat_postD:
  assumes "beat_post p s x s'"
  shows "alg_idle p s'" "length (woken s) \<le> length (woken s')" "\<exists>ps. polled s' = polled s @ ps \<and> (ps = [] \<longleftrightarrow> \<not> x)"
  using assms by (auto simp: beat_post_def Let_def)

lemma deliver_state: "state_at (deliver s) k = Cancelled \<longleftrightarrow> state_at s k = Cancelled"
  by (simp add: state_at_Cancelled)

lemma second_beat:
  assumes inv: "alg_idle p s1" and post: "beat_post p (snd (waker_register w (deliver s1))) x s2"
    and m: "m \<le> length (woken s1)"
  shows "alg_idle p s2" "length (woken s1) \<le> length (woken s2)"
    "\<exists>ps. polled s2 = polled s1 @ ps \<and> (ps = [] \<longleftrightarrow> \<not> x)"
    "\<not> x \<Longrightarrow> state_at s2 k \<noteq> Cancelled \<and> (\<exists>n. m \<le> n \<and> armed w n UNIV s2)"
proof -
  let ?s = "snd (waker_register w (deliver s1))"
  have inv': "alg_idle p ?s" using inv by (simp add: waker_register_def)
  have m': "m \<le> length (woken ?s)" "length (woken s1) \<le> length (woken ?s)"
    using order_trans [OF m deliver_woken] by (simp_all add: waker_register_def)
  have arm: "armed w (length (woken ?s)) {} ?s" by (simp add: armed_def waker_register_def)
  show "alg_idle p s2" "length (woken s1) \<le> length (woken s2)"
    "\<exists>ps. polled s2 = polled s1 @ ps \<and> (ps = [] \<longleftrightarrow> \<not> x)"
    using beat_postD [OF post] order_trans [OF m'(2) beat_postD(2) [OF post]]
    by (auto simp: waker_register_def)
  show "state_at s2 k \<noteq> Cancelled \<and> (\<exists>n. m \<le> n \<and> armed w n UNIV s2)" if "\<not> x"
  proof -
    have post': "beat_post p ?s False s2" using post that by simp
    show ?thesis using quiet_beat(4,5) [OF inv' post'] arm m'(1) by blast
  qed
qed

lemma waker_clear_reads:
  "state_at (snd (waker_clear t)) k = state_at t k" "registered_count (snd (waker_clear t)) = registered_count t"
  by (simp_all add: waker_clear_def state_at_def registered_count_def)

text \<open>The end of an iteration, after the second beat.\<close>

lemma poll_decision:
  assumes b1: "beat_post p s False s1" and b2: "beat_post p (snd (waker_register w (deliver s1))) any s2"
  shows "wpx (bind_exec (modify_exec deliver) (\<lambda>_.
       if \<not> any then
         bind_exec (gets_exec (\<lambda>s. (registered_count s, suspended_count s))) (\<lambda>(cnt, sus).
         if cnt = 0 \<or> cnt = sus then
           bind_exec (modify_exec (\<lambda>s. snd (waker_clear s))) (\<lambda>_. return_exec (Some (Ready (cnt = 0))))
         else return_exec (Some Pending))
       else
         bind_exec (modify_exec (\<lambda>s. snd (waker_clear s))) (\<lambda>_. return_exec None)))
     (iter_post p w s) (poll_panic p) s2"
proof -
  note p1 = beat_postD [OF b1] and p2 = second_beat [OF beat_postD(1) [OF b1] b2 beat_postD(2) [OF b1]]
  have same: "polled s1 = polled s" using p1(3) by auto
  have len: "length (woken s) \<le> length (woken (deliver s2))"
    using p1(2) p2(2) deliver_woken [of s2] by linarith
  show ?thesis
  proof (cases any)
    case True
    then show ?thesis using p2(1,3) len same by (simp add: iter_post_def waker_clear_def)
  next
    case False
    have quiet: "state_at (deliver s2) k \<noteq> Cancelled" for k using p2(4) [OF False] by (simp add: deliver_state)
    obtain n where n: "length (woken s) \<le> n" "armed w n UNIV (deliver s2)"
      using p2(4) [OF False] deliver_armed by blast
    have inv2: "alg_idle p (deliver s2)" using p2(1) by simp
    have ps: "polled s2 = polled s" using p2(3) False same by auto
    show ?thesis
      using False quiet n inv2 ps len count_zero [OF inv2]
      by (auto simp: iter_post_def outcome_def waker_clear_reads waker_clear_def registered_count_def state_at_def)
  qed
qed

text \<open>An iteration of the loop over any beat that behaves as above.\<close>

lemma iteration_ok:
  assumes inv: "alg_idle p s" and beat: "\<And>s. alg_idle p s \<Longrightarrow> wpx beat (beat_post p s) (poll_panic p) s"
  shows "wpx (bind_exec beat (\<lambda>any.
     if any then return_exec None
     else
       bind_exec (modify_exec (\<lambda>s. snd (waker_register w (deliver s)))) (\<lambda>_.
       bind_exec beat (\<lambda>any'.
       bind_exec (modify_exec deliver) (\<lambda>_.
       if \<not> any' then
         bind_exec (gets_exec (\<lambda>s. (registered_count s, suspended_count s))) (\<lambda>(cnt, sus).
         if cnt = 0 \<or> cnt = sus then
           bind_exec (modify_exec (\<lambda>s. snd (waker_clear s))) (\<lambda>_. return_exec (Some (Ready (cnt = 0))))
         else return_exec (Some Pending))
       else
         bind_exec (modify_exec (\<lambda>s. snd (waker_clear s))) (\<lambda>_. return_exec None))))))
    (iter_post p w s) (poll_panic p) s"
proof (subst wpx_bind, rule wpx_mono [OF beat [OF inv]], goal_cases)
  case (1 any s1)
  note p1 = beat_postD [OF 1]
  show ?case
  proof (cases any)
    case True
    then show ?thesis using p1 by (simp add: iter_post_def)
  next
    case False
    have inv1: "alg_idle p (snd (waker_register w (deliver s1)))" using p1(1) by (simp add: waker_register_def)
    have b1: "beat_post p s False s1" using 1 False by simp
    show ?thesis
      unfolding if_not_P [OF False] wpx_bind [of "modify_exec _" "\<lambda>_. bind_exec beat _"] wpx_modify wpx_bind [of beat]
      by (rule wpx_mono [OF beat [OF inv1] poll_decision [OF b1]])
  qed
qed simp

lemma poll_iter_ok: "alg_idle p s \<Longrightarrow> wpx (poll_iter p body w) (iter_post p w s) (poll_panic p) s"
  unfolding poll_iter_def by (intro iteration_ok beat_once_inv)


subsection \<open>The poll\<close>

definition poll_post :: "profile \<Rightarrow> nat \<Rightarrow> ('f, 'u) alg \<Rightarrow> (panic + bool poll) \<times> ('f, 'u) alg \<Rightarrow> bool" where
  "poll_post p w s res \<longleftrightarrow>
     (case res of
        (Inl e, s') \<Rightarrow> poll_panic p e s'
      | (Inr r, s') \<Rightarrow>
          alg_idle p s' \<and> outcome w (length (woken s)) r s')"

lemma outcome_mono: "outcome w m r s \<Longrightarrow> m' \<le> m \<Longrightarrow> outcome w m' r s"
  by (auto simp: outcome_def split: poll.splits intro: order_trans)

text \<open>The loop over any iteration that behaves as above.\<close>

primrec until_some :: "('s, 'a option) exec \<Rightarrow> nat \<Rightarrow> 's \<Rightarrow> ((panic + 'a) \<times> 's) option" where
  "until_some it 0 s = None"
| "until_some it (Suc n) s =
     (case it s of
        (Inl e, s') \<Rightarrow> Some (Inl e, s')
      | (Inr (Some r), s') \<Rightarrow> Some (Inr r, s')
      | (Inr None, s') \<Rightarrow> until_some it n s')"

lemma poll_loop_until: "poll_loop p body w n s = until_some (poll_iter p body w) n s"
  by (induction n arbitrary: s) (auto split: prod.split sum.split option.split)

lemma until_some_ok:
  assumes it: "\<And>s. alg_idle p s \<Longrightarrow> wpx it (iter_post p w s) (poll_panic p) s"
    and "alg_idle p s" and "until_some it n s = Some res"
  shows "poll_post p w s res"
  using assms(2,3)
proof (induction n arbitrary: s)
  case (Suc n)
  obtain x s1 where i: "it s = (x, s1)" by fastforce
  note post = it [OF Suc.prems(1), unfolded wpx_def i]
  show ?case
  proof (cases "x = Inr None")
    case True
    then have "poll_post p w s1 res" using Suc.IH [of s1] Suc.prems(2) post i by (simp add: iter_post_def)
    then show ?thesis
      using post True by (auto simp: poll_post_def iter_post_def intro: outcome_mono split: prod.splits sum.splits)
  next
    case False
    then show ?thesis using post i Suc.prems(2)
      by (auto simp: poll_post_def iter_post_def split: sum.splits option.splits)
  qed
qed simp

lemma until_some_ends:
  assumes it: "\<And>s. I s \<Longrightarrow> wpx it (\<lambda>x s'. I s' \<and> (x = None \<longrightarrow> m s' < (m s :: nat))) (\<lambda>_ _. True) s"
    and "I s" and "m s < n"
  shows "\<exists>res. until_some it n s = Some res"
  using assms(2,3)
proof (induction n arbitrary: s)
  case (Suc n)
  obtain x s1 where i: "it s = (x, s1)" by fastforce
  note post = it [OF Suc.prems(1), unfolded wpx_def i]
  show ?case
  proof (cases "x = Inr None")
    case True
    then show ?thesis using Suc.IH [of s1] Suc.prems(2) post i by auto
  qed (use i in \<open>auto split: sum.split option.split\<close>)
qed simp

lemma poll_loop_ok:
  assumes "alg_idle p s" and "poll_loop p body w n s = Some res"
  shows "poll_post p w s res"
  using until_some_ok [OF poll_iter_ok assms(1)] assms(2) by (simp add: poll_loop_until)

lemma poll_loop_mono:
  "poll_loop p body w n s = Some res \<Longrightarrow> n \<le> m \<Longrightarrow> poll_loop p body w m s = Some res"
proof (induction n arbitrary: m s)
  case (Suc n)
  then obtain m' where "m = Suc m'" "n \<le> m'" by (cases m) auto
  with Suc show ?case by (auto split: prod.splits sum.splits option.splits)
qed simp

lemma clear_idle: "alg_idle p s \<Longrightarrow> alg_idle p (snd (waker_clear s))"
  by (simp add: waker_clear_def)

lemma poll_internal_ok:
  assumes "alg_idle p s" and "poll_internal p body w n s = Some res"
  shows "poll_post p w s res"
proof -
  have "poll_post p w (snd (waker_clear s)) res"
    by (rule poll_loop_ok [OF clear_idle [OF assms(1)]]) (use assms(2) in \<open>simp add: poll_internal_def\<close>)
  then show ?thesis by (simp add: poll_post_def waker_clear_def split: prod.splits sum.splits)
qed

end
