(* ===== verification/Scheduler_Count.thy ===== *)
theory Scheduler_Count
  imports Scheduler_Poll
begin

text \<open>
  When the count of suspended tasks is right, and how long a poll runs: two relations between the
  states before and after a poll of the scheduler, both proved from what one run of a task's code
  does (the locale \<open>poll_relation\<close>).
\<close>

subsection \<open>The suspended count\<close>

text \<open>\<open>exact\<close>: the count is the number of suspended tasks, so that \<open>Ready(false)\<close> means what it says.\<close>

definition exact :: "('f, 'u) alg \<Rightarrow> bool" where
  "exact s \<longleftrightarrow> suspended_count s = card (suspended_keys s)"

lemma exact_cong:
  "registry s' = registry s \<Longrightarrow> suspended_count s' = suspended_count s \<Longrightarrow> exact s' = exact s"
  by (simp add: exact_def suspended_keys_def)

lemma exact_below:
  assumes "alg_inv p b c q s" and "exact s"
  shows "suspended_count s < usize_MAX"
  using suspended_bound [OF assms(1)] assms(2) by (simp add: exact_def)

lemma resume_exact:
  assumes inv: "alg_inv p b c q s" and b: "b < usize_MAX" and ex: "exact s"
  shows "wpx (resume p k) (\<lambda>_ s'. exact s') (\<lambda>_ _. False) s"
proof (cases "\<exists>t. task_at s k = Some t \<and> df_stop_reason t = SrSuspended")
  case True
  then obtain t where t: "task_at s k = Some t" "df_stop_reason t = SrSuspended" by blast
  then have k: "k \<in> suspended_keys s" by (auto simp: suspended_keys_def)
  have fin: "finite (suspended_keys s)" by (rule alg_inv_finite [OF inv])
  have pos: "0 < suspended_count s" using k fin ex by (auto simp: exact_def card_gt_0_iff)
  then show ?thesis
    using t k fin ex
    by (simp add: wpx_def resume_eq [OF inv b] stop_write_def exact_def suspended_keys_stop [OF inv t(1)])
qed (use ex in \<open>auto simp: wpx_def resume_eq [OF inv b] split: option.split\<close>)

lemma cancel_exact:
  assumes inv: "alg_inv p b c q s" and b: "b < usize_MAX" and ex: "exact s"
  shows "wpx (cancel p k) (\<lambda>_ s'. exact s') (\<lambda>_ _. False) s"
proof (cases "task_at s k")
  case (Some t)
  have fin: "finite (suspended_keys s)" by (rule alg_inv_finite [OF inv])
  have k: "k \<in> suspended_keys s \<longleftrightarrow> df_stop_reason t = SrSuspended" using Some by (auto simp: suspended_keys_def)
  have pos: "0 < suspended_count s" if "df_stop_reason t = SrSuspended"
    using k that fin ex by (auto simp: exact_def card_gt_0_iff)
  show ?thesis
  proof (cases "df_stop_reason t")
    case SrSuspended
    then show ?thesis
      using Some k fin ex pos
      by (simp add: wpx_def cancel_eq [OF inv b] stop_write_def exact_def suspended_keys_stop [OF inv Some])
  qed (use Some k fin ex in \<open>simp_all add: wpx_def cancel_eq [OF inv b] stop_write_def exact_def
         suspended_keys_stop [OF inv Some]\<close>)
qed (use ex in \<open>simp add: wpx_def cancel_eq [OF inv b]\<close>)

lemma suspend_exact:
  assumes inv: "alg_inv p b c q s" and b: "b < usize_MAX" and ex: "exact s"
  shows "wpx (suspend p k) (\<lambda>_ s'. exact s') (\<lambda>_ _. False) s"
proof (cases "\<exists>t. task_at s k = Some t \<and> df_stop_reason t = SrNone")
  case True
  then obtain t where t: "task_at s k = Some t" "df_stop_reason t = SrNone" by blast
  then have k: "k \<notin> suspended_keys s" by (auto simp: suspended_keys_def)
  have fin: "finite (suspended_keys s)" by (rule alg_inv_finite [OF inv])
  show ?thesis
    using t k fin ex exact_below [OF inv ex]
    by (simp add: wpx_def suspend_eq [OF inv b] stop_write_def exact_def suspended_keys_stop [OF inv t(1)])
qed (use ex in \<open>auto simp: wpx_def suspend_eq [OF inv b] split: option.split\<close>)

lemma spawn_exact:
  assumes inv: "alg_inv p b c q s" and ex: "exact s"
  shows "wpx (spawn_task p sp fut) (\<lambda>_ s'. exact s') (\<lambda>e _. out_of_memory e) s"
proof (rule wpx_mono [OF spawn_task_ok [OF inv]])
  fix x s'
  assume "\<exists>k. x = Some k \<and> alg_inv p b c q s' \<and> spawned sp fut k s s'
            \<and> (suspended_count s < usize_MAX \<longrightarrow>
                suspended_count s' = suspended_count s + (if sp_suspended sp then 1 else 0))"
  then obtain k where k: "spawned sp fut k s s'"
    "suspended_count s' = suspended_count s + (if sp_suspended sp then 1 else 0)"
    using exact_below [OF inv ex] by blast
  moreover have "k \<notin> suspended_keys s" using k(1) by (auto simp: spawned_def suspended_keys_def)
  ultimately show "exact s'"
    using ex alg_inv_finite [OF inv] by (simp add: exact_def spawned_suspended [OF k(1)])
qed (use exact_below [OF inv ex] in auto)

lemma exec_call_exact:
  assumes inv: "alg_inv p b c q s" and b: "b < usize_MAX" and ex: "exact s"
  shows "wpx (exec_call p call) (\<lambda>_ s'. exact s') (\<lambda>e _. out_of_memory e) s"
proof (cases call)
  case (CallSpawn sp fut)
  then show ?thesis using spawn_exact [OF inv ex] by simp
next
  case (CallWake w)
  then show ?thesis using ex exact_cong [of "wake w s" s] by simp
next
  case (CallCancel k)
  then show ?thesis by (auto intro!: wpx_mono [OF cancel_exact [OF assms]])
next
  case (CallSuspend k)
  then show ?thesis by (auto intro!: wpx_mono [OF suspend_exact [OF assms]])
next
  case (CallResume k)
  then show ?thesis by (auto intro!: wpx_mono [OF resume_exact [OF assms]])
qed (use ex in \<open>simp_all add: wpx_def bind_exec_def return_exec_def gets_exec_def get_state_eq [OF inv b]
       with_name_eq [OF inv b] get_by_name_eq [OF inv b]\<close>)

lemma run_prog_exact:
  assumes "alg_inv p b c q s" and b: "b < usize_MAX" and "exact s"
  shows "wpx (run_prog p pr) (\<lambda>_ s'. exact s') (\<lambda>e s'. out_of_memory e \<or> e = UserPanic \<and> exact s') s"
  using assms(1,3)
proof (induction pr arbitrary: s)
  case (PCall call k)
  have "wpx (exec_call p call) (\<lambda>x s'. call_ok p b c q s x s' \<and> exact s')
     (\<lambda>e s'. call_panic p b c q s e s' \<and> out_of_memory e) s"
    by (rule wpx_conj [OF exec_call_ok exec_call_exact]) (use PCall b in auto)
  then show ?case
    unfolding run_prog.simps wpx_bind
    by (rule wpx_mono) (auto intro: PCall.IH simp: call_ok_def)
qed (auto simp: exact_def suspended_keys_def)

subsection \<open>Polls that do not leak\<close>

text \<open>
  \<open>pends f pr\<close>: on every path of \<open>pr\<close> that suspends a task (or, when \<open>f\<close>, on every path) the poll
  does not end by finishing the task.
\<close>

primrec pends :: "bool \<Rightarrow> ('f, 'u) prog \<Rightarrow> bool" where
  "pends f (PReady u) = (\<not> f)"
| "pends f (PPending x u) = True"
| "pends f (PPanic u) = True"
| "pends f (PCall c k) = (\<forall>r. pends (f \<or> (\<exists>x. c = CallSuspend x)) (k r))"

lemma exec_call_unsuspended:
  assumes inv: "alg_inv p b c q s" and b: "b < usize_MAX" and k: "k \<notin> suspended_keys s" "task_at s k \<noteq> None"
    and call: "\<forall>x. call \<noteq> CallSuspend x"
  shows "wpx (exec_call p call) (\<lambda>_ s'. k \<notin> suspended_keys s') (\<lambda>_ _. True) s"
proof (cases call)
  case (CallSpawn sp fut)
  then show ?thesis
    using k by (auto intro!: wpx_mono [OF spawn_task_ok [OF inv]] simp: spawned_suspended)
       (auto simp: spawned_def split: if_splits)
next
  case (CallCancel j)
  then show ?thesis
    using k by (auto simp: wpx_def bind_exec_def return_exec_def cancel_eq [OF inv b] stop_write_def suspended_keys_stop [OF inv]
        split: option.split stop_reason.split sum.split prod.split)
next
  case (CallResume j)
  then show ?thesis
    using k by (auto simp: wpx_def bind_exec_def return_exec_def resume_eq [OF inv b] stop_write_def suspended_keys_stop [OF inv]
        split: option.split stop_reason.split sum.split prod.split)
next
  case (CallWake w)
  then show ?thesis using k by (simp add: suspended_keys_def)
qed (use k call in \<open>simp_all add: wpx_def bind_exec_def return_exec_def gets_exec_def get_state_eq [OF inv b]
       with_name_eq [OF inv b] get_by_name_eq [OF inv b]\<close>)


lemma run_prog_unsuspended:
  assumes "alg_inv p b c (Some k) s" and b: "b < usize_MAX" and "pends f pr" and "f \<or> k \<notin> suspended_keys s"
  shows "wpx (run_prog p pr) (\<lambda>x s'. x = None \<longrightarrow> k \<notin> suspended_keys s') (\<lambda>_ _. True) s"
  using assms(1,3,4)
proof (induction pr arbitrary: s f)
  case (PCall call cont)
  show ?case
  proof (cases "f \<or> (\<exists>x. call = CallSuspend x)")
    case True
    show ?thesis
      unfolding run_prog.simps wpx_bind
      by (rule wpx_mono [OF exec_call_ok [OF PCall.prems(1) b]])
         (use True PCall in \<open>auto simp: call_ok_def intro!: PCall.IH [of _ _ True]\<close>)
  next
    case False
    have pres: "task_at s k \<noteq> None" using PCall.prems(1) by (auto simp: alg_inv_def)
    have "wpx (exec_call p call) (\<lambda>x s'. call_ok p b c (Some k) s x s' \<and> k \<notin> suspended_keys s')
       (\<lambda>e s'. call_panic p b c (Some k) s e s' \<and> True) s"
      using False PCall.prems pres
      by (intro wpx_conj [OF exec_call_ok exec_call_unsuspended]) (auto intro: b)
    then show ?thesis
      unfolding run_prog.simps wpx_bind
      by (rule wpx_mono) (use False PCall in \<open>auto simp: call_ok_def intro!: PCall.IH [of _ _ False]\<close>)
  qed
qed (auto simp: suspended_keys_def)

subsection \<open>A poll as one run of the task's code\<close>

definition started :: "profile \<Rightarrow> nat \<Rightarrow> 'f dynamic_future \<Rightarrow> ('f, 'u) alg \<Rightarrow> ('f, 'u) alg" where
  "started p k t s =
     (modify_task k (set_polling True)
        ((add_ref p s)\<lparr>current := Some k, polled := polled s @ [k]\<rparr>))
     \<lparr>arcs := set_runnable (df_flags t) False (arcs s)\<rparr>"

definition ended :: "profile \<Rightarrow> nat \<Rightarrow> ('f, 'u) alg \<Rightarrow> ('f, 'u) alg" where
  "ended p k s = drop_ref p ((modify_task k (set_polling False) s)\<lparr>current := None\<rparr>)"

definition finished :: "profile \<Rightarrow> nat \<Rightarrow> 'f option \<Rightarrow> ('f, 'u) alg \<Rightarrow> ('f, 'u) alg" where
  "finished p k x s =
     (case x of None \<Rightarrow> removed p k (ended p k s)
      | Some f \<Rightarrow> ended p k (modify_task k (\<lambda>t. t\<lparr>df_future := f\<rparr>) s))"

lemma started_inv:
  assumes inv: "alg_idle p s" and t: "task_at s k = Some t"
  shows "alg_inv p (Suc 0) (Some k) (Some k) (started p k t s)"
proof -
  let ?s1 = "(add_ref p s)\<lparr>current := Some k, polled := polled s @ [k]\<rparr>"
  have "alg_inv p (Suc 0) (Some k) None ?s1"
    by (rule current_inv(1) [OF add_ref_inv [OF inv]])
  moreover have "task_at ?s1 k = Some t" using t add_ref_fields(7) [of p s] by simp
  ultimately have "alg_inv p (Suc 0) (Some k) (Some k) (modify_task k (set_polling True) ?s1)"
    using set_polling_inv [of p "Suc 0" "Some k" None ?s1 k t True] by simp
  then show ?thesis by (simp add: started_def set_runnable_def)
qed

lemma ended_inv:
  assumes inv: "alg_inv p (Suc 0) (Some k) (Some k) s"
  shows "alg_idle p (ended p k s)"
    and "task_at (ended p k s) = (task_at s)(k := map_option (set_polling False) (task_at s k))"
    and "task_at s k \<noteq> None"
proof -
  show pres: "task_at s k \<noteq> None" using inv by (auto simp: alg_inv_def)
  then obtain t where t: "task_at s k = Some t" by blast
  show "alg_idle p (ended p k s)"
    unfolding ended_def
    by (rule drop_ref_inv, rule current_inv(2)) (use set_polling_inv [OF inv t, of False] in simp_all)
  show "task_at (ended p k s) = (task_at s)(k := map_option (set_polling False) (task_at s k))"
    by (simp add: ended_def task_at_modify [OF inv])
qed

lemma poll_task_eq:
  assumes inv: "alg_idle p s" and t: "task_at s k = Some t"
  shows "poll_task p body k t (add_ref p s) =
     (case run_prog p (body (df_future t) (df_flags t) (user s)) (started p k t s) of
        (Inl e, s') \<Rightarrow> (Inl e, ended p k s')
      | (Inr None, s') \<Rightarrow> (Inr True, ended p k s')
      | (Inr (Some f), s') \<Rightarrow> (Inr False, ended p k (modify_task k (\<lambda>t. t\<lparr>df_future := f\<rparr>) s')))"
proof -
  have idle: "\<not> df_polling t" using inv t unfolding alg_inv_def by blast
  then show ?thesis
    by (simp add: poll_task_def poll_local_def started_def ended_def bind_exec_def return_exec_def guard_exec_def
        modify_exec_def gets_exec_def panic_exec_def split: prod.split sum.split option.split)
qed

lemma beat_slot_poll_eq:
  assumes inv: "alg_idle p s"
    and t: "task_at (deliver s) k = Some t" "df_stop_reason t = SrNone" "is_runnable (arcs (deliver s)) t"
  shows "beat_slot p body k any s =
     (case run_prog p (body (df_future t) (df_flags t) (user s)) (started p k t (deliver s)) of
        (Inl e, s') \<Rightarrow> (Inl e, ended p k s')
      | (Inr x, s') \<Rightarrow> (Inr True, finished p k x s'))"
proof -
  have inv1: "alg_idle p (deliver s)" using inv by simp
  note poll = poll_task_eq [OF inv1 t(1), of body]
  have start: "alg_inv p (Suc 0) (Some k) (Some k) (started p k t (deliver s))"
    by (rule started_inv [OF inv1 t(1)])
  have rem: "remove_task p k (ended p k s') = (Inr (), removed p k (ended p k s'))"
    if "run_prog p (body (df_future t) (df_flags t) (user s)) (started p k t (deliver s)) = (Inr x, s')" for x s'
  proof -
    have "alg_inv p (Suc 0) (Some k) (Some k) s'"
      using wpx_InrD [OF run_prog_ok [OF start zero_less_usize(2)] that] by (simp add: call_ok_def)
    then show ?thesis using ended_inv [of p k s'] by (intro remove_task_eq) auto
  qed
  obtain r s' where run: "run_prog p (body (df_future t) (df_flags t) (user s)) (started p k t (deliver s)) = (r, s')"
    by fastforce
  show ?thesis
  proof (cases r)
    case (Inr x)
    then show ?thesis
      using t rem run by (cases x) (simp_all add: beat_slot_eq [OF inv] poll Let_def finished_def bind_exec_def return_exec_def)
  qed (use t run in \<open>simp add: beat_slot_eq [OF inv] poll Let_def bind_exec_def\<close>)
qed


subsection \<open>Relations that a poll respects\<close>

text \<open>
  A relation \<open>R\<close> between the states before and after, and a condition \<open>F\<close> on panics, hold of a whole
  poll of the scheduler once they hold of one run of one task's code.
\<close>

definition raised :: "('f, 'u) alg \<Rightarrow> ('f, 'u) alg \<Rightarrow> bool" where
  "raised s s' \<longleftrightarrow> list_all2 (\<longrightarrow>) (arcs s) (arcs s')"

lemma raised_refl: "arcs s' = arcs s \<Longrightarrow> raised s s'"
  by (simp add: raised_def list.rel_refl)

lemma raised_trans: "raised s s' \<Longrightarrow> raised s' s'' \<Longrightarrow> raised s s''"
  unfolding raised_def by (rule list_all2_trans) auto

lemma wake_raised: "raised s (wake v s)"
  unfolding raised_def list_all2_conv_all_nth
  by (simp, metis length_list_update list_update_beyond not_less nth_list_update_eq nth_list_update_neq)

lemma wakes_raised: "raised s (fold wake ws s)"
  by (induction ws arbitrary: s) (auto intro: raised_refl raised_trans [OF wake_raised])

lemma deliver_raised: "raised s (deliver s)"
  using wakes_raised [of "s\<lparr>external := _\<rparr>"] by (simp add: deliver_def raised_def raised_refl list.rel_refl split: list.split)

locale poll_relation =
  fixes p :: profile
    and body :: "('f, 'u) body"
    and R :: "('f, 'u) alg \<Rightarrow> ('f, 'u) alg \<Rightarrow> bool"
    and F :: "('f, 'u) alg \<Rightarrow> panic \<Rightarrow> bool"
  assumes R_trans: "R s s' \<Longrightarrow> R s' s'' \<Longrightarrow> R s s''"
    and F_mono: "R s s' \<Longrightarrow> F s' e \<Longrightarrow> F s e"
    and R_outer: "registry s' = registry s \<Longrightarrow> suspended_count s' = suspended_count s \<Longrightarrow>
      polled s' = polled s \<Longrightarrow> raised s s' \<Longrightarrow> R s s'"
    and R_cancelled: "alg_idle p s \<Longrightarrow> state_at s k = Cancelled \<Longrightarrow> R s (removed p k s)"
    and R_run: "alg_idle p s \<Longrightarrow> task_at s k = Some t \<Longrightarrow> df_stop_reason t = SrNone \<Longrightarrow>
      wpx (run_prog p (body (df_future t) (df_flags t) (user s)))
        (\<lambda>x s'. R s (finished p k x s')) (\<lambda>e _. F s e) (started p k t s)"
begin

lemma R_refl: "R s s"
  by (rule R_outer) (simp_all add: raised_refl)

lemma R_deliver: "R s (deliver s)"
  by (rule R_outer) (simp_all add: deliver_raised)

lemma slot_rel:
  assumes inv: "alg_idle p s"
  shows "wpx (beat_slot p body k any) (\<lambda>_ s'. R s s') (\<lambda>e _. F s e) s"
proof (cases "state_at (deliver s) k = Runnable")
  case True
  then obtain t where t: "task_at (deliver s) k = Some t" "df_stop_reason t = SrNone" "is_runnable (arcs (deliver s)) t"
    by (auto simp: state_at_Runnable)
  note d = R_deliver [of s]
  have "wpx (run_prog p (body (df_future t) (df_flags t) (user s)))
        (\<lambda>x s'. R (deliver s) (finished p k x s')) (\<lambda>e _. F (deliver s) e) (started p k t (deliver s))"
    using R_run [OF _ t(1,2)] inv by simp
  then show ?thesis
    using R_trans [OF d] F_mono [OF d]
    by (auto simp: wpx_def beat_slot_poll_eq [OF inv t] split: prod.splits sum.splits)
next
  case False
  have "R s (quiet_slot p k s)"
    using inv R_deliver [of s] R_trans [OF _ R_cancelled, of s "deliver s" k] by (simp add: quiet_slot_def Let_def)
  then show ?thesis by (simp add: wpx_def beat_slot_quiet [OF inv False])
qed

lemma loop_rel:
  assumes "alg_idle p s"
  shows "wpx (beat_loop p body ks any) (\<lambda>_ s'. R s s') (\<lambda>e _. F s e) s"
  using assms
proof (induction ks arbitrary: any s)
  case (Cons k ks)
  show ?case
    unfolding beat_loop.simps wpx_bind
  proof (rule wpx_mono [OF wpx_conj [OF slot_rel [OF Cons.prems] beat_slot_inv [OF Cons.prems]]])
    fix x s1
    assume a: "R s s1 \<and> alg_idle p s1 \<and> registry_capacity (registry s) \<le> registry_capacity (registry s1)
        \<and> length (woken s) \<le> length (woken s1)
        \<and> ((x \<and> polled s1 = polled s @ [k]) \<or> (x = any \<and> polled s1 = polled s \<and> s1 = quiet_slot p k s
              \<and> state_at (deliver s) k \<noteq> Runnable))"
    show "wpx (beat_loop p body ks x) (\<lambda>_ s'. R s s') (\<lambda>e _. F s e) s1"
      by (rule wpx_mono [OF Cons.IH]) (use a R_trans F_mono in blast)+
  qed simp
qed (simp add: R_refl)

lemma beat_rel:
  "alg_idle p s \<Longrightarrow> wpx (beat_once p body) (\<lambda>_ s'. R s s') (\<lambda>e _. F s e) s"
  using loop_rel by (simp add: beat_once_def)

lemma beat_both:
  assumes "alg_idle p s"
  shows "wpx (beat_once p body) (\<lambda>_ s'. R s s' \<and> alg_idle p s') (\<lambda>e _. F s e) s"
  by (rule wpx_mono [OF wpx_conj [OF beat_rel [OF assms] beat_once_inv [OF assms]]])
     (auto simp: beat_post_def Let_def)

text \<open>An iteration over any beat that respects the relation, and the loop over any such iteration.\<close>

lemma iteration_rel:
  assumes inv: "alg_idle p s"
    and beat: "\<And>s. alg_idle p s \<Longrightarrow> wpx beat (\<lambda>_ s'. R s s' \<and> alg_idle p s') (\<lambda>e _. F s e) s"
  shows "wpx (bind_exec beat (\<lambda>any.
     if any then return_exec None
     else
       bind_exec (modify_exec (\<lambda>s. snd (waker_register w (deliver s)))) (\<lambda>_.
       bind_exec beat (\<lambda>any'.
       bind_exec (modify_exec deliver) (\<lambda>_.
       if \<not> any' then
         bind_exec (gets_exec (\<lambda>s. (registered_count s, suspended_count s))) (\<lambda>(cnt, sus).
         if cnt = 0 \<or> cnt = sus then
           bind_exec (modify_exec (\<lambda>s. snd (waker_clear s))) (\<lambda>_. return_exec (Some (Ready (cnt = 0))))
         else return_exec (Some Pending))
       else
         bind_exec (modify_exec (\<lambda>s. snd (waker_clear s))) (\<lambda>_. return_exec None))))))
    (\<lambda>_ s'. R s s' \<and> alg_idle p s') (\<lambda>e _. F s e) s"
proof (subst wpx_bind, rule wpx_mono [OF beat [OF inv]], goal_cases)
  case a: (1 any s1)
  let ?s1 = "snd (waker_register w (deliver s1))"
  have "R s1 ?s1"
    by (rule R_outer) (use deliver_raised [of s1] in \<open>simp_all add: waker_register_def raised_def\<close>)
  then have r1: "R s ?s1" using a R_trans by blast
  have i1: "alg_idle p ?s1" using a by (simp add: waker_register_def)
  have fin: "R s (deliver s2) \<and> alg_idle p (deliver s2)" "R s (snd (waker_clear (deliver s2))) \<and> alg_idle p (snd (waker_clear (deliver s2)))"
    if "R ?s1 s2 \<and> alg_idle p s2" for s2
    using R_trans [OF R_trans [OF r1] R_deliver, of s2] that
      R_trans [OF R_trans [OF r1] R_outer, of s2 "snd (waker_clear (deliver s2))"] deliver_raised [of s2]
    by (simp_all add: waker_clear_def raised_def)
  have step: "wpx beat (\<lambda>x s2. (R s (deliver s2) \<and> alg_idle p (deliver s2))
      \<and> R s (snd (waker_clear (deliver s2))) \<and> alg_idle p (snd (waker_clear (deliver s2)))) (\<lambda>e _. F s e) ?s1"
    by (rule wpx_mono [OF beat [OF i1]]) (use fin F_mono [OF r1] in blast)+
  show ?case
    using a by (auto intro!: wpx_mono [OF step])
qed simp

lemma iter_rel:
  "alg_idle p s \<Longrightarrow> wpx (poll_iter p body w) (\<lambda>_ s'. R s s' \<and> alg_idle p s') (\<lambda>e _. F s e) s"
  unfolding poll_iter_def by (intro iteration_rel beat_both)

lemma until_rel:
  assumes it: "\<And>s. alg_idle p s \<Longrightarrow> wpx it (\<lambda>_ s'. R s s' \<and> alg_idle p s') (\<lambda>e _. F s e) s"
    and "alg_idle p s" and "until_some it n s = Some res"
  shows "case res of (Inl e, _) \<Rightarrow> F s e | (Inr _, s') \<Rightarrow> R s s'"
  using assms(2,3)
proof (induction n arbitrary: s)
  case (Suc n)
  obtain x s1 where i: "it s = (x, s1)" by fastforce
  note post = it [OF Suc.prems(1), unfolded wpx_def i]
  show ?case
  proof (cases "x = Inr None")
    case True
    then have "case res of (Inl e, _) \<Rightarrow> F s1 e | (Inr _, s') \<Rightarrow> R s1 s'"
      using Suc.IH [of s1] Suc.prems(2) post i by auto
    then show ?thesis
      using post True R_trans F_mono by (fastforce split: prod.splits sum.splits)
  next
    case False
    then show ?thesis using Suc.prems(2) i post by (auto split: sum.splits option.splits)
  qed
qed simp

lemma poll_rel:
  assumes "alg_idle p s" and "poll_loop p body w n s = Some res"
  shows "case res of (Inl e, _) \<Rightarrow> F s e | (Inr _, s') \<Rightarrow> R s s'"
  using until_rel [OF iter_rel assms(1)] assms(2) by (simp add: poll_loop_until)

end

subsection \<open>The count stays exact\<close>

definition tame :: "('f, 'u) body \<Rightarrow> bool" where
  "tame body \<longleftrightarrow> (\<forall>f w u. pends False (body f w u))"

definition exact_rel :: "('f, 'u) body \<Rightarrow> ('f, 'u) alg \<Rightarrow> ('f, 'u) alg \<Rightarrow> bool" where
  "exact_rel body s s' \<longleftrightarrow> (tame body \<longrightarrow> exact s \<longrightarrow> exact s')"

definition exact_panic :: "('f, 'u) body \<Rightarrow> ('f, 'u) alg \<Rightarrow> panic \<Rightarrow> bool" where
  "exact_panic body s e \<longleftrightarrow> (tame body \<longrightarrow> exact s \<longrightarrow> out_of_memory e \<or> e = UserPanic)"

lemma started_suspended:
  assumes inv: "alg_idle p s"
  shows "suspended_keys (started p k t s) = suspended_keys s" "suspended_count (started p k t s) = suspended_count s"
proof -
  let ?s1 = "(add_ref p s)\<lparr>current := Some k, polled := polled s @ [k]\<rparr>"
  have i: "alg_inv p (Suc 0) (Some k) None ?s1" by (rule current_inv(1) [OF add_ref_inv [OF inv]])
  have "suspended_keys (modify_task k (set_polling True) ?s1) = suspended_keys ?s1"
    by (rule suspended_keys_modify [OF i]) simp
  moreover have "suspended_keys ?s1 = suspended_keys s"
    using add_ref_fields(7) [of p s] by (simp add: suspended_keys_def)
  ultimately show "suspended_keys (started p k t s) = suspended_keys s"
    by (simp add: started_def suspended_keys_def)
  show "suspended_count (started p k t s) = suspended_count s" by (simp add: started_def)
qed

lemma finished_suspended:
  assumes inv: "alg_inv p (Suc 0) (Some k) (Some k) s"
  shows "suspended_keys (finished p k x s) = (if x = None then suspended_keys s - {k} else suspended_keys s)"
    and "suspended_count (finished p k x s) = suspended_count s"
proof -
  have e: "suspended_keys (ended p k s') = suspended_keys s'" if "alg_inv p (Suc 0) (Some k) (Some k) s'" for s' :: "('f, 'u) alg"
    using ended_inv(2) [OF that] by (auto simp: suspended_keys_def)
  have f: "alg_inv p (Suc 0) (Some k) (Some k) (modify_task k (\<lambda>t. t\<lparr>df_future := f\<rparr>) s)" for f
    using modify_task_inv [OF inv, of "\<lambda>t. t\<lparr>df_future := f\<rparr>" k "suspended_count s"] alg_inv_count [OF inv]
      suspended_keys_modify [OF inv, of "\<lambda>t. t\<lparr>df_future := f\<rparr>" k] by simp
  show "suspended_keys (finished p k x s) = (if x = None then suspended_keys s - {k} else suspended_keys s)"
    using suspended_keys_modify [OF inv] e [OF inv] e [OF f] ended_inv(1) [OF inv]
    by (simp add: finished_def suspended_keys_removed split: option.split)
  show "suspended_count (finished p k x s) = suspended_count s"
    by (simp add: finished_def ended_def split: option.split)
qed

interpretation count: poll_relation p body "exact_rel body" "exact_panic body"
  for p body
proof unfold_locales
  fix s s' :: "('a, 'b) alg"
  show "exact_rel body s s'"
    if "registry s' = registry s" "suspended_count s' = suspended_count s" "polled s' = polled s" "raised s s'"
    using exact_cong [OF that(1,2)] by (simp add: exact_rel_def)
next
  fix s :: "('a, 'b) alg" and k
  assume inv: "alg_idle p s" and c: "state_at s k = Cancelled"
  have "k \<notin> suspended_keys s" using c by (auto simp: state_at_Cancelled suspended_keys_def)
  then show "exact_rel body s (removed p k s)"
    by (simp add: exact_rel_def exact_def suspended_keys_removed [OF inv])
next
  fix s :: "('a, 'b) alg" and k t
  assume inv: "alg_idle p s" and t: "task_at s k = Some t" "df_stop_reason t = SrNone"
  let ?pr = "body (df_future t) (df_flags t) (user s)"
  let ?s = "started p k t s"
  note st = started_inv [OF inv t(1)]
  have k: "k \<notin> suspended_keys ?s" using t unfolding started_suspended(1) [OF inv] by (auto simp: suspended_keys_def)
  show "wpx (run_prog p ?pr) (\<lambda>x s'. exact_rel body s (finished p k x s')) (\<lambda>e _. exact_panic body s e) ?s"
  proof (cases "tame body \<and> exact s")
    case True
    then have ex: "exact ?s" and pd: "pends False ?pr"
      by (simp_all add: exact_def started_suspended [OF inv] tame_def)
    show ?thesis
      by (rule wpx_mono [OF wpx_conj [OF run_prog_ok [OF st] wpx_conj
              [OF run_prog_exact [OF st _ ex] run_prog_unsuspended [OF st _ pd]]]])
         (use k in \<open>auto simp: exact_rel_def exact_panic_def call_ok_def exact_def finished_suspended\<close>)
  next
    case False
    then show ?thesis by (auto simp: exact_rel_def exact_panic_def wpx_def split: prod.split sum.split)
  qed
qed (auto simp: exact_rel_def exact_panic_def)


subsection \<open>Termination\<close>

text \<open>
  A weight \<open>w\<close> of the futures bounds the polls when every poll of a future leaves less weight than
  the future had: in the future it becomes, if it is pending, and the futures it spawned.
\<close>

primrec spends :: "('f \<Rightarrow> nat) \<Rightarrow> nat \<Rightarrow> ('f, 'u) prog \<Rightarrow> bool" where
  "spends w n (PReady u) = True"
| "spends w n (PPending f u) = (w f \<le> n)"
| "spends w n (PPanic u) = True"
| "spends w n (PCall c k) =
     (case c of
        CallSpawn sp f \<Rightarrow> w f \<le> n \<and> (\<forall>r. spends w (n - w f) (k r))
      | _ \<Rightarrow> \<forall>r. spends w n (k r))"

definition bounded_by :: "('f \<Rightarrow> nat) \<Rightarrow> ('f, 'u) body \<Rightarrow> bool" where
  "bounded_by w body \<longleftrightarrow> (\<forall>f v u. 0 < w f \<and> spends w (w f - 1) (body f v u))"

definition wsum :: "('f \<Rightarrow> nat) \<Rightarrow> (nat \<Rightarrow> 'f option) \<Rightarrow> nat" where
  "wsum w m = (\<Sum>j \<in> dom m. w (the (m j)))"

definition futures :: "('f, 'u) alg \<Rightarrow> nat \<Rightarrow> 'f option" where
  "futures s j = map_option df_future (task_at s j)"

definition weight :: "('f \<Rightarrow> nat) \<Rightarrow> ('f, 'u) alg \<Rightarrow> nat" where
  "weight w s = wsum w (futures s)"

lemma dom_futures [simp]: "dom (futures s) = dom (task_at s)"
  by (auto simp: futures_def)

lemma finite_futures: "alg_inv p b c q s \<Longrightarrow> finite (dom (futures s))"
  using reg.finite_view [of p b "registry s"] by (simp add: alg_inv_def)

lemma wsum_upd:
  assumes "finite (dom m)"
  shows "wsum w (m(k \<mapsto> f)) = w f + wsum w (m(k := None))"
proof -
  have "wsum w (m(k \<mapsto> f)) = w f + (\<Sum>j \<in> dom m - {k}. w (the ((m(k \<mapsto> f)) j)))"
    using assms by (simp add: wsum_def sum.insert_remove)
  also have "(\<Sum>j \<in> dom m - {k}. w (the ((m(k \<mapsto> f)) j))) = wsum w (m(k := None))"
    unfolding wsum_def by (rule sum.cong) auto
  finally show ?thesis .
qed

lemma wsum_remove: "finite (dom m) \<Longrightarrow> m k = Some f \<Longrightarrow> wsum w m = w f + wsum w (m(k := None))"
  using wsum_upd [of m w k f] by (simp add: map_upd_triv)

lemma futures_stop:
  "alg_inv p b c q s \<Longrightarrow> futures (modify_task k (set_stop_reason r) s) = futures s"
  by (auto simp: futures_def task_at_modify fun_eq_iff option.map_comp comp_def)

lemma futures_fields [simp]:
  "futures (s\<lparr>suspended_count := n\<rparr>) = futures s" "futures (s\<lparr>user := u\<rparr>) = futures s"
  "futures (s\<lparr>last_waker := w\<rparr>) = futures s"
  by (simp_all add: futures_def fun_eq_iff)

lemma exec_call_futures:
  assumes inv: "alg_inv p b c q s" and b: "b < usize_MAX"
  shows "wpx (exec_call p call)
     (\<lambda>_ s'. case call of
        CallSpawn sp f \<Rightarrow> \<exists>k. futures s k = None \<and> futures s' = (futures s)(k \<mapsto> f)
      | _ \<Rightarrow> futures s' = futures s) (\<lambda>_ _. True) s"
proof (cases call)
  case (CallSpawn sp fut)
  then show ?thesis
    by (auto intro!: wpx_mono [OF spawn_task_ok [OF inv]] simp: spawned_def futures_def fun_eq_iff)
next
  case (CallWake w)
  then show ?thesis by (simp add: futures_def fun_eq_iff)
next
  case (CallCancel j)
  show ?thesis using CallCancel
    by (auto simp: wpx_def bind_exec_def return_exec_def cancel_eq [OF inv b] stop_write_def futures_stop [OF inv]
        split: option.split stop_reason.split sum.split prod.split)
next
  case (CallSuspend j)
  show ?thesis using CallSuspend
    by (auto simp: wpx_def bind_exec_def return_exec_def suspend_eq [OF inv b] stop_write_def futures_stop [OF inv]
        split: option.split stop_reason.split sum.split prod.split)
next
  case (CallResume j)
  show ?thesis using CallResume
    by (auto simp: wpx_def bind_exec_def return_exec_def resume_eq [OF inv b] stop_write_def futures_stop [OF inv]
        split: option.split stop_reason.split sum.split prod.split)
qed (simp_all add: wpx_def bind_exec_def return_exec_def gets_exec_def get_state_eq [OF inv b]
       with_name_eq [OF inv b] get_by_name_eq [OF inv b])


lemma run_prog_weight:
  assumes "alg_inv p b c (Some k) s" and b: "b < usize_MAX" and "spends w n pr"
  shows "wpx (run_prog p pr)
     (\<lambda>x s'. wsum w ((futures s')(k := None)) + (case x of None \<Rightarrow> 0 | Some f \<Rightarrow> w f)
           \<le> wsum w ((futures s)(k := None)) + n) (\<lambda>_ _. True) s"
  using assms(1,3)
proof (induction pr arbitrary: s n)
  case (PCall call cont)
  let ?rest = "\<lambda>s. wsum w ((futures s)(k := None))"
  have fin: "finite (dom ((futures s)(k := None)))" using finite_futures [OF PCall.prems(1)] by simp
  have k: "futures s k \<noteq> None" using PCall.prems(1) by (auto simp: alg_inv_def futures_def)
  have step: "\<exists>m. spends w m (cont r) \<and> ?rest s1 + m \<le> ?rest s + n"
    if "case call of CallSpawn sp f \<Rightarrow> \<exists>j. futures s j = None \<and> futures s1 = (futures s)(j \<mapsto> f)
        | _ \<Rightarrow> futures s1 = futures s" for r s1
  proof (cases "\<exists>sp f. call = CallSpawn sp f")
    case True
    then obtain sp f j where c: "call = CallSpawn sp f" and j: "futures s j = None" "futures s1 = (futures s)(j \<mapsto> f)"
      using \<open>case call of CallSpawn sp f \<Rightarrow> _ sp f | _ \<Rightarrow> _\<close> by auto
    then have "j \<noteq> k" using k by auto
    then have "(futures s1)(k := None) = ((futures s)(k := None))(j \<mapsto> f)" by (simp add: j fun_upd_twist)
    moreover have "((futures s)(k := None))(j := None) = (futures s)(k := None)" using j \<open>j \<noteq> k\<close> by auto
    ultimately have "?rest s1 = w f + ?rest s" using wsum_upd [OF fin, of w j f] by simp
    then show ?thesis using PCall.prems(2) c by (intro exI [of _ "n - w f"]) auto
  next
    case False
    then show ?thesis
      using that PCall.prems(2) by (intro exI [of _ n]) (auto split: hcall.splits)
  qed
  have "wpx (exec_call p call) (\<lambda>x s1. call_ok p b c (Some k) s x s1 \<and>
      (case call of CallSpawn sp f \<Rightarrow> \<exists>j. futures s j = None \<and> futures s1 = (futures s)(j \<mapsto> f)
        | _ \<Rightarrow> futures s1 = futures s)) (\<lambda>e s1. call_panic p b c (Some k) s e s1 \<and> True) s"
    by (rule wpx_conj [OF exec_call_ok exec_call_futures]) (use PCall.prems b in auto)
  then show ?case
    unfolding run_prog.simps wpx_bind
  proof (rule wpx_mono, goal_cases)
    case (1 r s1)
    then obtain m where m: "spends w m (cont r)" "?rest s1 + m \<le> ?rest s + n" using step by blast
    have "wpx (run_prog p (cont r)) (\<lambda>x s'. ?rest s' + (case x of None \<Rightarrow> 0 | Some f \<Rightarrow> w f) \<le> ?rest s1 + m)
        (\<lambda>_ _. True) s1"
      by (rule PCall.IH) (use 1 m in \<open>simp_all add: call_ok_def\<close>)
    then show ?case by (rule wpx_mono) (use m(2) in linarith)+
  qed simp
qed simp_all

definition weight_rel :: "('f \<Rightarrow> nat) \<Rightarrow> ('f, 'u) body \<Rightarrow> ('f, 'u) alg \<Rightarrow> ('f, 'u) alg \<Rightarrow> bool" where
  "weight_rel w body s s' \<longleftrightarrow>
     (bounded_by w body \<longrightarrow> weight w s' + length (polled s') \<le> weight w s + length (polled s))"

lemma run_prog_polled:
  assumes "alg_inv p b c q s" and "b < usize_MAX"
  shows "wpx (run_prog p pr) (\<lambda>_ s'. polled s' = polled s \<and> alg_inv p b c q s') (\<lambda>_ _. True) s"
  by (rule wpx_mono [OF run_prog_ok [OF assms]]) (auto simp: call_ok_def frame_def)

lemma started_futures:
  assumes inv: "alg_idle p s" and t: "task_at s k = Some t"
  shows "futures (started p k t s) = futures s" "polled (started p k t s) = polled s @ [k]"
proof -
  let ?s1 = "(add_ref p s)\<lparr>current := Some k, polled := polled s @ [k]\<rparr>"
  have i: "alg_inv p (Suc 0) (Some k) None ?s1" by (rule current_inv(1) [OF add_ref_inv [OF inv]])
  have v: "task_at ?s1 = task_at s" using add_ref_fields(7) [of p s] by simp
  show "futures (started p k t s) = futures s"
    using t task_at_modify [OF i, of k "set_polling True"] v
    by (auto simp: started_def futures_def fun_eq_iff)
  show "polled (started p k t s) = polled s @ [k]" by (simp add: started_def)
qed

lemma finished_futures:
  assumes inv: "alg_inv p (Suc 0) (Some k) (Some k) s"
  shows "futures (finished p k x s) = (futures s)(k := x)" "polled (finished p k x s) = polled s"
proof -
  have e: "futures (ended p k s') = futures s'" if "alg_inv p (Suc 0) (Some k) (Some k) s'" for s' :: "('f, 'u) alg"
    using ended_inv(2) [OF that] by (auto simp: futures_def fun_eq_iff option.map_comp comp_def)
  have f: "alg_inv p (Suc 0) (Some k) (Some k) (modify_task k (\<lambda>t. t\<lparr>df_future := f\<rparr>) s)" for f
    using modify_task_inv [OF inv, of "\<lambda>t. t\<lparr>df_future := f\<rparr>" k "suspended_count s"] alg_inv_count [OF inv]
      suspended_keys_modify [OF inv, of "\<lambda>t. t\<lparr>df_future := f\<rparr>" k] by simp
  have g: "futures (modify_task k (\<lambda>t. t\<lparr>df_future := f\<rparr>) s) = (futures s)(k \<mapsto> f)" for f
    using ended_inv(3) [OF inv] by (auto simp: futures_def fun_eq_iff task_at_modify [OF inv])
  have r: "futures (removed p k (ended p k s)) = (futures s)(k := None)"
    using removed_view(1) [OF ended_inv(1) [OF inv]] e [OF inv] by (auto simp: futures_def fun_eq_iff)
  show "futures (finished p k x s) = (futures s)(k := x)"
    using e [OF f] g r by (simp add: finished_def split: option.split)
  show "polled (finished p k x s) = polled s"
    by (simp add: finished_def ended_def split: option.split)
qed


interpretation weights: poll_relation p body "weight_rel w body" "\<lambda>_ _. True"
  for p body w
proof unfold_locales
  fix s s' :: "('a, 'b) alg"
  show "weight_rel w body s s'"
    if "registry s' = registry s" "suspended_count s' = suspended_count s" "polled s' = polled s" "raised s s'"
  proof -
    have "futures s' = futures s" using that(1) by (simp add: futures_def fun_eq_iff)
    then show ?thesis using that by (simp add: weight_rel_def weight_def)
  qed
next
  fix s :: "('a, 'b) alg" and k
  assume inv: "alg_idle p s" and c: "state_at s k = Cancelled"
  have "futures (removed p k s) = (futures s)(k := None)"
    using removed_view(1) [OF inv, of k] by (auto simp: futures_def fun_eq_iff)
  moreover obtain f where "futures s k = Some f" using c by (auto simp: state_at_Cancelled futures_def)
  ultimately show "weight_rel w body s (removed p k s)"
    using wsum_remove [OF finite_futures [OF inv], of k f w] by (simp add: weight_rel_def weight_def)
next
  fix s :: "('a, 'b) alg" and k t
  assume inv: "alg_idle p s" and t: "task_at s k = Some t" "df_stop_reason t = SrNone"
  let ?pr = "body (df_future t) (df_flags t) (user s)"
  let ?s = "started p k t s"
  note st = started_inv [OF inv t(1)]
  note fs = started_futures [OF inv t(1)]
  have all: "weight w s = w (df_future t) + wsum w ((futures s)(k := None))"
    using wsum_remove [OF finite_futures [OF inv], of k "df_future t" w] t by (simp add: weight_def futures_def)
  show "wpx (run_prog p ?pr) (\<lambda>x s'. weight_rel w body s (finished p k x s')) (\<lambda>_ _. True) ?s"
  proof (cases "bounded_by w body")
    case True
    then have sp: "spends w (w (df_future t) - 1) ?pr" and pos: "0 < w (df_future t)" by (auto simp: bounded_by_def)
    show ?thesis
    proof (rule wpx_mono [OF wpx_conj [OF run_prog_weight [OF st zero_less_usize(2) sp]
            run_prog_polled [OF st zero_less_usize(2)]]], goal_cases)
      case (1 x s')
      then have inv': "alg_inv p (Suc 0) (Some k) (Some k) s'" by simp
      have "weight w (finished p k x s') = wsum w ((futures s')(k := None)) + (case x of None \<Rightarrow> 0 | Some f \<Rightarrow> w f)"
        using wsum_upd [OF finite_futures [OF inv'], of w k]
        by (simp add: weight_def finished_futures [OF inv'] split: option.split)
      then show ?case
        using 1 pos by (auto simp: weight_rel_def finished_futures [OF inv'] fs all)
    qed simp
  next
    case False
    then show ?thesis by (simp add: weight_rel_def wpx_def split: prod.split sum.split)
  qed
qed (auto simp: weight_rel_def)

lemma poll_loop_terminates:
  assumes inv: "alg_idle p s" and w: "bounded_by w body" and n: "weight w s < n"
  shows "\<exists>res. poll_loop p body v n s = Some res"
  unfolding poll_loop_until
proof (rule until_some_ends [where I = "alg_idle p" and m = "weight w", OF _ inv n])
  fix s :: "('a, 'b) alg"
  assume inv: "alg_idle p s"
  show "wpx (poll_iter p body v) (\<lambda>x s'. alg_idle p s' \<and> (x = None \<longrightarrow> weight w s' < weight w s)) (\<lambda>_ _. True) s"
  proof (rule wpx_mono [OF wpx_conj [OF weights.iter_rel [OF inv, of body v w] poll_iter_ok [OF inv]]], goal_cases)
    case (1 x s')
    then obtain ps where ps: "polled s' = polled s @ ps" "ps = [] \<longleftrightarrow> x \<noteq> None" by (auto simp: iter_post_def)
    have "weight w s' + length ps \<le> weight w s" using 1 w ps by (simp add: weight_rel_def)
    moreover have "x = None \<longrightarrow> 0 < length ps" using ps(2) by auto
    ultimately have "x = None \<longrightarrow> weight w s' < weight w s" by linarith
    then show ?case using 1 by blast
  qed simp
qed

end
