(* ===== verification/Yield_Block.thy ===== *)
theory Yield_Block
  imports Scheduler_Count
begin

text \<open>
  \<open>src/yield_helper.rs\<close> and \<open>src/block.rs\<close>: the futures that give control back to the scheduler, and
  the loop that blocks on a future. A leaf future is polled in the world \<open>'u\<close>; the poll says whether
  the future is ready, what it becomes, the world after it and whether it woke its waker.
\<close>

subsection \<open>The yielding futures\<close>

type_synonym ('l, 'u) leaf = "'l \<Rightarrow> 'u \<Rightarrow> unit poll \<times> 'l \<times> 'u \<times> bool"

text \<open>\<open>Yield(bool)\<close>: \<open>Yield::once\<close> starts at \<open>False\<close>, \<open>Yield::none\<close> at \<open>True\<close>.\<close>

definition yield_once :: bool where "yield_once = False"
definition yield_none :: bool where "yield_none = True"

definition yield_poll :: "(bool, 'u) leaf" where
  "yield_poll y u = (if y then (Ready (), y, u, False) else (Pending, True, u, True))"

record yield_times = remaining :: nat

definition yield_times_new :: "nat \<Rightarrow> yield_times" where
  "yield_times_new n = \<lparr>remaining = n\<rparr>"

definition yield_times_poll :: "(yield_times, 'u) leaf" where
  "yield_times_poll y u =
     (if remaining y = 0 then (Ready (), y, u, False)
      else (Pending, y\<lparr>remaining := remaining y - 1\<rparr>, u, True))"

text \<open>\<open>YieldWhile(F)\<close>: the closure may change the world.\<close>

definition yield_while :: "('u \<Rightarrow> bool \<times> 'u) \<Rightarrow> ('u \<Rightarrow> bool \<times> 'u)" where
  "yield_while predicate = predicate"

definition yield_while_poll :: "('u \<Rightarrow> bool \<times> 'u, 'u) leaf" where
  "yield_while_poll func u =
     (case func u of (b, u') \<Rightarrow> if \<not> b then (Ready (), func, u', False) else (Pending, func, u', True))"

text \<open>A task that awaits a leaf and then returns: \<open>async move { leaf.await }\<close>.\<close>

definition await_body :: "('l, 'u) leaf \<Rightarrow> ('l, 'u) body" where
  "await_body leaf f w u =
     (case leaf f u of
        (Ready _, f', u', woke) \<Rightarrow> PReady u'
      | (Pending, f', u', woke) \<Rightarrow> if woke then PCall (CallWake w) (\<lambda>_. PPending f' u') else PPending f' u')"

subsection \<open>Blocking on a future\<close>

text \<open>
  \<open>block_on(future, on_pending, waker)\<close>: at most \<open>n\<close> polls; \<open>None\<close> when they are used up. The waker
  is part of \<open>poll\<close>'s closure, and \<open>spin_block_on\<close> passes one that does nothing.
\<close>

primrec block_on :: "('s, 'a poll) exec \<Rightarrow> ('s, unit) exec \<Rightarrow> nat \<Rightarrow> 's \<Rightarrow> ((panic + 'a) \<times> 's) option" where
  "block_on poll on_pending 0 s = None"
| "block_on poll on_pending (Suc n) s =
     (case poll s of
        (Inl e, s') \<Rightarrow> Some (Inl e, s')
      | (Inr (Ready v), s') \<Rightarrow> Some (Inr v, s')
      | (Inr Pending, s') \<Rightarrow>
          (case on_pending s' of
             (Inl e, s'') \<Rightarrow> Some (Inl e, s'')
           | (Inr _, s'') \<Rightarrow> block_on poll on_pending n s''))"

definition spin_block_on :: "('s, 'a poll) exec \<Rightarrow> nat \<Rightarrow> 's \<Rightarrow> ((panic + 'a) \<times> 's) option" where
  "spin_block_on poll n s = block_on poll (return_exec ()) n s"

text \<open>A leaf as a future to block on: its state and the world; the wakes go to the no-op waker.\<close>

definition leaf_exec :: "('l, 'u) leaf \<Rightarrow> ('l \<times> 'u, unit poll) exec" where
  "leaf_exec leaf s = (case leaf (fst s) (snd s) of (r, f', u', woke) \<Rightarrow> (Inr r, (f', u')))"

text \<open>
  \<open>forever(future)\<close> (\<open>utils/mod.rs\<close>), an \<open>async fn\<close> that awaits the future and then panics; a poll after the panic
  panics again.
\<close>

datatype 'l forever = Awaiting 'l | Panicked

definition forever_poll :: "('l, 'u) leaf \<Rightarrow> ('l forever \<times> 'u, unit poll) exec" where
  "forever_poll leaf = (\<lambda>(fv, u).
     case fv of
       Panicked \<Rightarrow> (Inl (Panic ''`async fn` resumed after panicking''), (Panicked, u))
     | Awaiting f \<Rightarrow>
         (case leaf f u of
            (Ready _, f', u', woke) \<Rightarrow> (Inl (Panic ''Future was supposed to run forever :/''), (Panicked, u'))
          | (Pending, f', u', woke) \<Rightarrow> (Inr Pending, (Awaiting f', u'))))"

declare yield_once_def [run] yield_none_def [run] yield_poll_def [run] yield_times_new_def [run]
  yield_times_poll_def [run] yield_while_poll_def [run] await_body_def [run] spin_block_on_def [run]
  leaf_exec_def [run]

lemma block_on_numeral [run]:
  "block_on poll on_pending (numeral m) s =
     (case poll s of
        (Inl e, s') \<Rightarrow> Some (Inl e, s')
      | (Inr (Ready v), s') \<Rightarrow> Some (Inr v, s')
      | (Inr Pending, s') \<Rightarrow>
          (case on_pending s' of
             (Inl e, s'') \<Rightarrow> Some (Inl e, s'')
           | (Inr _, s'') \<Rightarrow> block_on poll on_pending (pred_numeral m) s''))"
  by (simp add: numeral_eq_Suc)

text \<open>The pending action runs once for every pending poll, here a counter in the world.\<close>

definition count_pending :: "('l \<times> nat, unit) exec" where
  "count_pending = modify_exec (\<lambda>(f, c). (f, Suc c))"

lemma leaf_times:
  "leaf_exec yield_times_poll (yield_times_new 0, u) = (Inr (Ready ()), (yield_times_new 0, u))"
  "leaf_exec yield_times_poll (yield_times_new (Suc n), u) = (Inr Pending, (yield_times_new n, u))"
  by (simp_all add: leaf_exec_def yield_times_poll_def yield_times_new_def)

lemma count_pending_eq: "count_pending (f, c) = (Inr (), (f, Suc c))"
  by (simp add: count_pending_def modify_exec_def)

lemma block_on_times:
  "block_on (leaf_exec yield_times_poll) count_pending (Suc n) (yield_times_new n, c)
     = Some (Inr (), (yield_times_new 0, c + n))"
proof (induction n arbitrary: c)
  case (Suc n)
  show ?case
    by (subst block_on.simps(2))
       (simp del: block_on.simps add: leaf_times count_pending_eq Suc.IH)
qed (simp add: leaf_times)

lemma block_on_mono:
  "block_on poll on_pending n s = Some res \<Longrightarrow> n \<le> m \<Longrightarrow> block_on poll on_pending m s = Some res"
proof (induction n arbitrary: m s)
  case (Suc n)
  then obtain m' where "m = Suc m'" "n \<le> m'" by (cases m) auto
  with Suc show ?case by (auto split: prod.splits sum.splits poll.splits)
qed simp

text \<open>\<open>forever\<close> never returns: blocking on it panics, after as many polls as the future takes.\<close>

lemma forever_never_ready: "fst (forever_poll leaf s) \<noteq> Inr (Ready v)"
  by (auto simp: forever_poll_def split: prod.splits forever.splits poll.splits)

lemma forever_panics:
  "spin_block_on (leaf_exec leaf) n (f, u) = Some (Inr (), (f', u')) \<Longrightarrow>
   spin_block_on (forever_poll leaf) n (Awaiting f, u) = Some (Inl (Panic ''Future was supposed to run forever :/''), (Panicked, u'))"
  unfolding spin_block_on_def
  by (induction n arbitrary: f u)
     (auto simp: leaf_exec_def forever_poll_def return_exec_def split: prod.splits poll.splits)

subsection \<open>A wheel of yielding tasks\<close>

text \<open>
  Tasks that wake themselves whenever they are pending (all three yields do) stay runnable, so a
  poll of the scheduler never waits for them.
\<close>

definition self_waking :: "('l, 'u) leaf \<Rightarrow> bool" where
  "self_waking leaf \<longleftrightarrow> (\<forall>f u f' u' woke. leaf f u = (Pending, f', u', woke) \<longrightarrow> woke)"

definition all_ready :: "('f, 'u) alg \<Rightarrow> bool" where
  "all_ready s \<longleftrightarrow> (\<forall>k t. task_at s k = Some t \<longrightarrow> df_stop_reason t = SrNone \<and> is_runnable (arcs s) t)"

lemma yields_self_waking: "self_waking yield_poll" "self_waking yield_times_poll" "self_waking yield_while_poll"
  by (auto simp: self_waking_def yield_poll_def yield_times_poll_def yield_while_poll_def
      split: if_splits prod.splits)

lemma is_runnable_raised: "raised s s' \<Longrightarrow> is_runnable (arcs s) t \<Longrightarrow> is_runnable (arcs s') t"
  by (auto simp: raised_def is_runnable_def list_all2_conv_all_nth)

lemma is_runnable_wake: "v < length (arcs s) \<Longrightarrow> df_flags t = v \<Longrightarrow> is_runnable (arcs (wake v s)) t"
  by (simp add: is_runnable_def)

definition yield_rel :: "('l, 'u) leaf \<Rightarrow> ('l, 'u) alg \<Rightarrow> ('l, 'u) alg \<Rightarrow> bool" where
  "yield_rel leaf s s' \<longleftrightarrow> (self_waking leaf \<longrightarrow> all_ready s \<longrightarrow> all_ready s')"

definition yield_panic :: "('l, 'u) leaf \<Rightarrow> ('l, 'u) alg \<Rightarrow> panic \<Rightarrow> bool" where
  "yield_panic leaf s e \<longleftrightarrow> \<not> (self_waking leaf \<and> all_ready s)"

lemma ended_fields [simp]: "arcs (ended p k s) = arcs s"
  by (simp add: ended_def)

lemma finished_arcs [simp]: "arcs (finished p k x s) = arcs s"
  by (simp add: finished_def split: option.split)

lemma await_ready:
  "leaf f u = (Ready r, f', u', woke) \<Longrightarrow> run_prog p (await_body leaf f v u) s = (Inr None, s\<lparr>user := u'\<rparr>)"
  by (simp add: await_body_def exec_defs)

lemma await_pending:
  assumes "self_waking leaf" and "leaf f u = (Pending, f', u', woke)"
  shows "run_prog p (await_body leaf f v u) s = (Inr (Some f'), (wake v s)\<lparr>user := u'\<rparr>)"
proof -
  have "woke" using assms unfolding self_waking_def by blast
  then show ?thesis using assms(2) by (simp add: await_body_def exec_defs)
qed

lemma started_view:
  assumes inv: "alg_idle p s" and t: "task_at s k = Some t"
  shows "task_at (started p k t s) = (task_at s)(k \<mapsto> set_polling True t)"
proof -
  let ?s1 = "(add_ref p s)\<lparr>current := Some k, polled := polled s @ [k]\<rparr>"
  have i: "alg_inv p (Suc 0) (Some k) None ?s1" by (rule current_inv(1) [OF add_ref_inv [OF inv]])
  have "task_at ?s1 = task_at s" using add_ref_fields(7) [of p s] by simp
  then show ?thesis
    using t task_at_modify [OF i, of k "set_polling True"] by (simp add: started_def)
qed

lemma finished_view:
  assumes inv: "alg_inv p (Suc 0) (Some k) (Some k) s" and t: "task_at s k = Some t"
  shows "task_at (finished p k x s) =
     (task_at s)(k := map_option (\<lambda>f. set_polling False (t\<lparr>df_future := f\<rparr>)) x)"
proof (cases x)
  case None
  then show ?thesis
    using removed_view(1) [OF ended_inv(1) [OF inv]] ended_inv(2) [OF inv] by (simp add: finished_def)
next
  case (Some f)
  have "alg_inv p (Suc 0) (Some k) (Some k) (modify_task k (\<lambda>t. t\<lparr>df_future := f\<rparr>) s)"
    using modify_task_inv [OF inv, of "\<lambda>t. t\<lparr>df_future := f\<rparr>" k "suspended_count s"] alg_inv_count [OF inv]
      suspended_keys_modify [OF inv, of "\<lambda>t. t\<lparr>df_future := f\<rparr>" k] by simp
  then show ?thesis
    using Some t ended_inv(2) [of p k "modify_task k (\<lambda>t. t\<lparr>df_future := f\<rparr>) s"]
    by (simp add: finished_def task_at_modify [OF inv])
qed

lemma await_slot:
  assumes inv: "alg_idle p s" and t: "task_at s k = Some t" "df_stop_reason t = SrNone"
    and ready: "all_ready s"
  shows "all_ready (finished p k None ((started p k t s)\<lparr>user := u'\<rparr>))"
    and "all_ready (finished p k (Some f) ((wake (df_flags t) (started p k t s))\<lparr>user := u'\<rparr>))"
proof -
  let ?s = "started p k t s"
  have st: "alg_inv p (Suc 0) (Some k) (Some k) ?s" by (rule started_inv [OF inv t(1)])
  have tk: "task_at ?s k = Some (set_polling True t)" by (simp add: started_view [OF inv t(1)])
  have fl: "flags_ok s" using inv by (simp add: alg_inv_def)
  have arc: "arcs ?s = (arcs s)[df_flags t := False]" by (simp add: started_def set_runnable_def)
  have keep: "is_runnable (arcs ?s) t'" if "task_at s j = Some t'" "j \<noteq> k" for j t'
  proof -
    have "df_flags t' \<noteq> df_flags t" using fl that t(1) by (auto simp: flags_ok_def)
    then show ?thesis using ready that by (auto simp: all_ready_def is_runnable_def arc)
  qed
  have own: "is_runnable (arcs (wake (df_flags t) ?s)) (set_polling False (t'\<lparr>df_future := f\<rparr>))"
    if "df_flags t' = df_flags t" for f t'
    using fl t(1) that by (auto simp: flags_ok_def is_runnable_def arc)
  show "all_ready (finished p k None (?s\<lparr>user := u'\<rparr>))"
  proof -
    have v: "task_at (finished p k None (?s\<lparr>user := u'\<rparr>)) = (task_at s)(k := None)"
      using finished_view [of p k "?s\<lparr>user := u'\<rparr>" "set_polling True t" None] st tk
      by (simp add: started_view [OF inv t(1)])
    show ?thesis using keep ready by (auto simp: all_ready_def v split: if_splits)
  qed
  show "all_ready (finished p k (Some f) ((wake (df_flags t) ?s)\<lparr>user := u'\<rparr>))"
  proof -
    have i: "alg_inv p (Suc 0) (Some k) (Some k) ((wake (df_flags t) ?s)\<lparr>user := u'\<rparr>)" using st by simp
    have v: "task_at (finished p k (Some f) ((wake (df_flags t) ?s)\<lparr>user := u'\<rparr>)) =
        (task_at s)(k \<mapsto> set_polling False (set_polling True t\<lparr>df_future := f\<rparr>))"
      using finished_view [OF i, of "set_polling True t" "Some f"] tk by (simp add: started_view [OF inv t(1)])
    show ?thesis
      using ready t own [of "set_polling True t" f] is_runnable_raised [OF wake_raised keep]
      by (auto simp: all_ready_def v split: if_splits)
  qed
qed

interpretation yields: poll_relation p "await_body leaf" "yield_rel leaf" "yield_panic leaf"
  for p leaf
proof unfold_locales
  fix s s' :: "('a, 'b) alg"
  show "yield_rel leaf s s'"
    if "registry s' = registry s" "suspended_count s' = suspended_count s" "polled s' = polled s" "raised s s'"
    using that(1) is_runnable_raised [OF that(4)] by (auto simp: yield_rel_def all_ready_def)
next
  fix s :: "('a, 'b) alg" and k
  assume "alg_idle p s" and "state_at s k = Cancelled"
  then show "yield_rel leaf s (removed p k s)"
    by (auto simp: yield_rel_def all_ready_def removed_view)
next
  fix s :: "('a, 'b) alg" and k t
  assume a: "alg_idle p s" "task_at s k = Some t" "df_stop_reason t = SrNone"
  let ?pr = "await_body leaf (df_future t) (df_flags t) (user s)"
  show "wpx (run_prog p ?pr) (\<lambda>x s'. yield_rel leaf s (finished p k x s')) (\<lambda>e _. yield_panic leaf s e) (started p k t s)"
  proof (cases "self_waking leaf \<and> all_ready s")
    case True
    obtain r f' u' woke where leaf: "leaf (df_future t) (user s) = (r, f', u', woke)"
      by (cases "leaf (df_future t) (user s)")
    show ?thesis
    proof (cases r)
      case Pending
      then show ?thesis
        using True leaf await_slot(2) [OF a] by (simp add: wpx_def await_pending yield_rel_def)
    next
      case (Ready x)
      then show ?thesis
        using True leaf await_slot(1) [OF a] by (simp add: wpx_def await_ready yield_rel_def)
    qed
  next
    case False
    then show ?thesis by (auto simp: yield_rel_def yield_panic_def wpx_def split: prod.split sum.split)
  qed
qed (auto simp: yield_rel_def yield_panic_def)


lemma await_bounded:
  assumes "\<And>f u f' u' woke. leaf f u = (Pending, f', u', woke) \<Longrightarrow> rank f' < rank f"
  shows "bounded_by (\<lambda>f. Suc (rank f)) (await_body leaf)"
  unfolding bounded_by_def
proof (intro allI conjI)
  fix f v u
  obtain r f' u' woke where leaf: "leaf f u = (r, f', u', woke)" by (cases "leaf f u")
  show "spends (\<lambda>f. Suc (rank f)) (Suc (rank f) - 1) (await_body leaf f v u)"
    using assms [of f u f' u' woke] leaf by (cases r) (simp_all add: await_body_def)
qed simp

lemma quiet_ready:
  assumes "all_ready s" and "quiet_run p ks s" and "k \<in> set ks"
  shows "task_at s k = None"
  using assms
proof (induction ks arbitrary: s)
  case (Cons j ks)
  have d: "all_ready (deliver s)"
    using Cons.prems(1) is_runnable_raised [OF deliver_raised] by (auto simp: all_ready_def)
  then have none: "task_at s j = None"
    using Cons.prems(2) by (cases "task_at s j") (simp_all add: all_ready_def state_at_Runnable)
  then have q: "quiet_slot p j s = deliver s" by (simp add: quiet_slot_def Let_def state_at_Cancelled)
  show ?case
  proof (cases "k = j")
    case False
    then have "task_at (deliver s) k = None"
      using Cons.prems(2,3) by (intro Cons.IH [OF d]) (simp_all add: q)
    then show ?thesis by simp
  qed (use none in simp)
qed simp

interpretation vacant: poll_relation p body
    "\<lambda>s s'. task_at s = Map.empty \<longrightarrow> task_at s' = Map.empty" "\<lambda>_ _. True"
  for p body
  by unfold_locales (auto simp: removed_view wpx_def split: prod.split sum.split)

lemma ready_iter:
  assumes inv: "alg_idle p s" and ready: "all_ready s"
  shows "wpx (poll_iter p body v) (\<lambda>x s'. x \<noteq> None \<longrightarrow> task_at s = Map.empty) (\<lambda>_ _. True) s"
proof -
  have "x \<or> task_at s = Map.empty" if "beat_post p s x s'" for x s'
  proof -
    have "task_at s k = None" if "quiet_run p [0..<registry_capacity (registry s)] s" for k
      using quiet_ready [OF ready that, of k] task_at_capacity [OF inv, of k] by fastforce
    then show ?thesis using that by (auto simp: beat_post_def Let_def)
  qed
  then show ?thesis
    unfolding poll_iter_def
    by (subst wpx_bind, intro wpx_mono [OF beat_once_inv [OF inv]]) (auto simp: wpx_def return_exec_def split: prod.splits sum.split)
qed

lemma all_ready_completes:
  assumes "alg_idle p s" and "all_ready s" and leaf: "self_waking leaf"
    and "poll_loop p (await_body leaf) v n s = Some res"
  shows "\<exists>s'. res = (Inr (Ready True), s') \<and> task_at s' = Map.empty"
  using assms(1,2,4)
proof (induction n arbitrary: s)
  case (Suc n)
  obtain x s1 where it: "poll_iter p (await_body leaf) v s = (x, s1)" by fastforce
  note rel = yields.iter_rel [OF Suc.prems(1), of leaf v, unfolded wpx_def it]
    and vac = vacant.iter_rel [OF Suc.prems(1), of "await_body leaf" v, unfolded wpx_def it]
    and inv = poll_iter_ok [OF Suc.prems(1), of "await_body leaf" v, unfolded wpx_def it]
    and rdy = ready_iter [OF Suc.prems(1,2), of "await_body leaf" v, unfolded wpx_def it]
  obtain r where r: "x = Inr r" "all_ready s1"
    using rel Suc.prems(2) leaf by (cases x) (auto simp: yield_panic_def yield_rel_def)
  show ?case
  proof (cases r)
    case None
    then show ?thesis
      using Suc.IH [of s1] Suc.prems(3) r inv it by (simp add: iter_post_def)
  next
    case (Some y)
    then have "task_at s1 = Map.empty" "outcome v (length (woken s)) y s1"
      using rdy vac inv r by (simp_all add: iter_post_def)
    then show ?thesis
      using Suc.prems(3) it r Some by (cases y) (auto simp: outcome_def split: if_splits)
  qed
qed simp

lemma yielding_poll:
  assumes "alg_idle p s" and "all_ready s" and "self_waking leaf"
    and "\<And>f u f' u' woke. leaf f u = (Pending, f', u', woke) \<Longrightarrow> rank f' < rank f"
  shows "\<exists>s'. poll_internal p (await_body leaf) w (Suc (weight (\<lambda>f. Suc (rank f)) s)) s = Some (Inr (Ready True), s')
    \<and> task_at s' = Map.empty"
proof -
  let ?s = "snd (waker_clear s)" and ?n = "Suc (weight (\<lambda>f. Suc (rank f)) s)"
  have idle: "alg_idle p ?s" by (rule clear_idle [OF assms(1)])
  have ready: "all_ready ?s" using assms(2) by (simp add: all_ready_def waker_clear_def)
  have bd: "bounded_by (\<lambda>f. Suc (rank f)) (await_body leaf)"
    by (rule await_bounded) (rule assms(4))
  have "weight (\<lambda>f. Suc (rank f)) ?s = weight (\<lambda>f. Suc (rank f)) s"
    by (simp add: weight_def waker_clear_def)
  then obtain res where res: "poll_loop p (await_body leaf) w ?n ?s = Some res"
    using poll_loop_terminates [OF idle bd, of ?n w] by auto
  with all_ready_completes [OF idle ready assms(3) res] show ?thesis by (auto simp: poll_internal_def)
qed

end
