(* ===== verification/Scheduler_Correct.thy ===== *)
theory Scheduler_Correct
  imports Yield_Block
begin

text \<open>
  The properties of the scheduler of \<open>src/dy/unordered_algorithm.rs\<close>: what a poll returns and leaves,
  that it returns, how it unwinds, in which order it polls, and what the operations of the handle do
  to the state of a task. The lemmas they rest on are in the theories this one imports.
\<close>

subsection \<open>Example states\<close>

text \<open>A scheduler with two yielding tasks, and one with a yielding and a suspended task.\<close>

definition two_yields :: "(yield_times, unit) alg" where
  "two_yields =
     snd (spawn_task Debug params_default (yield_times_new 1)
       (snd (spawn_task Debug params_default (yield_times_new 2) (alg_new () []))))"

definition one_suspended :: "(yield_times, unit) alg" where
  "one_suspended = snd (spawn_task Debug (params_suspended True) (yield_times_new 1) two_yields)"

lemma spawn_idle:
  assumes "alg_inv p b c q s" and "fst (spawn_task p sp f s) = Inr x"
  shows "alg_inv p b c q (snd (spawn_task p sp f s))"
  using wpx_InrD [OF spawn_task_ok [OF assms(1)], of sp f x "snd (spawn_task p sp f s)"] assms(2)
  by (cases "spawn_task p sp f s") auto

lemma two_yields_idle: "alg_idle Debug two_yields"
  unfolding two_yields_def
  by (rule spawn_idle [where x = "Some 1"], rule spawn_idle [where x = "Some 0"], rule alg_new_idle)
     (simp_all add: run cong: run_cong)

lemma one_suspended_idle: "alg_idle Debug one_suspended"
  unfolding one_suspended_def
  by (rule spawn_idle [where x = "Some 2", OF two_yields_idle])
     (simp add: run two_yields_def cong: run_cong)

lemma spawn_keeps_exact:
  assumes "alg_inv p b c q s" and "exact s" and "fst (spawn_task p sp f s) = Inr x"
  shows "exact (snd (spawn_task p sp f s))"
  using wpx_InrD [OF spawn_exact [OF assms(1,2)], of sp f x "snd (spawn_task p sp f s)"] assms(3)
  by (cases "spawn_task p sp f s") auto

lemma alg_new_exact: "exact (alg_new u ext)"
  by (simp add: exact_def suspended_keys_def alg_new_def alg_with_def)

lemma two_yields_exact: "exact two_yields"
  unfolding two_yields_def
  by (rule spawn_keeps_exact [where x = "Some 1" and p = Debug], rule spawn_idle [where x = "Some 0"], rule alg_new_idle,
      simp add: run cong: run_cong, rule spawn_keeps_exact [where x = "Some 0" and p = Debug], rule alg_new_idle,
      rule alg_new_exact)
     (simp_all add: run cong: run_cong)

lemma one_suspended_exact: "exact one_suspended"
  unfolding one_suspended_def
  by (rule spawn_keeps_exact [where x = "Some 2", OF two_yields_idle two_yields_exact])
     (simp add: run two_yields_def cong: run_cong)

text \<open>A task that waits for an event, one that panics, and a scheduler with one of them.\<close>

definition waiting_body :: "(unit, unit) body" where
  "waiting_body f w u = PPending f u"

definition panicking_body :: "(unit, unit) body" where
  "panicking_body f w u = PPanic u"

definition one_task :: "(unit, unit) alg" where
  "one_task = snd (spawn_task Debug params_default () (alg_new () []))"

lemma one_task_idle: "alg_idle Debug one_task"
  unfolding one_task_def
  by (rule spawn_idle [where x = "Some 0"], rule alg_new_idle) (simp add: run cong: run_cong)

lemma yield_times_bounded: "bounded_by (\<lambda>y. Suc (remaining y)) (await_body yield_times_poll)"
  by (rule await_bounded) (auto simp: yield_times_poll_def split: if_splits)

lemma two_yields_poll:
  "\<exists>s'. poll_internal Debug (await_body yield_times_poll) 7 4 two_yields = Some (Inr (Ready True), s')"
  by (simp add: run two_yields_def cong: run_cong)

lemma two_yields_ready: "all_ready two_yields"
  by (auto simp: all_ready_def two_yields_def run reg_view_def slab_view_def slab_flat_def entry_value_def
      nth_Cons' cong: run_cong split: if_splits)

subsection \<open>What a poll returns\<close>

text \<open>
  C1. A poll of the scheduler that returns leaves it consistent and without cancelled tasks.
  \<open>Ready(true)\<close> means that no task is left; \<open>Ready(false)\<close> that there are tasks and as many as the
  count of suspended ones; in both cases the outer waker is dropped. \<open>Pending\<close> means that there are
  tasks and not all are counted as suspended.
\<close>

theorem poll_outcome:
  assumes "alg_idle p s" and "poll_internal p body w n s = Some (Inr r, s')"
  shows "alg_idle p s' \<and> (\<forall>k. state_at s' k \<noteq> Cancelled)
    \<and> (case r of
         Ready True \<Rightarrow> task_at s' = Map.empty \<and> last_waker s' = None
       | Ready False \<Rightarrow> task_at s' \<noteq> Map.empty \<and> registered_count s' = suspended_count s' \<and> last_waker s' = None
       | Pending \<Rightarrow> task_at s' \<noteq> Map.empty \<and> registered_count s' \<noteq> suspended_count s')"
  using poll_internal_ok [OF assms]
  by (auto simp: poll_post_def outcome_def split: poll.split bool.split)

theorem poll_outcome_witness:
  "\<exists>s'. poll_internal Debug (await_body yield_times_poll) 7 4 two_yields = Some (Inr (Ready True), s')
     \<and> alg_idle Debug s' \<and> task_at s' = Map.empty"
  using two_yields_poll poll_outcome [OF two_yields_idle, of "await_body yield_times_poll" 7 4 "Ready True"] by auto

text \<open>
  C2. No wake-up is lost when a wake is one step: if a poll returns \<open>Pending\<close>, then either the waker
  it was called with is registered and no task is runnable, or that waker has been woken since the
  poll began. The wakes of other threads may come before any visit of a slot, before the waker is
  registered and before the poll returns.
\<close>

theorem pending_armed:
  assumes "alg_idle p s" and "poll_internal p body w n s = Some (Inr Pending, s')"
  shows "(last_waker s' = Some w \<and> (\<forall>k. state_at s' k \<noteq> Runnable))
    \<or> w \<in> set (drop (length (woken s)) (woken s'))"
proof -
  obtain m where m: "length (woken s) \<le> m" "armed w m UNIV s'"
    using poll_internal_ok [OF assms] by (auto simp: poll_post_def outcome_def)
  have "w \<in> set (drop (length (woken s)) (woken s'))" if "m < length (woken s')" "woken s' ! m = w"
    using that m(1) by (auto simp: in_set_conv_nth intro!: exI [of _ "m - length (woken s)"])
  then show ?thesis using m(2) by (auto simp: armed_def)
qed

theorem pending_armed_witness:
  "\<exists>s'. poll_internal Debug waiting_body 7 3 one_task = Some (Inr Pending, s') \<and> last_waker s' = Some 7
     \<and> ((last_waker s' = Some 7 \<and> (\<forall>k. state_at s' k \<noteq> Runnable)) \<or> 7 \<in> set (drop (length (woken one_task)) (woken s')))"
proof -
  have "\<exists>s'. poll_internal Debug waiting_body 7 3 one_task = Some (Inr Pending, s') \<and> last_waker s' = Some 7"
    by (simp add: run one_task_def waiting_body_def cong: run_cong)
  then show ?thesis using pending_armed [OF one_task_idle, of waiting_body 7 3] by blast
qed

text \<open>
  C3. Polling unwinds only with a panic of a task's code, with the overflow of the suspended count
  in a debug build, or when the registry cannot grow; in the first two cases the guards have
  restored the scheduler: no reference is left alive, no task is current and none is marked as
  being polled.
\<close>

theorem poll_unwinds:
  assumes "alg_idle p s" and "poll_internal p body w n s = Some (Inl e, s')"
  shows "e = Panic ''capacity overflow''
    \<or> ((e = UserPanic \<or> (e = ArithOverflow \<and> p = Debug)) \<and> alg_idle p s')"
  using poll_internal_ok [OF assms] by (auto simp: poll_post_def poll_panic_def out_of_memory_def)

theorem poll_unwinds_witness:
  "\<exists>s'. poll_internal Debug panicking_body 7 1 one_task = Some (Inl UserPanic, s') \<and> alg_idle Debug s'"
proof -
  have "\<exists>s'. poll_internal Debug panicking_body 7 1 one_task = Some (Inl UserPanic, s')"
    by (simp add: run one_task_def panicking_body_def cong: run_cong)
  then show ?thesis using poll_unwinds [OF one_task_idle, of panicking_body 7 1 UserPanic] by auto
qed

text \<open>
  C6. A poll returns. If a weight of the futures is spent by every poll of a task (the future it
  becomes and the futures it spawns together weigh less), then a poll of the scheduler ends within
  one more iteration than the stored futures weigh, whatever other threads wake meanwhile.
\<close>

theorem poll_terminates:
  assumes "alg_idle p s" and "bounded_by weigh body"
  shows "\<exists>res. poll_internal p body w (Suc (weight weigh s)) s = Some res"
proof -
  have "weight weigh (snd (waker_clear s)) = weight weigh s"
    by (simp add: weight_def waker_clear_def)
  then show ?thesis
    using poll_loop_terminates [OF clear_idle [OF assms(1)] assms(2), of "Suc (weight weigh s)" w]
    by (simp add: poll_internal_def)
qed


theorem poll_terminates_witness:
  "\<exists>res. poll_internal Debug (await_body yield_times_poll) 7 (Suc (weight (\<lambda>y. Suc (remaining y)) two_yields)) two_yields
     = Some res"
  by (rule poll_terminates [OF two_yields_idle yield_times_bounded])

text \<open>
  A scheduler whose tasks all await a yielding future that runs out runs every one of them to
  its end in a single poll: it returns \<open>Ready(true)\<close>, never \<open>Pending\<close>, and no task is left. \<open>rank\<close>
  bounds the pending polls of the future; the poll needs one iteration more than the ranks add up to.
\<close>

theorem yielding_wheel_completes:
  assumes "alg_idle p s" and "all_ready s" and "self_waking leaf"
    and "\<And>f u f' u' woke. leaf f u = (Pending, f', u', woke) \<Longrightarrow> rank f' < rank f"
  shows "\<exists>s'. poll_internal p (await_body leaf) w (Suc (weight (\<lambda>f. Suc (rank f)) s)) s = Some (Inr (Ready True), s')
    \<and> task_at s' = Map.empty"
  by (rule yielding_poll [where rank = rank, OF assms(1-3)]) (rule assms(4))

theorem yielding_wheel_completes_witness:
  "\<exists>s'. poll_internal Debug (await_body yield_times_poll) 7 (Suc (weight (\<lambda>y. Suc (remaining y)) two_yields)) two_yields
       = Some (Inr (Ready True), s') \<and> task_at s' = Map.empty"
  by (rule yielding_wheel_completes [OF two_yields_idle two_yields_ready yields_self_waking(2)])
     (auto simp: yield_times_poll_def split: if_splits)

subsection \<open>Suspension\<close>

lemma all_suspended:
  assumes inv: "alg_idle p s" and "exact s" and "registered_count s = suspended_count s"
  shows "state_at s k \<in> {Suspended, Inactive}"
proof -
  have inv: "reg_inv p 0 (registry s)" using inv by (simp add: alg_inv_def)
  have "card (suspended_keys s) = card (dom (task_at s))"
    using assms(2,3) reg.count_view [OF inv] by (simp add: exact_def registered_count_def)
  then have "suspended_keys s = dom (task_at s)"
    using card_subset_eq [OF reg.finite_view [OF inv] suspended_keys_dom] by simp
  then have "k \<in> suspended_keys s" if "task_at s k = Some t" for t using that by blast
  then have "df_stop_reason t = SrSuspended" if "task_at s k = Some t" for t
    using that by (fastforce simp: suspended_keys_def)
  then show ?thesis
    by (cases "task_at s k") (simp_all add: state_at_def state_of_def)
qed

text \<open>
  C15. The \<open>SuspendError\<close> is justified when tasks do not finish in a poll in which they suspended a
  task: from an exact count, \<open>Ready(false)\<close> is returned only when there are tasks and every one of
  them is suspended, and the arithmetic of the count never overflows.
\<close>

theorem suspend_error_justified:
  assumes "alg_idle p s" and "exact s" and "tame body"
    and "poll_internal p body w n s = Some (res, s')"
  shows "case res of
      Inl e \<Rightarrow> e = UserPanic \<or> e = Panic ''capacity overflow''
    | Inr r \<Rightarrow> exact s' \<and> (r = Ready False \<longrightarrow>
        (\<exists>k. task_at s' k \<noteq> None) \<and> (\<forall>k. state_at s' k \<in> {Suspended, Inactive}))"
proof (cases res)
  case (Inl e)
  have "exact (snd (waker_clear s))" using assms(2) exact_cong [of "snd (waker_clear s)" s] by (simp add: waker_clear_def)
  then show ?thesis
    using Inl assms(3) count.poll_rel [OF clear_idle [OF assms(1)], of body w n "(res, s')"] assms(4)
    by (auto simp: poll_internal_def exact_panic_def out_of_memory_def)
next
  case (Inr r)
  have "exact (snd (waker_clear s))" using assms(2) exact_cong [of "snd (waker_clear s)" s] by (simp add: waker_clear_def)
  then have ex: "exact s'"
    using Inr assms(3) count.poll_rel [OF clear_idle [OF assms(1)], of body w n "(res, s')"] assms(4)
    by (auto simp: poll_internal_def exact_rel_def)
  have post: "alg_idle p s' \<and> outcome w (length (woken s)) r s'"
    using poll_internal_ok [OF assms(1,4)] Inr by (simp add: poll_post_def)
  have "state_at s' k \<in> {Suspended, Inactive}" if "registered_count s' = suspended_count s'" for k
    using all_suspended [OF _ ex that] post by blast
  moreover have "registered_count s' = suspended_count s' \<and> (\<exists>k. task_at s' k \<noteq> None)" if "r = Ready False"
    using post that by (auto simp: outcome_def fun_eq_iff)
  ultimately show ?thesis using Inr ex by simp
qed

text \<open>The body of a suspended task is never run, so waiting for it alone is an error at once.\<close>

definition one_stopped :: "(unit, unit) alg" where
  "one_stopped = snd (spawn_task Debug (params_suspended True) () (alg_new () []))"

lemma one_stopped_idle: "alg_idle Debug one_stopped"
  unfolding one_stopped_def
  by (rule spawn_idle [where x = "Some 0"], rule alg_new_idle) (simp add: run cong: run_cong)

lemma one_stopped_exact: "exact one_stopped"
  unfolding one_stopped_def
  by (rule spawn_keeps_exact [where x = "Some 0", OF alg_new_idle alg_new_exact]) (simp add: run cong: run_cong)

theorem suspend_error_justified_witness:
  "\<exists>s'. poll_internal Debug waiting_body 7 1 one_stopped = Some (Inr (Ready False), s')
     \<and> (\<exists>k. task_at s' k \<noteq> None) \<and> (\<forall>k. state_at s' k \<in> {Suspended, Inactive})"
proof -
  have t: "tame waiting_body" by (simp add: tame_def waiting_body_def)
  obtain s' where s': "poll_internal Debug waiting_body 7 1 one_stopped = Some (Inr (Ready False), s')"
    by (simp add: run one_stopped_def waiting_body_def cong: run_cong)
  show ?thesis using suspend_error_justified [OF one_stopped_idle one_stopped_exact t s'] s' by auto
qed

subsection \<open>The order of polling\<close>

text \<open>
  C29. One beat polls the tasks in increasing order of their keys and none twice, never beyond the
  capacity the registry had when the beat began, and says whether it polled any. When it polled
  none it only removed the cancelled tasks.
\<close>

theorem beat_order:
  assumes "alg_idle p s" and "beat_once p body s = (Inr any, s')"
  shows "\<exists>ks. polled s' = polled s @ ks \<and> sorted_wrt (<) ks \<and> set ks \<subseteq> {..<registry_capacity (registry s)}
    \<and> (any \<longleftrightarrow> ks \<noteq> [])
    \<and> (\<not> any \<longrightarrow> task_at s' = (\<lambda>k. if state_at s k = Cancelled then None else task_at s k))"
proof -
  have post: "beat_post p s any s'" using wpx_InrD [OF beat_once_inv [OF assms(1)] assms(2)] .
  then obtain ks where ks: "polled s' = polled s @ ks" "subseq ks [0..<registry_capacity (registry s)]" "any \<longleftrightarrow> ks \<noteq> []"
    by (auto simp: beat_post_def Let_def)
  obtain N where N: "ks = nths [0..<registry_capacity (registry s)] N" using ks(2) by (auto simp: subseq_conv_nths)
  then have "sorted_wrt (<) ks" by (simp add: strict_sorted_iff sorted_nths)
  moreover have "task_at s' = (\<lambda>k. if state_at s k = Cancelled then None else task_at s k)" if "\<not> any"
  proof -
    have "s'\<lparr>user := user s\<rparr> = fold (quiet_slot p) [0..<registry_capacity (registry s)] s"
      using post that by (simp add: beat_post_def Let_def)
    from arg_cong [OF this, of task_at]
    have "task_at s' = task_at (fold (quiet_slot p) [0..<registry_capacity (registry s)] s)"
      by simp
    then show ?thesis
      using task_at_capacity [OF assms(1)] by (auto simp: quiet_run_view [OF assms(1)] state_at_Cancelled fun_eq_iff)
  qed
  moreover have "set ks \<subseteq> {..<registry_capacity (registry s)}"
    using set_nths_subset [of "[0..<registry_capacity (registry s)]" N] by (auto simp: N)
  ultimately show ?thesis using ks by blast
qed


theorem beat_order_witness:
  "\<exists>s'. beat_once Debug (await_body yield_times_poll) two_yields = (Inr True, s') \<and> polled s' = [0, 1]
     \<and> (\<exists>ks. polled s' = polled two_yields @ ks \<and> sorted_wrt (<) ks)"
proof -
  obtain s' where s': "beat_once Debug (await_body yield_times_poll) two_yields = (Inr True, s')" "polled s' = [0, 1]"
    by (simp add: run two_yields_def cong: run_cong)
  then show ?thesis using beat_order [OF two_yields_idle s'(1)] by auto
qed

text \<open>
  C28. What the visit of a slot does depends on the state of its task alone: a runnable task is
  polled, a cancelled one is removed, and a suspended, waiting or absent one is passed over. In no
  case does another task leave its slot, change its name or its waker, or stop being cancelled.
\<close>

theorem slot_visit:
  assumes "alg_idle p s" and "beat_slot p body k any s = (Inr any', s')"
  shows "(case state_at (deliver s) k of
      Runnable \<Rightarrow> any' \<and> polled s' = polled s @ [k]
    | Cancelled \<Rightarrow> any' = any \<and> polled s' = polled s \<and> task_at s' = (task_at s)(k := None)
    | _ \<Rightarrow> any' = any \<and> polled s' = polled s \<and> task_at s' = task_at s)
    \<and> kept_but k s s'"
proof (cases "state_at (deliver s) k = Runnable")
  case True
  then show ?thesis
    using wpx_InrD [OF beat_slot_polls [OF assms(1) True] assms(2)] by (simp add: slot_polled_def)
next
  case False
  then have eq: "any' = any" "s' = quiet_slot p k s" using assms by (simp_all add: beat_slot_quiet)
  have "kept_but k s s'"
    using assms(1) deliver_woken [of s] by (auto simp: eq kept_but_def quiet_slot_def Let_def removed_view)
  then show ?thesis
    using False assms(1) deliver_state [of s k]
    by (auto simp: eq quiet_slot_def Let_def removed_view split: task_state.split)
qed

theorem slot_visit_witness:
  "\<exists>any' s'. beat_slot Debug (await_body yield_times_poll) 0 False two_yields = (Inr any', s')
     \<and> kept_but 0 two_yields s'"
proof -
  obtain any' s' where s': "beat_slot Debug (await_body yield_times_poll) 0 False two_yields = (Inr any', s')"
    by (simp add: run two_yields_def cong: run_cong)
  then show ?thesis using slot_visit [OF two_yields_idle s'] by auto
qed

subsection \<open>The operations of the handle\<close>

lemma state_at_count [simp]: "state_at (s\<lparr>suspended_count := n\<rparr>) k = state_at s k"
  by (simp add: state_at_def)

lemma state_at_stop:
  assumes "alg_inv p b c q s" and "task_at s k = Some t"
  shows "state_at (modify_task k (set_stop_reason r) s) j =
     (if j = k then
        (case r of SrSuspended \<Rightarrow> Suspended | SrCancelled \<Rightarrow> Cancelled
         | SrNone \<Rightarrow> if is_runnable (arcs s) t then Runnable else Waiting)
      else state_at s j)"
  using assms(2) by (auto simp: state_at_def state_of_def task_at_modify [OF assms(1)] split: stop_reason.split)

lemma state_at_Some:
  "task_at s k = Some t \<Longrightarrow> state_at s k =
     (case df_stop_reason t of SrCancelled \<Rightarrow> Cancelled | SrSuspended \<Rightarrow> Suspended
      | SrNone \<Rightarrow> if is_runnable (arcs s) t then Runnable else Waiting)"
  by (simp add: state_at_def state_of_def)

lemma exact_pos:
  assumes "alg_inv p b c q s" and "exact s" and "task_at s k = Some t" and "df_stop_reason t = SrSuspended"
  shows "0 < suspended_count s"
proof -
  have "k \<in> suspended_keys s" using assms(3,4) by (auto simp: suspended_keys_def)
  then show ?thesis using alg_inv_finite [OF assms(1)] assms(2) by (auto simp: exact_def card_gt_0_iff)
qed

text \<open>
  \<open>suspend\<close> answers whether the task was runnable or waiting; then it is suspended, and in every
  case every other task keeps its state. With an exact count it does not panic, and the count stays
  exact.
\<close>

lemma suspend_transition:
  assumes "alg_inv p b c q s" and "b < usize_MAX" and "exact s"
  shows "\<exists>s'. suspend p k s = (Inr (state_at s k \<in> {Runnable, Waiting}), s') \<and> alg_inv p b c q s' \<and> exact s'
    \<and> state_at s' = (if state_at s k \<in> {Runnable, Waiting} then (state_at s)(k := Suspended) else state_at s)"
proof -
  obtain x s' where run: "suspend p k s = (Inr x, s')" "exact s'"
    using wpx_no_panicD [OF suspend_exact [OF assms]] by metis
  have inv: "alg_inv p b c q s'" using wpx_InrD [OF suspend_ok [OF assms(1,2)] run(1)] by (simp add: call_ok_def)
  have "x = (state_at s k \<in> {Runnable, Waiting})
    \<and> state_at s' = (if state_at s k \<in> {Runnable, Waiting} then (state_at s)(k := Suspended) else state_at s)"
    using run(1) exact_below [OF assms(1,3)]
    by (auto simp: suspend_eq [OF assms(1,2)] stop_write_def state_at_stop [OF assms(1)] state_at_def [of s k] state_of_def
        fun_eq_iff split: option.splits if_splits stop_reason.splits)
  then show ?thesis using run inv by auto
qed

text \<open>
  \<open>resume\<close> answers whether the task was suspended; then it is runnable or waiting, as its waker
  left it, and every other task keeps its state. With an exact count it does not panic, and the
  count stays exact.
\<close>

lemma resume_transition:
  assumes "alg_inv p b c q s" and "b < usize_MAX" and "exact s"
  shows "\<exists>s'. resume p k s = (Inr (state_at s k = Suspended), s') \<and> alg_inv p b c q s' \<and> exact s'
    \<and> (\<forall>j. j \<noteq> k \<longrightarrow> state_at s' j = state_at s j)
    \<and> (if state_at s k = Suspended
       then state_at s' k = (if is_runnable (arcs s) (the (task_at s k)) then Runnable else Waiting)
       else state_at s' k = state_at s k)"
proof -
  obtain x s' where run: "resume p k s = (Inr x, s')" "exact s'"
    using wpx_no_panicD [OF resume_exact [OF assms]] by metis
  have inv: "alg_inv p b c q s'" using wpx_InrD [OF resume_ok [OF assms(1,2)] run(1)] by (simp add: call_ok_def)
  have "x = (state_at s k = Suspended) \<and> (\<forall>j. j \<noteq> k \<longrightarrow> state_at s' j = state_at s j)
    \<and> (if state_at s k = Suspended
       then state_at s' k = (if is_runnable (arcs s) (the (task_at s k)) then Runnable else Waiting)
       else state_at s' k = state_at s k)"
  proof (cases "task_at s k")
    case None
    then show ?thesis
      using run(1) by (auto simp: resume_eq [OF assms(1,2)] state_at_def state_of_def)
  next
    case (Some t)
    then show ?thesis
      using run(1) exact_pos [OF assms(1,3) Some]
      by (cases "df_stop_reason t")
         (auto simp: resume_eq [OF assms(1,2)] stop_write_def state_at_stop [OF assms(1) Some] state_at_Some)
  qed
  then show ?thesis using run inv by auto
qed

text \<open>
  \<open>cancel\<close> answers whether there was a task that was not cancelled yet; then the task is
  cancelled for good, and every other task keeps its state. With an exact count it does not panic,
  and the count stays exact.
\<close>

lemma cancel_transition:
  assumes "alg_inv p b c q s" and "b < usize_MAX" and "exact s"
  shows "\<exists>s'. cancel p k s = (Inr (state_at s k \<notin> {Cancelled, Inactive}), s') \<and> alg_inv p b c q s' \<and> exact s'
    \<and> state_at s' = (if state_at s k = Inactive then state_at s else (state_at s)(k := Cancelled))"
proof -
  obtain x s' where run: "cancel p k s = (Inr x, s')" "exact s'"
    using wpx_no_panicD [OF cancel_exact [OF assms]] by metis
  have inv: "alg_inv p b c q s'" using wpx_InrD [OF cancel_ok [OF assms(1,2)] run(1)] by (simp add: call_ok_def)
  have "x = (state_at s k \<notin> {Cancelled, Inactive})
    \<and> state_at s' = (if state_at s k = Inactive then state_at s else (state_at s)(k := Cancelled))"
  proof (cases "task_at s k")
    case None
    then show ?thesis
      using run(1) by (auto simp: cancel_eq [OF assms(1,2)] state_at_def state_of_def)
  next
    case (Some t)
    then show ?thesis
      using run(1) exact_pos [OF assms(1,3) Some]
      by (cases "df_stop_reason t")
         (auto simp: cancel_eq [OF assms(1,2)] stop_write_def state_at_stop [OF assms(1) Some] state_at_Some
           fun_eq_iff split: if_splits)
  qed
  then show ?thesis using run inv by auto
qed

text \<open>
  What the three operations promise, as a machine over the states that \<open>get_state\<close> shows: the answer and the next state of
  the task, where \<open>ready\<close> says whether its waker has been woken.
\<close>

datatype stop_op = OpSuspend | OpResume | OpCancel

fun stop_spec :: "stop_op \<Rightarrow> bool \<Rightarrow> task_state \<Rightarrow> bool \<times> task_state" where
  "stop_spec OpSuspend ready st = (if st = Runnable \<or> st = Waiting then (True, Suspended) else (False, st))"
| "stop_spec OpResume ready st = (if st = Suspended then (True, if ready then Runnable else Waiting) else (False, st))"
| "stop_spec OpCancel ready st = (if st = Cancelled \<or> st = Inactive then (False, st) else (True, Cancelled))"

fun stop_run :: "profile \<Rightarrow> stop_op \<Rightarrow> nat \<Rightarrow> (('f, 'u) alg, bool) exec" where
  "stop_run p OpSuspend k = suspend p k"
| "stop_run p OpResume k = resume p k"
| "stop_run p OpCancel k = cancel p k"

text \<open>
  C22. \<open>suspend\<close>, \<open>resume\<close> and \<open>cancel\<close> implement their state machine: from a scheduler with an exact count each of them
  returns, answers as the machine does, moves the task to the state of the machine, leaves the state of every other
  task alone and keeps the count exact.
\<close>

theorem stop_ops_refine:
  assumes "alg_inv p b c q s" and "b < usize_MAX" and "exact s"
  shows "\<exists>s'. stop_run p op k s = (Inr (fst (stop_spec op (is_runnable (arcs s) (the (task_at s k))) (state_at s k))), s')
    \<and> alg_inv p b c q s' \<and> exact s'
    \<and> state_at s' = (state_at s)(k := snd (stop_spec op (is_runnable (arcs s) (the (task_at s k))) (state_at s k)))"
proof (cases op)
  case OpSuspend
  then show ?thesis using suspend_transition [OF assms, of k] by auto
next
  case OpResume
  obtain s' where s': "resume p k s = (Inr (state_at s k = Suspended), s')" "alg_inv p b c q s'" "exact s'"
    "\<forall>j. j \<noteq> k \<longrightarrow> state_at s' j = state_at s j"
    "if state_at s k = Suspended then state_at s' k = (if is_runnable (arcs s) (the (task_at s k)) then Runnable else Waiting)
     else state_at s' k = state_at s k"
    using resume_transition [OF assms, of k] by blast
  then have "state_at s' = (state_at s)(k := snd (stop_spec OpResume (is_runnable (arcs s) (the (task_at s k))) (state_at s k)))"
    by (auto simp: fun_eq_iff)
  with s'(1-3) OpResume show ?thesis by simp
next
  case OpCancel
  then show ?thesis using cancel_transition [OF assms, of k] by (auto simp: fun_upd_idem)
qed

theorem stop_ops_refine_witness:
  "\<exists>s'. stop_run Debug OpResume 2 one_suspended = (Inr True, s') \<and> exact s' \<and> state_at s' 2 = Runnable"
proof -
  have "state_at one_suspended 2 = Suspended" "is_runnable (arcs one_suspended) (the (task_at one_suspended 2))"
    by (simp_all add: state_at_def one_suspended_def two_yields_def run reg_view_def slab_view_def slab_flat_def cong: run_cong)
  then show ?thesis using stop_ops_refine [OF one_suspended_idle _ one_suspended_exact, of OpResume 2] by auto
qed

lemma modify_task_comp:
  assumes "alg_inv p b c q s"
  shows "modify_task k g (modify_task k f s) = modify_task k (g \<circ> f) s"
proof -
  have "slab_inv usize_MAX (reg_slab (registry s))" using assms by (simp add: alg_inv_def reg_inv_def)
  then have "snd (slab_get_mut k g (snd (slab_get_mut k f (reg_slab (registry s)))))
      = snd (slab_get_mut k (g \<circ> f) (reg_slab (registry s)))"
    using uniform_nth [of CHUNK_SIZE "slab_entries (reg_slab (registry s))" "k div CHUNK_SIZE"]
    by (auto simp: slab_get_mut_def slab_inv_def Let_def into_index_def CHUNK_SIZE_def split: entry.split)
  then show ?thesis by (simp add: modify_task_def registry_modify_def)
qed

lemma modify_task_idem:
  assumes inv: "alg_inv p b c q s" and t: "task_at s k = Some t" and f: "f t = t"
  shows "modify_task k f s = s"
proof -
  have slab: "slab_inv usize_MAX (reg_slab (registry s))" using inv by (simp add: alg_inv_def reg_inv_def)
  have "slab_get k (reg_slab (registry s)) = Some t" using t slab_get_view [OF slab] by (simp add: reg_view_def)
  then have cell: "slab_entries (reg_slab (registry s)) ! (k div CHUNK_SIZE) ! (k mod CHUNK_SIZE) = Full t"
    by (auto simp: slab_get_def Let_def into_index_def split: if_splits entry.splits)
  then have "(slab_entries (reg_slab (registry s)) ! (k div CHUNK_SIZE))[k mod CHUNK_SIZE := Full t]
      = slab_entries (reg_slab (registry s)) ! (k div CHUNK_SIZE)"
    by (metis list_update_id)
  then have "snd (slab_get_mut k f (reg_slab (registry s))) = reg_slab (registry s)"
    using f cell by (simp add: slab_get_mut_def Let_def into_index_def)
  then show ?thesis by (simp add: modify_task_def registry_modify_def)
qed

lemma modify_task_count_twice:
  "(modify_task k f (s\<lparr>suspended_count := n\<rparr>))\<lparr>suspended_count := m\<rparr> = (modify_task k f s)\<lparr>suspended_count := m\<rparr>"
  by (simp add: modify_task_def)

text \<open>
  Suspending a task and resuming it restores the scheduler exactly: both operations answer
  \<open>true\<close>, and the state after them is the state before.
\<close>

theorem suspend_resume:
  assumes "alg_inv p b c q s" and "b < usize_MAX" and "exact s" and "state_at s k \<in> {Runnable, Waiting}"
  shows "\<exists>s'. suspend p k s = (Inr True, s') \<and> resume p k s' = (Inr True, s)"
proof -
  obtain t where t: "task_at s k = Some t" "df_stop_reason t = SrNone"
    using assms(4) by (auto simp: state_at_def state_of_def split: option.splits stop_reason.splits)
  let ?s' = "(modify_task k (set_stop_reason SrSuspended) s)\<lparr>suspended_count := Suc (suspended_count s)\<rparr>"
  have sus: "suspend p k s = (Inr True, ?s')"
    using exact_below [OF assms(1,3)] t by (simp add: suspend_eq [OF assms(1,2)] stop_write_def)
  then have inv: "alg_inv p b c q ?s'" using wpx_InrD [OF suspend_ok [OF assms(1,2)]] by (simp add: call_ok_def)
  have t': "task_at ?s' k = Some (set_stop_reason SrSuspended t)" using t by (simp add: task_at_modify [OF assms(1)])
  have undo: "(modify_task k (set_stop_reason SrNone) ?s')\<lparr>suspended_count := suspended_count s\<rparr> = s"
    using modify_task_idem [OF assms(1) t(1), of "set_stop_reason SrNone \<circ> set_stop_reason SrSuspended"] t(2)
    by (simp add: modify_task_count_twice modify_task_comp [OF assms(1)])
  show ?thesis
    using sus t' undo by (auto simp: resume_eq [OF inv assms(2)] stop_write_def)
qed


theorem suspend_resume_witness:
  "\<exists>s'. suspend Debug 1 two_yields = (Inr True, s') \<and> resume Debug 1 s' = (Inr True, two_yields)"
proof (rule suspend_resume [OF two_yields_idle _ two_yields_exact])
  show "state_at two_yields 1 \<in> {Runnable, Waiting}"
    by (simp add: state_at_def two_yields_def run reg_view_def slab_view_def slab_flat_def cong: run_cong)
qed simp

text \<open>
  A spawned task gets a key no task has and a waker no task has, and starts suspended or
  runnable as its parameters say; every other task keeps its state. The only panics are those of a
  registry that cannot grow, and, in a debug build, of a saturated count.
\<close>

theorem spawn_fresh:
  assumes "alg_inv p b c q s"
  shows "case spawn_task p sp fut s of
      (Inr key, s') \<Rightarrow>
        \<exists>k. key = Some k \<and> state_at s k = Inactive \<and> alg_inv p b c q s'
          \<and> task_at s' = (task_at s)(k \<mapsto> dynamic_future_new fut (length (arcs s)) sp)
          \<and> state_at s' = (state_at s)(k := (if sp_suspended sp then Suspended else Runnable))
    | (Inl e, s') \<Rightarrow> e = Panic ''capacity overflow'' \<or> (e = ArithOverflow \<and> p = Debug \<and> usize_MAX \<le> suspended_count s)"
proof -
  have st: "state_at s' = (state_at s)(k := (if sp_suspended sp then Suspended else Runnable))"
    if sp: "spawned sp fut k s s'" for k s'
  proof
    fix j
    show "state_at s' j = ((state_at s)(k := (if sp_suspended sp then Suspended else Runnable))) j"
    proof (cases "task_at s j")
      case None
      then show ?thesis using sp by (auto simp: spawned_def state_at_def state_of_def is_runnable_def)
    next
      case (Some t)
      then have "df_flags t < length (arcs s)" using assms by (auto simp: alg_inv_def flags_ok_def)
      then show ?thesis
        using sp Some by (auto simp: spawned_def state_at_def state_of_def is_runnable_def nth_append)
    qed
  qed
  obtain r s' where run: "spawn_task p sp fut s = (r, s')" by fastforce
  note ok = spawn_task_ok [OF assms, of sp fut, unfolded wpx_def run]
  show ?thesis
  proof (cases r)
    case (Inl e)
    then show ?thesis using ok by (auto simp: run out_of_memory_def)
  next
    case (Inr key)
    then obtain k where k: "key = Some k" "alg_inv p b c q s'" "spawned sp fut k s s'" using ok by auto
    then have "state_at s k = Inactive" "task_at s' = (task_at s)(k \<mapsto> dynamic_future_new fut (length (arcs s)) sp)"
      by (simp_all add: spawned_def state_at_Inactive)
    then show ?thesis using Inr k st [OF k(3)] by (simp add: run)
  qed
qed

theorem spawn_fresh_witness:
  "case spawn_task Debug (params_suspended True) (yield_times_new 3) two_yields of
      (Inr key, s') \<Rightarrow> \<exists>k. key = Some k \<and> state_at two_yields k = Inactive \<and> alg_idle Debug s'
    | (Inl e, s') \<Rightarrow> e = Panic ''capacity overflow'' \<or> (e = ArithOverflow \<and> Debug = Debug \<and> usize_MAX \<le> suspended_count two_yields)"
  using spawn_fresh [OF two_yields_idle, where sp = "params_suspended True" and fut = "yield_times_new 3"]
  by (cases "spawn_task Debug (params_suspended True) (yield_times_new 3) two_yields")
     (auto split: sum.splits)

text \<open>
  A wake reaches the task its waker was made for and no other: a waiting task whose waker is
  woken becomes runnable, and the states of all other tasks stay, in particular all of them when
  the waker outlived its task. The outer waker is notified once and forgotten.
\<close>

theorem wake_isolated:
  assumes "alg_inv p b c q s"
  shows "state_at (wake v s) k =
      (if state_at s k = Waiting \<and> df_flags (the (task_at s k)) = v then Runnable else state_at s k)
    \<and> last_waker (wake v s) = None
    \<and> woken (wake v s) = woken s @ (case last_waker s of None \<Rightarrow> [] | Some w \<Rightarrow> [w])"
proof -
  have "df_flags t < length (arcs s)" if "task_at s k = Some t" for t
    using assms that by (auto simp: alg_inv_def flags_ok_def)
  moreover have "last_waker (wake v s) = None \<and> woken (wake v s) = woken s @ (case last_waker s of None \<Rightarrow> [] | Some w \<Rightarrow> [w])"
    by (simp add: wake_def notify_wake_def split: option.split)
  ultimately show ?thesis
    by (cases "task_at s k")
       (auto simp: state_at_def state_of_def is_runnable_def nth_update_any split: stop_reason.splits)
qed

theorem wake_isolated_witness:
  "last_waker (wake 5 two_yields) = None \<and> state_at (wake 5 two_yields) 0 =
     (if state_at two_yields 0 = Waiting \<and> df_flags (the (task_at two_yields 0)) = 5 then Runnable else state_at two_yields 0)"
  using wake_isolated [OF two_yields_idle, of 5 0] by simp

text \<open>
  \<open>get_by_name\<close> finds the task with the smallest key among those with the given name, and \<open>None\<close>
  exactly when there is no such task; the lookup changes nothing.
\<close>

theorem get_by_name_least:
  assumes "alg_inv p b c q s" and "b < usize_MAX"
  shows "\<exists>r. get_by_name p n s = (Inr r, s)
    \<and> (case r of
         None \<Rightarrow> \<forall>k t. task_at s k = Some t \<longrightarrow> as_str (df_name t) \<noteq> Some n
       | Some k \<Rightarrow> (\<exists>t. task_at s k = Some t \<and> as_str (df_name t) = Some n)
           \<and> (\<forall>j t. j < k \<longrightarrow> task_at s j = Some t \<longrightarrow> as_str (df_name t) \<noteq> Some n))"
proof -
  let ?r = "find (has_name s n) [0..<registry_capacity (registry s)]"
  have "case ?r of
         None \<Rightarrow> \<forall>k t. task_at s k = Some t \<longrightarrow> as_str (df_name t) \<noteq> Some n
       | Some k \<Rightarrow> (\<exists>t. task_at s k = Some t \<and> as_str (df_name t) = Some n)
           \<and> (\<forall>j t. j < k \<longrightarrow> task_at s j = Some t \<longrightarrow> as_str (df_name t) \<noteq> Some n)"
  proof (cases ?r)
    case None
    then have "\<not> has_name s n k" for k
      using task_at_capacity [OF assms(1), of k] by (fastforce simp: find_None_iff has_name_def)
    then show ?thesis using None by (simp add: has_name_def)
  next
    case (Some k)
    then have "has_name s n k" "\<And>j. j < k \<Longrightarrow> \<not> has_name s n j" by (auto simp: find_Some_iff)
    then show ?thesis using Some by (auto simp: has_name_def)
  qed
  then show ?thesis using get_by_name_eq [OF assms, of n] by blast
qed

theorem get_by_name_least_witness:
  "\<exists>r. get_by_name Debug ''a'' two_yields = (Inr r, two_yields)"
  using get_by_name_least [OF two_yields_idle, of "''a''"] by auto

end
