(* ===== verification/Suspend_Leak.thy ===== *)
theory Suspend_Leak
  imports Scheduler_Correct
begin

text \<open>
  The leak of the count of suspended tasks in \<open>src/dy/unordered_algorithm.rs\<close>: for every task that ends suspended, and
  what a poll of a scheduler answers that has nothing to poll.
\<close>

text \<open>A scheduler with nothing to poll and nothing to remove: a poll answers by the counts.\<close>

lemma idle_loop:
  assumes inv: "alg_idle p s" and ext: "external s = []" and idle: "\<forall>k. state_at s k \<notin> {Runnable, Cancelled}"
  shows "beat_loop p body ks any s = (Inr any, s)"
proof (induction ks)
  case (Cons k ks)
  have d: "deliver s = s" using ext by (simp add: deliver_def)
  have k: "state_at s k \<noteq> Runnable" "state_at s k \<noteq> Cancelled" using idle by auto
  have "state_at (deliver s) k \<noteq> Runnable" using k(1) by (simp only: d not_False_eq_True)
  then have "beat_slot p body k any s = (Inr any, quiet_slot p k s)" by (rule beat_slot_quiet [OF inv])
  moreover have "quiet_slot p k s = s" using k(2) by (simp add: quiet_slot_def Let_def d)
  ultimately show ?case using Cons.IH by (simp add: bind_exec_def)
qed (simp add: return_exec_def)

lemma idle_answer:
  assumes inv: "alg_idle p s" and ext: "external s = []" and idle: "\<forall>k. state_at s k \<notin> {Runnable, Cancelled}"
    and cnt: "registered_count s = suspended_count s" "task_at s \<noteq> Map.empty"
  shows "\<exists>s'. poll_internal p body w (Suc n) s = Some (Inr (Ready False), s') \<and> state_at s' = state_at s
    \<and> suspended_count s' = suspended_count s"
proof -
  let ?c = "snd (waker_clear s)" and ?r = "snd (waker_register w (snd (waker_clear s)))"
  have c: "alg_idle p ?c" "external ?c = []" "\<forall>k. state_at ?c k \<notin> {Runnable, Cancelled}"
    and r: "alg_idle p ?r" "external ?r = []" "\<forall>k. state_at ?r k \<notin> {Runnable, Cancelled}"
    using assms(1-3) by (simp_all add: waker_clear_def waker_register_def state_at_def)
  have b1: "beat_once p body ?c = (Inr False, ?c)" using idle_loop [OF c] by (simp add: beat_once_def exec_defs)
  have b2: "beat_once p body ?r = (Inr False, ?r)" using idle_loop [OF r] by (simp add: beat_once_def exec_defs)
  have d: "deliver ?c = ?c" "deliver ?r = ?r" using c(2) r(2) by (simp_all add: deliver_def)
  have n: "registered_count s \<noteq> 0" using count_zero [OF inv] cnt(2) by simp
  have "registered_count ?r = registered_count s" "suspended_count ?r = suspended_count s"
    by (simp_all add: waker_clear_def waker_register_def registered_count_def)
  then have "poll_iter p body w ?c = (Inr (Some (Ready False)), snd (waker_clear ?r))"
    using n cnt(1) by (simp add: poll_iter_def bind_exec_def b1 b2 d modify_exec_def gets_exec_def return_exec_def)
  moreover have "state_at (snd (waker_clear ?r)) = state_at s" "suspended_count (snd (waker_clear ?r)) = suspended_count s"
    by (simp_all add: waker_clear_def waker_register_def state_at_def fun_eq_iff)
  ultimately show ?thesis by (simp add: poll_internal_def)
qed

lemma states_partition:
  assumes inv: "alg_idle p s" and idle: "\<forall>k. state_at s k \<notin> {Runnable, Cancelled}"
  shows "registered_count s = card (suspended_keys s) + card {k. state_at s k = Waiting}"
proof -
  have fin: "finite (dom (task_at s))" using inv reg.finite_view [of p 0 "registry s"] by (simp add: alg_inv_def)
  have dom: "dom (task_at s) = suspended_keys s \<union> {k. state_at s k = Waiting}"
  proof (rule set_eqI)
    fix k
    have "state_at s k \<notin> {Runnable, Cancelled}" using idle by blast
    then show "k \<in> dom (task_at s) \<longleftrightarrow> k \<in> suspended_keys s \<union> {k. state_at s k = Waiting}"
      by (auto simp: suspended_keys_def state_at_def state_of_def split: option.splits stop_reason.splits if_splits)
  qed
  have disj: "suspended_keys s \<inter> {k. state_at s k = Waiting} = {}"
    by (auto simp: suspended_keys_def state_at_def state_of_def)
  have "registered_count s = card (dom (task_at s))"
    using inv reg.count_view [of p 0 "registry s"] by (simp add: alg_inv_def registered_count_def)
  then show ?thesis using fin disj by (simp add: dom card_Un_disjoint)
qed

text \<open>
  C16. The count of suspended tasks leaks: \<open>beat_once\<close> removes a finished task without looking at its stop reason. In every
  scheduler with an exact count, when the poll of a task ends with the task suspended (by its own code) and ready, the
  visit of its slot removes the task and leaves the count one above the number of suspended tasks. If then no task is
  runnable or cancelled, no wake of another thread is under way and exactly one task is waiting, the next poll reports
  \<open>Ready(false)\<close>, the \<open>SuspendError\<close>, while that task is still waiting.
\<close>

theorem suspended_count_leak:
  assumes inv: "alg_idle p s" and ex: "exact s"
    and t: "task_at (deliver s) k = Some t" "df_stop_reason t = SrNone" "is_runnable (arcs (deliver s)) t"
    and run: "run_prog p (body (df_future t) (df_flags t) (user s)) (started p k t (deliver s)) = (Inr None, s2)"
    and susp: "state_at s2 k = Suspended"
  shows "\<exists>s'. beat_slot p body k any s = (Inr True, s') \<and> state_at s' k = Inactive
    \<and> suspended_count s' = Suc (card (suspended_keys s'))
    \<and> (external s' = [] \<and> (\<forall>j. state_at s' j \<notin> {Runnable, Cancelled}) \<and> card {j. state_at s' j = Waiting} = 1 \<longrightarrow>
        (\<exists>s''. poll_internal p body w (Suc n) s' = Some (Inr (Ready False), s'') \<and> state_at s'' = state_at s'))"
proof -
  let ?s' = "finished p k None s2"
  have d: "alg_idle p (deliver s)" using inv by simp
  note st = started_inv [OF d t(1)]
  have i2: "alg_inv p (Suc 0) (Some k) (Some k) s2" using wpx_InrD [OF run_prog_ok [OF st zero_less_usize(2)] run] by (simp add: call_ok_def)
  have "exact (deliver s)" using ex by (simp add: exact_def suspended_keys_def)
  then have "exact (started p k t (deliver s))" by (simp add: exact_def started_suspended [OF d])
  then have e2: "exact s2" by (rule wpx_InrD [OF run_prog_exact [OF st zero_less_usize(2)] run])
  have k: "k \<in> suspended_keys s2"
    using susp by (auto simp: state_at_def state_of_def suspended_keys_def split: option.splits stop_reason.splits if_splits)
  have slot: "beat_slot p body k any s = (Inr True, ?s')" by (simp add: beat_slot_poll_eq [OF inv t] run)
  have idle: "alg_idle p ?s'" using wpx_InrD [OF beat_slot_inv [OF inv] slot] by simp
  have gone: "state_at ?s' k = Inactive"
    using ended_inv(1) [OF i2] by (simp add: finished_def state_at_def removed_view state_of_def)
  have leak: "suspended_count ?s' = Suc (card (suspended_keys ?s'))"
    using e2 k alg_inv_finite [OF i2] card_Suc_Diff1 [of "suspended_keys s2" k]
    by (simp add: finished_suspended [OF i2] exact_def)
  have "\<exists>s''. poll_internal p body w (Suc n) ?s' = Some (Inr (Ready False), s'') \<and> state_at s'' = state_at ?s'"
    if h: "external ?s' = []" "\<forall>j. state_at ?s' j \<notin> {Runnable, Cancelled}" "card {j. state_at ?s' j = Waiting} = 1"
  proof -
    have "registered_count ?s' = suspended_count ?s'" using states_partition [OF idle h(2)] h(3) leak by simp
    moreover have "task_at ?s' \<noteq> Map.empty"
    proof
      assume "task_at ?s' = Map.empty"
      then have "{j. state_at ?s' j = Waiting} = {}" by (simp add: state_at_def state_of_def)
      then show False using h(3) by simp
    qed
    ultimately show ?thesis using idle_answer [OF idle h(1,2)] by blast
  qed
  then show ?thesis using slot gone leak by blast
qed

text \<open>
  A task that suspends itself and returns, and one that waits for an event.
\<close>

definition leak_body :: "(bool, unit) body" where
  "leak_body f w u =
     (if f then PCall CallCurrent (\<lambda>r. case r of
          RKey (Some k) \<Rightarrow> PCall (CallSuspend k) (\<lambda>_. PReady u)
        | _ \<Rightarrow> PReady u)
      else PPending f u)"

definition leak_state :: "(bool, unit) alg" where
  "leak_state =
     snd (spawn_task Debug params_default False (snd (spawn_task Debug params_default True (alg_new () []))))"

text \<open>
  An example run: \<open>beat_once\<close> removes a finished task
  without looking at its stop reason, so a task that suspends itself and then returns stays
  counted. Here one such task and one that waits for an event share a scheduler: the poll reports
  \<open>Ready(false)\<close>, the \<open>SuspendError\<close>, though the only task left is waiting and none is suspended.
\<close>

lemma suspended_leak_run:
  "case poll_internal Debug leak_body 7 3 leak_state of
     Some (Inr (Ready False), s') \<Rightarrow>
       state_at s' 1 = Waiting \<and> registered_count s' = 1 \<and> suspended_count s' = 1
       \<and> (\<forall>k. state_at s' k \<noteq> Suspended)
   | _ \<Rightarrow> False"
  by (simp add: run leak_state_def leak_body_def state_at_def reg_view_def slab_view_def slab_flat_def nth_Cons'
      cong: run_cong)

definition leak_waiting :: "(bool, unit) alg" where
  "leak_waiting = snd (beat_slot Debug leak_body 0 False
     (snd (spawn_task Debug params_default True (snd (spawn_task Debug params_default False (alg_new () []))))))"

lemma leak_waiting_ok:
  "alg_idle Debug leak_waiting" "exact leak_waiting"
proof -
  let ?s = "snd (spawn_task Debug params_default True (snd (spawn_task Debug params_default False (alg_new () []))))"
  have idle: "alg_idle Debug ?s"
    by (rule spawn_idle [where x = "Some 1"], rule spawn_idle [where x = "Some 0"], rule alg_new_idle)
       (simp_all add: run cong: run_cong)
  have "beat_slot Debug leak_body 0 False ?s = (Inr True, leak_waiting)"
    by (simp add: leak_waiting_def) (simp add: run leak_body_def cong: run_cong)
  then show "alg_idle Debug leak_waiting" using wpx_InrD [OF beat_slot_inv [OF idle]] by fastforce
  show "exact leak_waiting"
    by (simp add: exact_def suspended_keys_def run leak_waiting_def leak_body_def reg_view_def slab_view_def slab_flat_def nth_Cons'
        cong: run_cong)
qed

theorem suspended_count_leak_witness:
  "\<exists>s' s''. beat_slot Debug leak_body 1 False leak_waiting = (Inr True, s') \<and> suspended_count s' = Suc (card (suspended_keys s'))
     \<and> poll_internal Debug leak_body 7 1 s' = Some (Inr (Ready False), s'') \<and> state_at s'' 0 = Waiting"
proof -
  obtain t where t: "task_at (deliver leak_waiting) 1 = Some t" "df_stop_reason t = SrNone" "is_runnable (arcs (deliver leak_waiting)) t"
    "fst (run_prog Debug (leak_body (df_future t) (df_flags t) (user leak_waiting)) (started Debug 1 t (deliver leak_waiting))) = Inr None"
    "state_at (snd (run_prog Debug (leak_body (df_future t) (df_flags t) (user leak_waiting)) (started Debug 1 t (deliver leak_waiting)))) 1 = Suspended"
    by (simp add: run leak_waiting_def leak_body_def state_at_def started_def add_ref_def reg_view_def slab_view_def slab_flat_def nth_Cons'
        cong: run_cong)
  let ?run = "run_prog Debug (leak_body (df_future t) (df_flags t) (user leak_waiting)) (started Debug 1 t (deliver leak_waiting))"
  have ends: "?run = (Inr None, snd ?run)" using t(4) by (metis prod.collapse)
  note leak = suspended_count_leak [where body = leak_body and any = False and w = 7 and n = 0, OF leak_waiting_ok t(1-3) ends t(5)]
  obtain s' where b: "beat_slot Debug leak_body 1 False leak_waiting = (Inr True, s')"
    and ext: "external s' = []" and tasks: "\<forall>j. state_at s' j = (if j = 0 then Waiting else Inactive)"
    by (simp add: run leak_waiting_def leak_body_def state_at_def reg_view_def slab_view_def slab_flat_def nth_Cons' cong: run_cong)
  then have s': "beat_slot Debug leak_body 1 False leak_waiting = (Inr True, s')" "suspended_count s' = Suc (card (suspended_keys s'))"
    using leak by auto
  have "card {j. state_at s' j = Waiting} = 1" "\<forall>j. state_at s' j \<notin> {Runnable, Cancelled}" by (auto simp: tasks)
  with leak s' b ext have "\<exists>s''. poll_internal Debug leak_body 7 (Suc 0) s' = Some (Inr (Ready False), s'') \<and> state_at s'' = state_at s'"
    by simp
  then show ?thesis using s' tasks by auto
qed

end
