(* ===== verification/Store_Correct.thy ===== *)
theory Store_Correct
  imports Task_Registry
begin

text \<open>
  The properties of the two stores, \<open>ChunkSlab\<close> (\<open>src/utils/chunk_slab.rs\<close>) and \<open>Registry\<close>
  (\<open>src/dy/registry.rs\<close>).
\<close>

subsection \<open>An example slab\<close>

definition small_slab :: "nat chunk_slab" where
  "small_slab = snd (slab_insert Debug 255 20 (snd (slab_insert Debug 255 10 slab_new)))"

lemma small_slab_inv: "slab_inv 255 small_slab" "slab_view small_slab = [0 \<mapsto> 10, 1 \<mapsto> 20]"
proof -
  have r0: "slab_room 255 (slab_new :: nat chunk_slab)" "slab_inv 255 (slab_new :: nat chunk_slab)"
    by (simp add: slab_room_def slab_new_def CHUNK_SIZE_def VEC_MAX_def) (simp add: slab_inv_new key_types_def)
  obtain k t where t: "slab_insert Debug 255 10 (slab_new :: nat chunk_slab) = (Inr k, t)" "slab_inv 255 t"
    "k = slab_next (slab_new :: nat chunk_slab)" "slab_view t = Map.empty(k \<mapsto> 10)"
    using slab_insert_ok [OF r0(2,1), of Debug 10] by auto
  have k: "k = 0" using t(3) by (simp add: slab_new_def)
  have n: "slab_next t = 1" "slab_len t = 1"
    using t(1) by (auto simp: run cong: run_cong)
  have "slab_room 255 t" by (simp add: slab_room_def n CHUNK_SIZE_def VEC_MAX_def)
  from slab_insert_ok [OF t(2) this, of Debug 20] show "slab_inv 255 small_slab" "slab_view small_slab = [0 \<mapsto> 10, 1 \<mapsto> 20]"
    using t k n by (auto simp: small_slab_def)
qed

lemma small_slab_room: "slab_room 255 small_slab"
  by (simp add: slab_room_def small_slab_def run cong: run_cong)

subsection \<open>The slab implements a map\<close>

text \<open>
  C9. An insertion into a slab with a free key returns a key of the type that was not in use and
  stores the value under it; no other entry changes, and the length grows by one. It never panics.
\<close>

theorem slab_insert_refines:
  assumes "slab_inv mx s" and "slab_room mx s"
  shows "\<exists>k t. slab_insert p mx v s = (Inr k, t) \<and> slab_inv mx t \<and> k \<le> mx \<and> slab_view s k = None
    \<and> slab_view t = (slab_view s)(k \<mapsto> v) \<and> slab_get k t = Some v \<and> slab_len t = slab_len s + 1"
proof -
  obtain k t where t: "slab_insert p mx v s = (Inr k, t)" "slab_inv mx t" "slab_view s k = None"
    "slab_view t = (slab_view s)(k \<mapsto> v)" using slab_insert_ok [OF assms, of p v] by blast
  have "k < slab_capacity t" using slab_view_capacity [OF t(2), of k v] t(4) by simp
  then have "k \<le> mx" using t(2) slab_capacity_flat [OF t(2)] by (auto simp: slab_inv_def)
  moreover have "slab_len t = slab_len s + 1"
    using t(3,4) by (simp add: slab_len_card [OF t(2)] slab_len_card [OF assms(1)] domIff)
  ultimately show ?thesis using t slab_get_view [OF t(2), of k] by auto
qed

theorem slab_insert_refines_witness:
  "\<exists>k t. slab_insert Debug 255 30 small_slab = (Inr k, t) \<and> slab_view t = [0 \<mapsto> 10, 1 \<mapsto> 20, k \<mapsto> 30]"
  using slab_insert_refines [OF small_slab_inv(1) small_slab_room, of Debug 30] small_slab_inv(2) by auto

text \<open>
  With a key type smaller than \<open>usize\<close>, the insertion that would need a key beyond the type
  panics and leaves the slab as it was; it does so exactly when all \<open>mx + 1\<close> keys are in use.
\<close>

theorem slab_insert_exhausted:
  assumes "slab_inv mx s" and "mx \<noteq> usize_MAX"
  shows "slab_insert p mx v s = (Inl (Panic ''ChunkSlab size overflow.''), s) \<longleftrightarrow> dom (slab_view s) = {..mx}"
proof -
  have mx: "mx \<in> set key_types" "mx < CHUNK_SIZE * VEC_MAX"
    using assms by (auto simp: slab_inv_def key_types_def CHUNK_SIZE_def VEC_MAX_def)
  have "length (slab_flat s) \<le> mx + 1" using assms(1) by (simp add: slab_inv_def)
  then have sub: "dom (slab_view s) \<subseteq> {..mx}" by (auto simp: slab_dom)
  have len: "slab_len s = card (dom (slab_view s))" by (rule slab_len_card [OF assms(1)])
  have full: "dom (slab_view s) = {..mx} \<longleftrightarrow> slab_len s = mx + 1"
  proof
    assume "slab_len s = mx + 1"
    then have "card (dom (slab_view s)) = card {..mx}" using len by simp
    then show "dom (slab_view s) = {..mx}" by (rule card_subset_eq [OF finite_atMost sub])
  qed (simp add: len)
  have "slab_len s \<le> mx + 1" using card_mono [OF finite_atMost sub] len by simp
  then have room: "slab_room mx s \<longleftrightarrow> slab_len s \<noteq> mx + 1" using mx by (auto simp: slab_room_def)
  show ?thesis
    using slab_insert_full_keys [OF assms, of p v] slab_insert_ok [OF assms(1), of p v] room full by auto
qed

theorem slab_insert_exhausted_witness:
  "slab_insert Debug 255 30 small_slab \<noteq> (Inl (Panic ''ChunkSlab size overflow.''), small_slab)"
  using slab_insert_exhausted [OF small_slab_inv(1), of Debug 30] small_slab_inv(2)
  by (auto simp: usize_MAX_def set_eq_iff split: if_splits)

text \<open>
  C24. A removal returns the stored value and frees its key, which the next insertion uses again;
  removing and inserting the value restores the contents. Removing an unused key changes nothing.
\<close>

theorem slab_remove_reuse:
  assumes "slab_inv mx s"
  shows "case slab_view s k of
      None \<Rightarrow> slab_remove p k s = (Inr None, s)
    | Some v \<Rightarrow> \<exists>t u. slab_remove p k s = (Inr (Some v), t) \<and> slab_inv mx t \<and> slab_view t = (slab_view s)(k := None)
        \<and> slab_insert p mx v t = (Inr k, u) \<and> slab_inv mx u \<and> slab_view u = slab_view s"
proof (cases "slab_view s k")
  case None
  then show ?thesis
    using slab_get_view [OF assms, of k]
    by (auto simp: slab_remove_def slab_get_def Let_def split: if_splits entry.splits)
next
  case (Some v)
  obtain t where t: "slab_remove p k s = (Inr (Some v), t)" "slab_inv mx t" "slab_next t = k"
    "slab_view t = (slab_view s)(k := None)" using slab_remove_full [OF assms Some, of p] by blast
  have len: "slab_len t < slab_len s"
    using Some by (simp add: slab_len_card [OF t(2)] slab_len_card [OF assms] t(4) card_gt_0_iff)
       (metis card_Diff1_less domI slab_dom_finite)
  have "slab_len s \<le> CHUNK_SIZE * length (slab_entries s)"
    using assms slab_flat_length [OF assms] length_filter_le [of is_full "slab_flat s"] by (simp add: slab_inv_def)
  moreover have "CHUNK_SIZE * length (slab_entries s) \<le> CHUNK_SIZE * VEC_MAX"
    using assms by (intro mult_le_mono2) (simp add: slab_inv_def)
  moreover have "CHUNK_SIZE * length (slab_entries s) \<le> mx + 1"
    using assms slab_flat_length [OF assms] by (simp add: slab_inv_def)
  ultimately have "slab_len s \<le> mx + 1" "slab_len s \<le> CHUNK_SIZE * VEC_MAX" by linarith+
  then have "slab_room mx t" using len by (simp add: slab_room_def)
  from slab_insert_ok [OF t(2) this, of p v] show ?thesis
    using t Some by (auto simp: fun_upd_idem)
qed

theorem slab_remove_reuse_witness:
  "\<exists>t u. slab_remove Debug 1 small_slab = (Inr (Some 20), t) \<and> slab_insert Debug 255 20 t = (Inr 1, u)"
  using slab_remove_reuse [OF small_slab_inv(1), of Debug 1] by (auto simp: small_slab_inv(2))

text \<open>
  Iteration yields the stored entries once each, in increasing order of their keys.
\<close>

theorem slab_iter_lists:
  assumes "slab_inv mx s"
  shows "sorted_wrt (<) (map fst (slab_iter mx s)) \<and> map_of (slab_iter mx s) = slab_view s
    \<and> length (slab_iter mx s) = slab_len s"
proof -
  have keys: "map fst (slab_iter mx s) = filter (\<lambda>k. slab_view s k \<noteq> None) [0..<slab_capacity s]"
    by (simp add: slab_iter_view [OF assms] map_filter_Pair_keys)
  have s: "sorted_wrt (<) (map fst (slab_iter mx s))"
    unfolding keys by (rule sorted_wrt_filter) simp
  have "map_of (slab_iter mx s) k = slab_view s k" for k
  proof (cases "slab_view s k")
    case None
    then have "k \<notin> set (map fst (slab_iter mx s))" by (simp add: keys)
    then show ?thesis using None by (simp add: map_of_eq_None_iff)
  next
    case (Some v)
    then have "(k, v) \<in> set (slab_iter mx s)"
      using slab_view_capacity [OF assms Some] by (simp add: slab_iter_view [OF assms] set_map_filter_Pair)
    then show ?thesis using Some s by (simp add: map_of_is_SomeI strict_sorted_iff)
  qed
  moreover have "length (slab_iter mx s) = slab_len s"
  proof -
    have "length (slab_iter mx s) = card (set (map fst (slab_iter mx s)))"
      using s by (metis distinct_card length_map strict_sorted_iff)
    also have "set (map fst (slab_iter mx s)) = dom (slab_view s)"
      using slab_view_capacity [OF assms] by (auto simp: keys)
    finally show ?thesis by (simp add: slab_len_card [OF assms])
  qed
  ultimately show ?thesis using s by blast
qed

theorem slab_iter_lists_witness:
  "map_of (slab_iter 255 small_slab) = [0 \<mapsto> 10, 1 \<mapsto> 20] \<and> length (slab_iter 255 small_slab) = slab_len small_slab"
  using slab_iter_lists [OF small_slab_inv(1)] by (simp add: small_slab_inv(2))

text \<open>The calls \<open>retain\<close> makes, recorded in the state of the closure.\<close>

lemma retain_map_log:
  assumes "distinct ks"
  shows "fst (retain_map (\<lambda>k v c. (P k v, c @ [k])) ks c m) = c @ filter (\<lambda>k. m k \<noteq> None) ks"
    and "snd (retain_map (\<lambda>k v c. (P k v, c @ [k])) ks c m)
       = (\<lambda>k. case m k of None \<Rightarrow> None | Some v \<Rightarrow> if k \<in> set ks \<and> \<not> P k v then None else Some v)"
  using assms
proof (induction ks arbitrary: c m)
  case Nil
  {
    case 1
    then show ?case by simp
  next
    case 2
    then show ?case by (auto split: option.splits)
  }
next
  case (Cons k ks)
  {
    case 1
    have "filter (\<lambda>j. (m(k := None)) j \<noteq> None) ks = filter (\<lambda>j. m j \<noteq> None) ks"
      using 1 by (intro filter_cong) auto
    then show ?case using 1 Cons.IH(1) by (auto split: option.split)
  next
    case 2
    then show ?case using Cons.IH(2) by (auto simp: fun_eq_iff split: option.splits)
  }
qed

text \<open>
  C25. \<open>retain\<close> removes exactly the entries the predicate rejects, calls it once for every entry in
  the order of the keys, and cannot panic; the slab stays well formed.
\<close>

theorem slab_retain_filters:
  assumes "slab_inv mx s"
  shows "\<exists>t. slab_retain p mx (\<lambda>k v c. (P k v, c @ [k])) [] s = (Inr (map fst (slab_iter mx s)), t) \<and> slab_inv mx t
    \<and> slab_view t = (\<lambda>k. case slab_view s k of None \<Rightarrow> None | Some v \<Rightarrow> if P k v then Some v else None)"
proof -
  let ?f = "\<lambda>k v c. (P k v, c @ [k])"
  obtain c t where t: "slab_retain p mx ?f [] s = (Inr c, t)" "slab_inv mx t"
    "(c, slab_view t) = retain_map ?f [0..<slab_capacity s] [] (slab_view s)"
    using slab_retain_ok [OF assms, of p ?f "[]"] by blast
  have log: "fst (retain_map ?f [0..<slab_capacity s] [] (slab_view s)) = c"
    "snd (retain_map ?f [0..<slab_capacity s] [] (slab_view s)) = slab_view t"
    by (simp_all flip: t(3))
  have "c = map fst (slab_iter mx s)"
    using log(1) by (simp add: retain_map_log slab_iter_view [OF assms] map_filter_Pair_keys)
  moreover have "slab_view t = (\<lambda>k. case slab_view s k of None \<Rightarrow> None | Some v \<Rightarrow> if P k v then Some v else None)"
    unfolding log(2) [symmetric] using slab_view_capacity [OF assms]
    by (auto simp: retain_map_log fun_eq_iff split: option.splits)
  ultimately show ?thesis using t by simp
qed

theorem slab_retain_filters_witness:
  "\<exists>t. slab_retain Debug 255 (\<lambda>k v c. (v < 15, c @ [k])) [] small_slab = (Inr (map fst (slab_iter 255 small_slab)), t)
     \<and> slab_view t = (\<lambda>k. case slab_view small_slab k of None \<Rightarrow> None | Some v \<Rightarrow> if v < 15 then Some v else None)"
  using slab_retain_filters [OF small_slab_inv(1), of Debug "\<lambda>k v. v < 15"] by auto


subsection \<open>The registry protects its references\<close>

text \<open>
  In a debug build a task cannot be removed while a reference to it is alive: after \<open>get\<close> the
  removal of any key panics and leaves the registry as it was, and so does \<open>retain\<close>; once the
  reference is dropped the removal succeeds and takes away that task only.
\<close>

theorem registry_borrow_guard:
  assumes "reg_inv Debug 0 r" and "reg_view r k = Some t"
  shows "\<exists>r1 r2. registry_get Debug k r = (Inr (Some t), r1) \<and> reg_view r1 = reg_view r
    \<and> registry_remove Debug j r1 = (Inl (Panic ''Registry: Cannot remove task that might be borrowed.''), r1)
    \<and> registry_retain Debug f c r1 = (Inl (Panic ''Registry: Cannot remove tasks that might be borrowed.''), r1)
    \<and> registry_remove Debug k (borrow_drop Debug r1) = (Inr (Some ()), r2)
    \<and> reg_view r2 = (reg_view r)(k := None)"
proof -
  obtain r1 where r1: "registry_get Debug k r = (Inr (Some t), r1)" "reg_view r1 = reg_view r" "reg_inv Debug (Suc 0) r1"
    using reg.get_ok [OF assms(1), of k] assms(2) by (auto simp: usize_MAX_def)
  have flag: "reg_borrow_flag r1 = 1" "reg_borrow_flag r1 \<noteq> SENTINEL"
    using r1(3) by (simp_all add: reg_inv_def SENTINEL_def usize_MAX_def)
  have "registry_remove Debug j r1 = (Inl (Panic ''Registry: Cannot remove task that might be borrowed.''), r1)"
    using flag by (simp add: registry_remove_def)
  moreover have "registry_retain Debug f c r1 = (Inl (Panic ''Registry: Cannot remove tasks that might be borrowed.''), r1)"
    using flag by (simp add: registry_retain_def guard_retain_def bind_exec_def)
  ultimately show ?thesis using r1 reg.get_drop_rem [OF assms(1) r1(1)] by auto
qed

definition small_registry :: "nat registry" where
  "small_registry = snd (registry_insert Debug 7 registry_new)"

theorem registry_borrow_guard_witness:
  "\<exists>r1. registry_get Debug 0 small_registry = (Inr (Some 7), r1)
     \<and> registry_remove Debug 0 r1 = (Inl (Panic ''Registry: Cannot remove task that might be borrowed.''), r1)"
proof -
  have new: "reg_inv Debug 0 (registry_new :: nat registry)"
    by (simp add: reg_inv_def registry_new_def slab_inv_new key_types_def)
  have run: "fst (registry_insert Debug (7::nat) registry_new) = Inr (Some 0)" by (simp add: run cong: run_cong)
  then have "reg_inv Debug 0 small_registry" "reg_view small_registry 0 = Some 7"
    using reg.ins_ok [OF new, of 7] by (auto simp: small_registry_def)
  then show ?thesis using registry_borrow_guard [of small_registry 0 7 0 "\<lambda>_ _ c. (True, c)" "()"] by blast
qed

end
