(* ===== verification/Wheel_Handle.thy ===== *)
theory Wheel_Handle
  imports Scheduler_Correct
begin

text \<open>
  \<open>src/dy/wheel.rs\<close> and the handle of \<open>src/dy/handle.rs\<close>: the scheduler behind a reference-counted
  pointer, the weak handles to it, and the future that polls it.

  The heap is the list of the \<open>Rc\<close> allocations with their strong counts; a freed allocation has count
  0 and no content. A handle is a weak pointer, the number of its allocation: weak pointers keep the
  address from being used again. \<open>unwrap_weak!\<close> upgrades the pointer for the time of the call.
\<close>

subsection \<open>The heap\<close>

record ('f, 'u) rc_box =
  strong :: nat
  content :: "('f, 'u) alg option"

type_synonym ('f, 'u) heap = "('f, 'u) rc_box list"

definition rc_new :: "('f, 'u) alg \<Rightarrow> ('f, 'u) heap \<Rightarrow> nat \<times> ('f, 'u) heap" where
  "rc_new a h = (length h, h @ [\<lparr>strong = 1, content = Some a\<rparr>])"

definition rc_at :: "nat \<Rightarrow> ('f, 'u) heap \<Rightarrow> ('f, 'u) rc_box" where
  "rc_at ptr h = (if ptr < length h then h ! ptr else \<lparr>strong = 0, content = None\<rparr>)"

definition rc_drop :: "nat \<Rightarrow> ('f, 'u) heap \<Rightarrow> ('f, 'u) heap" where
  "rc_drop ptr h =
     (let b = rc_at ptr h; n = strong b - 1 in
      h[ptr := \<lparr>strong = n, content = (if n = 0 then None else content b)\<rparr>])"

text \<open>\<open>unwrap_weak!(self, ret)\<close> followed by the call \<open>m\<close> on the scheduler, and the drop of the upgraded pointer.\<close>

definition with_weak :: "nat \<Rightarrow> 'a \<Rightarrow> (('f, 'u) alg, 'a) exec \<Rightarrow> (('f, 'u) heap, 'a) exec" where
  "with_weak ptr ret m h =
     (if strong (rc_at ptr h) = 0 then (Inr ret, h)
      else case content (rc_at ptr h) of
        None \<Rightarrow> (Inr ret, h)
      | Some a \<Rightarrow>
          (case m a of
             (r, a') \<Rightarrow>
               (r, rc_drop ptr (h[ptr := \<lparr>strong = strong (rc_at ptr h) + 1, content = Some a'\<rparr>]))))"

subsection \<open>The handle\<close>

definition h_is_valid :: "nat \<Rightarrow> ('f, 'u) heap \<Rightarrow> bool" where
  "h_is_valid ptr h = (strong (rc_at ptr h) \<noteq> 0)"

definition h_is_same :: "nat \<Rightarrow> nat \<Rightarrow> bool" where
  "h_is_same ptr1 ptr2 = (ptr1 = ptr2)"

text \<open>The identifier of a key, where there is one.\<close>

definition to_id :: "profile \<Rightarrow> nat option \<Rightarrow> (('f, 'u) alg, nat option) exec" where
  "to_id p k = (case k of
       None \<Rightarrow> return_exec None
     | Some v \<Rightarrow> bind_exec (lift_exec (id_from_usize p v)) (\<lambda>i. return_exec (Some i)))"

definition h_spawn_dyn :: "profile \<Rightarrow> nat \<Rightarrow> into_params \<Rightarrow> 'f \<Rightarrow> (('f, 'u) heap, nat option) exec" where
  "h_spawn_dyn p ptr params fut =
     with_weak ptr None (bind_exec (spawn_task p (params_from params) fut) (to_id p))"

definition h_spawn :: "profile \<Rightarrow> nat \<Rightarrow> into_params \<Rightarrow> 'f \<Rightarrow> (('f, 'u) heap, nat option) exec" where
  "h_spawn p ptr params fut = h_spawn_dyn p ptr params fut"

definition h_spawn_default :: "profile \<Rightarrow> nat \<Rightarrow> 'f \<Rightarrow> (('f, 'u) heap, nat option) exec" where
  "h_spawn_default p ptr fut = h_spawn_dyn p ptr (FromParams params_default) fut"

definition h_cancel :: "profile \<Rightarrow> nat \<Rightarrow> nat \<Rightarrow> (('f, 'u) heap, bool) exec" where
  "h_cancel p ptr i = with_weak ptr False (cancel p (id_to_usize i))"

definition h_suspend :: "profile \<Rightarrow> nat \<Rightarrow> nat \<Rightarrow> (('f, 'u) heap, bool) exec" where
  "h_suspend p ptr i = with_weak ptr False (suspend p (id_to_usize i))"

definition h_resume :: "profile \<Rightarrow> nat \<Rightarrow> nat \<Rightarrow> (('f, 'u) heap, bool) exec" where
  "h_resume p ptr i = with_weak ptr False (resume p (id_to_usize i))"

definition h_get_state :: "profile \<Rightarrow> nat \<Rightarrow> nat \<Rightarrow> (('f, 'u) heap, task_state option) exec" where
  "h_get_state p ptr i =
     with_weak ptr None (bind_exec (get_state p (id_to_usize i)) (\<lambda>st. return_exec (Some st)))"

definition h_current :: "profile \<Rightarrow> nat \<Rightarrow> (('f, 'u) heap, nat option) exec" where
  "h_current p ptr = with_weak ptr None (bind_exec (gets_exec get_current) (to_id p))"

definition h_with_name :: "profile \<Rightarrow> nat \<Rightarrow> nat \<Rightarrow> (string option \<Rightarrow> 'b) \<Rightarrow> (('f, 'u) heap, 'b) exec" where
  "h_with_name p ptr i func = with_weak ptr (func None) (with_name p (id_to_usize i) (\<lambda>n. func (as_str n)))"

text \<open>\<open>Cow<'static, str>\<close>: borrowed for a static name, owned for a dynamic one.\<close>

datatype cow = Borrowed string | Owned string

primrec cow_of :: "task_name \<Rightarrow> cow option" where
  "cow_of (Static s) = Some (Borrowed s)"
| "cow_of (Dynamic s) = Some (Owned s)"
| "cow_of NoName = None"

definition h_get_name :: "profile \<Rightarrow> nat \<Rightarrow> nat \<Rightarrow> (('f, 'u) heap, cow option) exec" where
  "h_get_name p ptr i = with_weak ptr None (with_name p (id_to_usize i) cow_of)"

definition h_get_current_name :: "profile \<Rightarrow> nat \<Rightarrow> (('f, 'u) heap, cow option) exec" where
  "h_get_current_name p ptr =
     bind_exec (h_current p ptr) (\<lambda>i. case i of None \<Rightarrow> return_exec None | Some j \<Rightarrow> h_get_name p ptr j)"

definition h_get_by_name :: "profile \<Rightarrow> nat \<Rightarrow> string \<Rightarrow> (('f, 'u) heap, nat option) exec" where
  "h_get_by_name p ptr name = with_weak ptr None (bind_exec (get_by_name p name) (to_id p))"

definition h_registered_count :: "nat \<Rightarrow> (('f, 'u) heap, nat) exec" where
  "h_registered_count ptr = with_weak ptr 0 (gets_exec registered_count)"

subsection \<open>Wheels\<close>

text \<open>A \<open>Wheel\<close> owns one strong pointer and a handle to the same allocation.\<close>

definition wheel_from_inner :: "('f, 'u) alg \<Rightarrow> ('f, 'u) heap \<Rightarrow> nat \<times> ('f, 'u) heap" where
  "wheel_from_inner a h = rc_new a h"

definition wheel_new :: "'u \<Rightarrow> nat list list \<Rightarrow> ('f, 'u) heap \<Rightarrow> nat \<times> ('f, 'u) heap" where
  "wheel_new u ext h = wheel_from_inner (alg_new u ext) h"

definition wheel_handle :: "nat \<Rightarrow> nat" where
  "wheel_handle wheel = wheel"

definition wheel_drop :: "nat \<Rightarrow> ('f, 'u) heap \<Rightarrow> ('f, 'u) heap" where
  "wheel_drop wheel h = rc_drop wheel h"

text \<open>\<open>lock\<close>: \<open>Rc::try_unwrap\<close> takes the scheduler out when the wheel's pointer is the only one.\<close>

definition wheel_lock :: "nat \<Rightarrow> (('f, 'u) heap, ('f, 'u) alg) exec" where
  "wheel_lock wheel h =
     (case content (rc_at wheel h) of
        Some a \<Rightarrow>
          if strong (rc_at wheel h) = 1 then (Inr a, h[wheel := \<lparr>strong = 0, content = None\<rparr>])
          else (Inl (Panic ''Cannot lock inside call to handle's method.''), rc_drop wheel h)
      | None \<Rightarrow> (Inl (Panic ''Cannot lock inside call to handle's method.''), rc_drop wheel h))"

definition wheel_unlock :: "('f, 'u) alg \<Rightarrow> ('f, 'u) heap \<Rightarrow> nat \<times> ('f, 'u) heap" where
  "wheel_unlock a h = wheel_from_inner a h"

datatype suspend_error = SuspendError

definition poll_result :: "bool poll \<Rightarrow> (suspend_error + unit) poll" where
  "poll_result r = (case r of Pending \<Rightarrow> Pending | Ready flag \<Rightarrow> Ready (if flag then Inr () else Inl SuspendError))"

text \<open>\<open>Future for LockedWheel\<close> and, through the pointer, \<open>Future for Wheel\<close>; \<open>n\<close> bounds the iterations.\<close>

definition locked_poll ::
  "profile \<Rightarrow> ('f, 'u) body \<Rightarrow> nat \<Rightarrow> nat \<Rightarrow> ('f, 'u) alg \<Rightarrow> ((panic + (suspend_error + unit) poll) \<times> ('f, 'u) alg) option"
where
  "locked_poll p body w n a =
     map_option (\<lambda>(r, a'). (map_sum id poll_result r, a')) (poll_internal p body w n a)"

definition wheel_poll ::
  "profile \<Rightarrow> ('f, 'u) body \<Rightarrow> nat \<Rightarrow> nat \<Rightarrow> nat \<Rightarrow> ('f, 'u) heap \<Rightarrow>
   ((panic + (suspend_error + unit) poll) \<times> ('f, 'u) heap) option" where
  "wheel_poll p body w n wheel h =
     (case content (rc_at wheel h) of
        None \<Rightarrow> None
      | Some a \<Rightarrow>
          map_option (\<lambda>(r, a'). (r, h[wheel := (rc_at wheel h)\<lparr>content := Some a'\<rparr>])) (locked_poll p body w n a))"

text \<open>
  \<open>spin_block\<close>: \<open>spin_block_on\<close> with the future above, for at most \<open>k\<close> polls of at most \<open>n\<close> iterations.
  The wheel is consumed; its pointer is dropped when the call ends. \<open>spin_block_forever\<close> panics
  however \<open>spin_block\<close> ends.
\<close>

primrec locked_spin_block ::
  "profile \<Rightarrow> ('f, 'u) body \<Rightarrow> nat \<Rightarrow> nat \<Rightarrow> nat \<Rightarrow> ('f, 'u) alg \<Rightarrow>
   ((panic + (suspend_error + unit)) \<times> ('f, 'u) alg) option" where
  "locked_spin_block p body w n 0 a = None"
| "locked_spin_block p body w n (Suc k) a =
     (case locked_poll p body w n a of
        None \<Rightarrow> None
      | Some (Inl e, a') \<Rightarrow> Some (Inl e, a')
      | Some (Inr (Ready v), a') \<Rightarrow> Some (Inr v, a')
      | Some (Inr Pending, a') \<Rightarrow> locked_spin_block p body w n k a')"

definition wheel_spin_block ::
  "profile \<Rightarrow> ('f, 'u) body \<Rightarrow> nat \<Rightarrow> nat \<Rightarrow> nat \<Rightarrow> nat \<Rightarrow> ('f, 'u) heap \<Rightarrow>
   ((panic + (suspend_error + unit)) \<times> ('f, 'u) heap) option" where
  "wheel_spin_block p body w n k wheel h =
     (case content (rc_at wheel h) of
        None \<Rightarrow> None
      | Some a \<Rightarrow>
          map_option (\<lambda>(r, a'). (r, wheel_drop wheel (h[wheel := (rc_at wheel h)\<lparr>content := Some a'\<rparr>])))
            (locked_spin_block p body w n k a))"

definition spin_block_forever :: "string \<Rightarrow> (panic + (suspend_error + unit)) \<Rightarrow> panic" where
  "spin_block_forever name r =
     (case r of
        Inl e \<Rightarrow> e
      | Inr (Inl _) \<Rightarrow> Panic ''called `Result::unwrap()` on an `Err` value: SuspendError''
      | Inr (Inr _) \<Rightarrow> Panic (name @ ''::spin_block_forever(): Didn't expect all tasks to finish.''))"

subsection \<open>Reference counts\<close>

text \<open>An allocation is freed exactly when its count is zero.\<close>

definition rc_ok :: "('f, 'u) heap \<Rightarrow> bool" where
  "rc_ok h \<longleftrightarrow> (\<forall>b \<in> set h. strong b = 0 \<longleftrightarrow> content b = None)"

definition same_counts :: "('f, 'u) heap \<Rightarrow> ('f, 'u) heap \<Rightarrow> bool" where
  "same_counts h h' \<longleftrightarrow> rc_ok h' \<and> map strong h' = map strong h"

lemma rc_ok_at: "rc_ok h \<Longrightarrow> strong (rc_at ptr h) = 0 \<longleftrightarrow> content (rc_at ptr h) = None"
  by (simp add: rc_ok_def rc_at_def)

lemma rc_ok_update: "rc_ok h \<Longrightarrow> (strong b = 0 \<longleftrightarrow> content b = None) \<Longrightarrow> rc_ok (h[ptr := b])"
  unfolding rc_ok_def by (auto dest: subsetD [OF set_update_subset_insert])

lemma rc_at_bound: "strong (rc_at ptr h) \<noteq> 0 \<Longrightarrow> ptr < length h"
  by (simp add: rc_at_def split: if_splits)

lemma rc_at_update [simp]: "rc_at q (h[ptr := b]) = (if q = ptr \<and> q < length h then b else rc_at q h)"
  by (cases "q = ptr") (simp_all add: rc_at_def)

lemma same_counts_refl: "rc_ok h \<Longrightarrow> same_counts h h"
  by (simp add: same_counts_def)

lemma same_counts_trans: "same_counts h h' \<Longrightarrow> same_counts h' h'' \<Longrightarrow> same_counts h h''"
  by (simp add: same_counts_def)

lemma same_counts_at: "same_counts h h' \<Longrightarrow> strong (rc_at ptr h') = strong (rc_at ptr h)"
proof -
  assume "same_counts h h'"
  then have eq: "map strong h' = map strong h" by (simp add: same_counts_def)
  then have "length h' = length h" by (rule map_eq_imp_length_eq)
  then show ?thesis using arg_cong [OF eq, of "\<lambda>xs. xs ! ptr"] by (auto simp: rc_at_def)
qed

text \<open>What a call through a handle does: nothing through an invalid one, and otherwise its work on the content.\<close>

lemma with_weak_invalid: "strong (rc_at ptr h) = 0 \<Longrightarrow> with_weak ptr ret m h = (Inr ret, h)"
  by (simp add: with_weak_def)

lemma with_weak_valid:
  assumes "strong (rc_at ptr h) \<noteq> 0" and "content (rc_at ptr h) = Some a" and "m a = (r, a')"
  shows "with_weak ptr ret m h = (r, h[ptr := (rc_at ptr h)\<lparr>content := Some a'\<rparr>])"
  using assms rc_at_bound [OF assms(1)] by (cases "rc_at ptr h") (simp add: with_weak_def rc_drop_def)

lemma with_weak_counts:
  assumes "rc_ok h"
  shows "same_counts h (snd (with_weak ptr ret m h))"
    and "q \<noteq> ptr \<Longrightarrow> rc_at q (snd (with_weak ptr ret m h)) = rc_at q h"
proof -
  have "same_counts h (snd (with_weak ptr ret m h)) \<and> (q \<noteq> ptr \<longrightarrow> rc_at q (snd (with_weak ptr ret m h)) = rc_at q h)"
  proof (cases "strong (rc_at ptr h) = 0")
    case True
    then show ?thesis using assms by (simp add: with_weak_invalid same_counts_refl)
  next
    case False
    then obtain a where a: "content (rc_at ptr h) = Some a" using rc_ok_at [OF assms, of ptr] by auto
    obtain r a' where m: "m a = (r, a')" by fastforce
    have "map strong (h[ptr := (rc_at ptr h)\<lparr>content := Some a'\<rparr>]) = map strong h"
      using rc_at_bound [OF False] by (simp add: map_update list_update_same_conv rc_at_def)
    then show ?thesis
      using False assms with_weak_valid [of ptr h a m, OF False a m] by (simp add: same_counts_def rc_ok_update)
  qed
  then show "same_counts h (snd (with_weak ptr ret m h))"
    and "q \<noteq> ptr \<Longrightarrow> rc_at q (snd (with_weak ptr ret m h)) = rc_at q h" by simp_all
qed

subsection \<open>The contract of a handle's operation\<close>

text \<open>
  Through an invalid handle the operation returns its default and does nothing; it leaves all
  reference counts as they were and touches no other allocation.
\<close>

locale handle_call =
  fixes ptr :: nat and ret :: 'a and call :: "(('f, 'u) heap, 'a) exec"
  assumes invalid: "strong (rc_at ptr h) = 0 \<Longrightarrow> call h = (Inr ret, h)"
    and counts: "rc_ok h \<Longrightarrow> same_counts h (snd (call h))"
    and others: "rc_ok h \<Longrightarrow> q \<noteq> ptr \<Longrightarrow> rc_at q (snd (call h)) = rc_at q h"
begin

lemma keeps_valid: "rc_ok h \<Longrightarrow> h_is_valid q (snd (call h)) = h_is_valid q h"
  using same_counts_at [OF counts] by (simp add: h_is_valid_def)

lemma keeps_ok: "rc_ok h \<Longrightarrow> rc_ok (snd (call h))"
  using counts by (simp add: same_counts_def)

lemma then_call:
  assumes "\<And>x. handle_call ptr ret' (k x)" and "k ret = return_exec ret'"
  shows "handle_call ptr ret' (bind_exec call k)"
proof
  fix h :: "('f, 'u) heap" and q
  show "bind_exec call k h = (Inr ret', h)" if "strong (rc_at ptr h) = 0"
    using that by (simp add: bind_exec_def invalid assms(2) return_exec_def)
  assume h: "rc_ok h"
  show "same_counts h (snd (bind_exec call k h))"
    using counts [OF h] handle_call.counts [OF assms(1) keeps_ok [OF h]]
    by (auto simp: bind_exec_def split: prod.split sum.split intro: same_counts_trans)
  show "rc_at q (snd (bind_exec call k h)) = rc_at q h" if "q \<noteq> ptr"
    using that others [OF h, of q] handle_call.others [OF assms(1) keeps_ok [OF h], of q]
    by (auto simp: bind_exec_def split: prod.split sum.split)
qed

end

lemma weak_call: "handle_call ptr ret (with_weak ptr ret m)"
  by unfold_locales (simp_all add: with_weak_invalid with_weak_counts)

interpretation hspawn: handle_call ptr None "h_spawn_dyn p ptr params fut" for p ptr params fut
  unfolding h_spawn_dyn_def by (rule weak_call)

interpretation hcancel: handle_call ptr False "h_cancel p ptr i" for p ptr i
  unfolding h_cancel_def by (rule weak_call)

interpretation hsuspend: handle_call ptr False "h_suspend p ptr i" for p ptr i
  unfolding h_suspend_def by (rule weak_call)

interpretation hresume: handle_call ptr False "h_resume p ptr i" for p ptr i
  unfolding h_resume_def by (rule weak_call)

interpretation hstate: handle_call ptr None "h_get_state p ptr i" for p ptr i
  unfolding h_get_state_def by (rule weak_call)

interpretation hcurrent: handle_call ptr None "h_current p ptr" for p ptr
  unfolding h_current_def by (rule weak_call)

interpretation hwith: handle_call ptr "func None" "h_with_name p ptr i func" for p ptr i func
  unfolding h_with_name_def by (rule weak_call)

interpretation hname: handle_call ptr None "h_get_name p ptr i" for p ptr i
  unfolding h_get_name_def by (rule weak_call)

interpretation hcurname: handle_call ptr None "h_get_current_name p ptr" for p ptr
  unfolding h_get_current_name_def
proof (rule hcurrent.then_call)
  show "handle_call ptr None (case i of None \<Rightarrow> return_exec None | Some j \<Rightarrow> h_get_name p ptr j)" for i
    using hname.handle_call_axioms
    by (cases i) (auto simp: handle_call_def return_exec_def same_counts_refl)
qed simp

interpretation hbyname: handle_call ptr None "h_get_by_name p ptr name" for p ptr name
  unfolding h_get_by_name_def by (rule weak_call)

interpretation hcount: handle_call ptr 0 "h_registered_count ptr" for ptr
  unfolding h_registered_count_def by (rule weak_call)

subsection \<open>Sequences of calls\<close>

text \<open>A call of a client; the client goes on with the heap the call leaves, also after a panic it caught.\<close>

datatype ('f, 'b) client_call =
    HSpawn into_params 'f | HCancel nat | HSuspend nat | HResume nat | HGetState nat | HCurrent
  | HWithName nat "string option \<Rightarrow> 'b" | HGetName nat | HGetCurrentName | HGetByName string | HCount

primrec client_effect :: "profile \<Rightarrow> nat \<Rightarrow> ('f, 'b) client_call \<Rightarrow> ('f, 'u) heap \<Rightarrow> ('f, 'u) heap" where
  "client_effect p ptr (HSpawn params fut) h = snd (h_spawn p ptr params fut h)"
| "client_effect p ptr (HCancel i) h = snd (h_cancel p ptr i h)"
| "client_effect p ptr (HSuspend i) h = snd (h_suspend p ptr i h)"
| "client_effect p ptr (HResume i) h = snd (h_resume p ptr i h)"
| "client_effect p ptr (HGetState i) h = snd (h_get_state p ptr i h)"
| "client_effect p ptr HCurrent h = snd (h_current p ptr h)"
| "client_effect p ptr (HWithName i func) h = snd (h_with_name p ptr i func h)"
| "client_effect p ptr (HGetName i) h = snd (h_get_name p ptr i h)"
| "client_effect p ptr HGetCurrentName h = snd (h_get_current_name p ptr h)"
| "client_effect p ptr (HGetByName name) h = snd (h_get_by_name p ptr name h)"
| "client_effect p ptr HCount h = snd (h_registered_count ptr h)"

lemmas handle_counts = hspawn.counts hcancel.counts hsuspend.counts hresume.counts hstate.counts
  hcurrent.counts hwith.counts hname.counts hcurname.counts hbyname.counts hcount.counts

lemmas handle_others = hspawn.others hcancel.others hsuspend.others hresume.others hstate.others
  hcurrent.others hwith.others hname.others hcurname.others hbyname.others hcount.others

lemmas handle_invalid = hspawn.invalid hcancel.invalid hsuspend.invalid hresume.invalid hstate.invalid
  hcurrent.invalid hwith.invalid hname.invalid hcurname.invalid hbyname.invalid hcount.invalid

lemma client_counts: "rc_ok h \<Longrightarrow> same_counts h (client_effect p ptr c h)"
  by (cases c) (simp_all add: handle_counts h_spawn_def)

lemma client_others: "rc_ok h \<Longrightarrow> q \<noteq> ptr \<Longrightarrow> rc_at q (client_effect p ptr c h) = rc_at q h"
  by (cases c) (simp_all add: handle_others h_spawn_def)

definition client_run :: "profile \<Rightarrow> (nat \<times> ('f, 'b) client_call) list \<Rightarrow> ('f, 'u) heap \<Rightarrow> ('f, 'u) heap" where
  "client_run p cs h = fold (\<lambda>(ptr, c). client_effect p ptr c) cs h"

lemma client_run_counts: "rc_ok h \<Longrightarrow> same_counts h (client_run p cs h)"
proof (induction cs arbitrary: h)
  case (Cons x cs)
  obtain ptr c where x: "x = (ptr, c)" by fastforce
  have step: "same_counts h (client_effect p ptr c h)" by (rule client_counts [OF Cons.prems])
  then have "rc_ok (client_effect p ptr c h)" by (simp add: same_counts_def)
  from same_counts_trans [OF step Cons.IH [OF this]] show ?case by (simp add: client_run_def x)
qed (simp add: client_run_def same_counts_refl)

lemma client_run_others:
  "rc_ok h \<Longrightarrow> \<forall>(ptr, c) \<in> set cs. ptr \<noteq> q \<Longrightarrow> rc_at q (client_run p cs h) = rc_at q h"
proof (induction cs arbitrary: h)
  case (Cons x cs)
  obtain ptr c where x: "x = (ptr, c)" by fastforce
  have "rc_ok (client_effect p ptr c h)" using client_counts [OF Cons.prems(1), of p ptr c] by (simp add: same_counts_def)
  then show ?case using Cons client_others [OF Cons.prems(1), of q ptr p c] by (auto simp: client_run_def x)
qed (simp add: client_run_def)

subsection \<open>Properties\<close>

text \<open>An example heap: one wheel with two yielding tasks.\<close>

definition wheel_heap :: "(yield_times, unit) heap" where
  "wheel_heap = snd (wheel_from_inner two_yields [])"

lemma wheel_heap_ok: "rc_ok wheel_heap" "rc_at 0 wheel_heap = \<lparr>strong = 1, content = Some two_yields\<rparr>"
  by (simp_all add: wheel_heap_def wheel_from_inner_def rc_new_def rc_ok_def rc_at_def)

text \<open>
  C17. \<open>lock\<close> succeeds after any sequence of completed calls on handles, whatever their results, and
  takes the scheduler as those calls left it: a call on a handle gives back the reference it took.
  When no call went through the wheel's own handles the scheduler is the one it was.
\<close>

theorem lock_after_calls:
  assumes "rc_ok h" and "rc_at wheel h = \<lparr>strong = 1, content = Some a\<rparr>"
  shows "\<exists>a'. wheel_lock wheel (client_run p cs h)
      = (Inr a', (client_run p cs h)[wheel := \<lparr>strong = 0, content = None\<rparr>])
    \<and> ((\<forall>(ptr, c) \<in> set cs. ptr \<noteq> wheel) \<longrightarrow> a' = a)"
proof -
  note run = client_run_counts [OF assms(1), of p cs]
  have "strong (rc_at wheel (client_run p cs h)) = 1" using same_counts_at [OF run, of wheel] assms(2) by simp
  moreover then obtain a' where "content (rc_at wheel (client_run p cs h)) = Some a'"
    using run rc_ok_at [of "client_run p cs h" wheel] by (auto simp: same_counts_def)
  ultimately show ?thesis
    using client_run_others [OF assms(1), of cs wheel p] assms(2) by (auto simp: wheel_lock_def)
qed

theorem lock_after_calls_witness:
  "\<exists>a'. fst (wheel_lock 0 (client_run Debug [(0, HSuspend 1), (0, HCancel 2 :: (yield_times, unit) client_call)] wheel_heap)) = Inr a'"
  using lock_after_calls [OF wheel_heap_ok, of Debug "[(0, HSuspend 1), (0, HCancel 2 :: (yield_times, unit) client_call)]"]
  by auto

text \<open>
  Locking a wheel invalidates its handles for good: every operation through them returns its
  default and leaves the heap alone, also after \<open>unlock\<close>. Unlocking gives a wheel in a new
  allocation with the same tasks, whose handle is valid and is not the same as the old ones.
\<close>

theorem lock_invalidates:
  assumes "wheel_lock wheel h = (Inr a, h1)" and "wheel_unlock a h1 = (wheel', h2)"
  shows "\<not> h_is_valid wheel h1 \<and> \<not> h_is_valid wheel h2 \<and> h_is_valid (wheel_handle wheel') h2
    \<and> \<not> h_is_same wheel (wheel_handle wheel') \<and> rc_at wheel' h2 = \<lparr>strong = 1, content = Some a\<rparr>
    \<and> h_spawn p wheel params fut h2 = (Inr None, h2) \<and> h_cancel p wheel i h2 = (Inr False, h2)
    \<and> h_suspend p wheel i h2 = (Inr False, h2) \<and> h_resume p wheel i h2 = (Inr False, h2)
    \<and> h_get_state p wheel i h2 = (Inr None, h2) \<and> h_current p wheel h2 = (Inr None, h2)
    \<and> h_get_name p wheel i h2 = (Inr None, h2) \<and> h_get_by_name p wheel name h2 = (Inr None, h2)
    \<and> h_registered_count wheel h2 = (Inr 0, h2)"
proof -
  have lock: "h1 = h[wheel := \<lparr>strong = 0, content = None\<rparr>]" "wheel < length h"
    using assms(1) rc_at_bound [of wheel h] by (auto simp: wheel_lock_def split: option.splits if_splits)
  have new: "wheel' = length h" "h2 = h1 @ [\<lparr>strong = 1, content = Some a\<rparr>]"
    using assms(2) lock by (auto simp: wheel_unlock_def wheel_from_inner_def rc_new_def)
  have at: "rc_at wheel h1 = \<lparr>strong = 0, content = None\<rparr>" "rc_at wheel h2 = \<lparr>strong = 0, content = None\<rparr>"
    "rc_at wheel' h2 = \<lparr>strong = 1, content = Some a\<rparr>"
    using lock by (simp_all add: rc_at_def new nth_append)
  then show ?thesis
    using lock(2) by (simp add: handle_invalid h_spawn_def h_is_valid_def h_is_same_def wheel_handle_def new(1))
qed

theorem lock_invalidates_witness:
  "\<exists>h1 h2. wheel_lock 0 wheel_heap = (Inr two_yields, h1) \<and> wheel_unlock two_yields h1 = (1, h2)
     \<and> h_cancel Debug 0 1 h2 = (Inr False, h2)"
proof -
  have l: "wheel_lock 0 wheel_heap = (Inr two_yields, [\<lparr>strong = 0, content = None\<rparr>])"
    by (simp add: wheel_lock_def wheel_heap_ok) (simp add: wheel_heap_def wheel_from_inner_def rc_new_def)
  have u: "wheel_unlock two_yields [\<lparr>strong = 0, content = None\<rparr>]
      = (1, [\<lparr>strong = 0, content = None\<rparr>, \<lparr>strong = 1, content = Some two_yields\<rparr>])"
    by (simp add: wheel_unlock_def wheel_from_inner_def rc_new_def)
  show ?thesis
    using l u lock_invalidates [OF l u, where p = Debug and i = 1] by blast
qed

text \<open>
  C32. The identifier a spawn returns names the new task: it is not zero, and through the same
  handle it gives the state and the name the parameters ask for.
\<close>

theorem spawn_then_lookup:
  assumes "rc_ok h" and "content (rc_at ptr h) = Some a" and "alg_inv p b c q a" and "b < usize_MAX"
    and "h_spawn p ptr params fut h = (Inr x, h')"
  shows "\<exists>i. x = Some i \<and> i \<noteq> 0 \<and> i \<le> usize_MAX
    \<and> h_get_state p ptr i h' = (Inr (Some (if sp_suspended (params_from params) then Suspended else Runnable)), h')
    \<and> h_get_name p ptr i h' = (Inr (cow_of (sp_name (params_from params))), h')"
proof -
  let ?sp = "params_from params"
  have valid: "strong (rc_at ptr h) \<noteq> 0" using assms(1,2) rc_ok_at [of h ptr] by simp
  obtain r a' where run: "spawn_task p ?sp fut a = (r, a')" by fastforce
  note ok = spawn_task_ok [OF assms(3), of ?sp fut, unfolded wpx_def run]
  note whole = with_weak_valid [OF valid assms(2), of "bind_exec (spawn_task p ?sp fut) (to_id p)"]
  obtain key where r: "r = Inr key"
    using assms(5) whole run by (cases r) (auto simp: h_spawn_def h_spawn_dyn_def bind_exec_def)
  with ok obtain k where k: "key = Some k" "alg_inv p b c q a'" "spawned ?sp fut k a a'" by auto
  have t: "task_at a' k = Some (dynamic_future_new fut (length (arcs a)) ?sp)" "arcs a' = arcs a @ [True]"
    using k(3) by (simp_all add: spawned_def)
  have "k < usize_MAX"
    using task_at_capacity [OF k(2) t(1)] reg.cap_max [of p b "registry a'"] k(2) by (simp add: alg_inv_def)
  then have id: "id_from_usize p k = Inr (k + 1)" by (simp add: id_from_usize_def)
  have h': "h' = h[ptr := (rc_at ptr h)\<lparr>content := Some a'\<rparr>]" "x = Some (k + 1)"
    using assms(5) whole run r k(1) id
    by (auto simp: h_spawn_def h_spawn_dyn_def bind_exec_def to_id_def lift_exec_def return_exec_def)
  then have at: "rc_at ptr h' = (rc_at ptr h)\<lparr>content := Some a'\<rparr>" using rc_at_bound [OF valid] by simp
  then have call: "with_weak ptr ret m h' = (y, h')" if "m a' = (y, a')" for ret m y
    using with_weak_valid [of ptr h' a' m y a' ret] valid that rc_at_bound [OF valid] h'(1) by simp
  have "h_get_state p ptr (k + 1) h' = (Inr (Some (if sp_suspended ?sp then Suspended else Runnable)), h')"
    unfolding h_get_state_def
    by (rule call) (auto simp: id_to_usize_def bind_exec_def return_exec_def get_state_eq [OF k(2) assms(4)] t state_of_def is_runnable_def)
  moreover have "h_get_name p ptr (k + 1) h' = (Inr (cow_of (sp_name ?sp)), h')"
    unfolding h_get_name_def by (rule call) (simp add: id_to_usize_def with_name_eq [OF k(2) assms(4)] t)
  ultimately show ?thesis using h'(2) \<open>k < usize_MAX\<close> by simp
qed

theorem spawn_then_lookup_witness:
  "\<exists>h' i. h_spawn Debug 0 (FromStr ''third'') (yield_times_new 1) wheel_heap = (Inr (Some i), h')
     \<and> h_get_name Debug 0 i h' = (Inr (Some (Borrowed ''third'')), h')"
proof -
  have "fst (h_spawn Debug 0 (FromStr ''third'') (yield_times_new 1) wheel_heap) = Inr (Some 3)"
    by (simp add: h_spawn_def h_spawn_dyn_def with_weak_def wheel_heap_ok)
       (simp add: run two_yields_def to_id_def id_from_usize_def cong: run_cong)
  then obtain h' where sp: "h_spawn Debug 0 (FromStr ''third'') (yield_times_new 1) wheel_heap = (Inr (Some 3), h')"
    by (cases "h_spawn Debug 0 (FromStr ''third'') (yield_times_new 1) wheel_heap") simp
  show ?thesis
    using spawn_then_lookup [OF wheel_heap_ok(1) _ two_yields_idle _ sp] sp
    by (simp add: wheel_heap_ok usize_MAX_def params_named_def params_name_def params_default_def)
qed

text \<open>
  C18. Blocking on a wheel with one strong reference, in which every stored task is runnable (\<open>all_ready\<close>: none is
  suspended, waiting or cancelled), and whose tasks all await a future that wakes itself whenever it is pending and is
  pending a bounded number of times (\<open>rank\<close> falls): \<open>spin_block\<close> returns \<open>Ok(())\<close> after one poll. The state it ends in has no
  task left, every task having run to its end, and the wheel is then freed, so that its handles are invalid;
  \<open>spin_block_forever\<close> panics at that point. The bound on the iterations is that of the poll.
\<close>

theorem spin_block_completes:
  assumes "rc_at wheel h = \<lparr>strong = 1, content = Some a\<rparr>" and "alg_idle p a" and "all_ready a"
    and "self_waking leaf"
    and "\<And>f u f' u' woke. leaf f u = (Pending, f', u', woke) \<Longrightarrow> rank f' < rank f"
  shows "\<exists>a' h'. locked_spin_block p (await_body leaf) w (Suc (weight (\<lambda>f. Suc (rank f)) a)) 1 a = Some (Inr (Inr ()), a')
    \<and> task_at a' = Map.empty
    \<and> wheel_spin_block p (await_body leaf) w (Suc (weight (\<lambda>f. Suc (rank f)) a)) 1 wheel h = Some (Inr (Inr ()), h')
    \<and> \<not> h_is_valid wheel h'"
proof -
  let ?n = "Suc (weight (\<lambda>f. Suc (rank f)) a)"
  obtain a' where a': "poll_internal p (await_body leaf) w ?n a = Some (Inr (Ready True), a')" "task_at a' = Map.empty"
    using yielding_poll [where rank = rank and w = w, OF assms(2-4)] assms(5) by blast
  then have sp: "locked_spin_block p (await_body leaf) w ?n 1 a = Some (Inr (Inr ()), a')"
    by (simp add: locked_poll_def poll_result_def)
  have "wheel < length h" using rc_at_bound [of wheel h] assms(1) by simp
  then have "\<exists>h'. wheel_spin_block p (await_body leaf) w ?n 1 wheel h = Some (Inr (Inr ()), h') \<and> \<not> h_is_valid wheel h'"
    using assms(1) sp
    by (auto simp: wheel_spin_block_def wheel_drop_def rc_drop_def h_is_valid_def)
  then show ?thesis using sp a'(2) by blast
qed

theorem spin_block_completes_witness:
  "\<exists>a' h'. locked_spin_block Debug (await_body yield_times_poll) 7 (Suc (weight (\<lambda>f. Suc (remaining f)) two_yields)) 1 two_yields
       = Some (Inr (Inr ()), a') \<and> task_at a' = Map.empty
    \<and> wheel_spin_block Debug (await_body yield_times_poll) 7 (Suc (weight (\<lambda>f. Suc (remaining f)) two_yields)) 1 0 wheel_heap
       = Some (Inr (Inr ()), h') \<and> \<not> h_is_valid 0 h'"
  by (rule spin_block_completes [OF wheel_heap_ok(2) two_yields_idle two_yields_ready yields_self_waking(2)])
     (auto simp: yield_times_poll_def split: if_splits)

end
