(* ===== verification/Timing.thy ===== *)
theory Timing
  imports Chunk_Slab
begin

text \<open>
  \<open>src/utils/timing.rs\<close> and \<open>src/utils/load.rs\<close>: the timing group that shares time between entries in
  proportion to their slots, and the future that runs in such a group.

  The unit of time is a type with the operations of the trait \<open>TimerCount\<close>, given as a record of
  them; additions and multiplications may panic. The contract the theorems rely on is the locale
  \<open>timer_count\<close>, interpreted on the unsigned integers of every width with checked arithmetic and on
  \<open>Duration\<close>.
\<close>

subsection \<open>Units of time\<close>

record 'c timer_ops =
  tc_default :: 'c
  tc_add :: "'c \<Rightarrow> 'c \<Rightarrow> panic + 'c"
  div_by :: "'c \<Rightarrow> nat \<Rightarrow> 'c"
  mul_by :: "'c \<Rightarrow> nat \<Rightarrow> panic + 'c"

text \<open>\<open>impl_count!\<close> at an unsigned integer type with the largest value \<open>cm\<close>.\<close>

definition int_check :: "profile \<Rightarrow> nat \<Rightarrow> nat \<Rightarrow> panic + nat" where
  "int_check p cm n =
     (if n \<le> cm then Inr n else case p of Debug \<Rightarrow> Inl ArithOverflow | Release \<Rightarrow> Inr (n mod (cm + 1)))"

definition uint_ops :: "profile \<Rightarrow> nat \<Rightarrow> nat timer_ops" where
  "uint_ops p cm =
     \<lparr>tc_default = 0, tc_add = (\<lambda>a b. int_check p cm (a + b)), div_by = (\<lambda>a n. a div n),
      mul_by = (\<lambda>a n. int_check p cm (a * n))\<rparr>"

text \<open>\<open>Duration\<close>, a number of nanoseconds; its operators panic on overflow in every profile.\<close>

definition DURATION_MAX :: nat where
  "DURATION_MAX = (2 ^ 64 - 1) * 10 ^ 9 + 999999999"

definition duration_ops :: "nat timer_ops" where
  "duration_ops =
     \<lparr>tc_default = 0,
      tc_add = (\<lambda>a b. if a + b \<le> DURATION_MAX then Inr (a + b) else Inl (Panic ''overflow when adding durations'')),
      div_by = (\<lambda>a n. a div n),
      mul_by = (\<lambda>a n. if a * n \<le> DURATION_MAX then Inr (a * n)
                      else Inl (Panic ''overflow when multiplying duration by scalar''))\<rparr>"

subsection \<open>The group\<close>

record 'c time_entry =
  te_sum :: 'c
  te_proportion :: nat

record 'c timing_group =
  tg_info :: "'c time_entry chunk_slab"
  tg_max :: 'c

definition get_proportional :: "'c timer_ops \<Rightarrow> 'c time_entry \<Rightarrow> 'c" where
  "get_proportional ops entry = div_by ops (te_sum entry) (te_proportion entry)"

definition tg_new :: "'c timer_ops \<Rightarrow> 'c timing_group" where
  "tg_new ops = \<lparr>tg_info = slab_new, tg_max = tc_default ops\<rparr>"

definition tg_with_capacity :: "'c timer_ops \<Rightarrow> nat \<Rightarrow> 'c timing_group" where
  "tg_with_capacity ops capacity = \<lparr>tg_info = snd (slab_with_capacity capacity), tg_max = tc_default ops\<rparr>"

definition tg_insert :: "profile \<Rightarrow> 'c timer_ops \<Rightarrow> nat \<Rightarrow> ('c timing_group, nat) exec" where
  "tg_insert p ops slot_count g =
     (if slot_count = 0 then (Inl (Panic ''Time slot count is zero.''), g)
      else case slab_insert p usize_MAX \<lparr>te_sum = tc_default ops, te_proportion = slot_count\<rparr> (tg_info g) of
        (r, sl) \<Rightarrow> (r, g\<lparr>tg_info := sl\<rparr>))"

definition tg_remove :: "profile \<Rightarrow> nat \<Rightarrow> ('c timing_group, unit) exec" where
  "tg_remove p key g =
     (case slab_remove p key (tg_info g) of
        (Inl e, sl) \<Rightarrow> (Inl e, g\<lparr>tg_info := sl\<rparr>)
      | (Inr v, sl) \<Rightarrow>
          (case v of
             None \<Rightarrow> (Inl (Panic ''Error: unknown key passed to TimingGroup::remove''), g\<lparr>tg_info := sl\<rparr>)
           | Some _ \<Rightarrow> (Inr (), g\<lparr>tg_info := sl\<rparr>)))"

definition tg_contains :: "nat \<Rightarrow> 'c timing_group \<Rightarrow> bool" where
  "tg_contains key g = (slab_get key (tg_info g) \<noteq> None)"

definition tg_count :: "'c timing_group \<Rightarrow> nat" where
  "tg_count g = slab_len (tg_info g)"

definition get_slot_count :: "nat \<Rightarrow> 'c timing_group \<Rightarrow> nat option" where
  "get_slot_count key g = map_option te_proportion (slab_get key (tg_info g))"

definition tg_clear :: "'c timer_ops \<Rightarrow> 'c timing_group \<Rightarrow> 'c timing_group" where
  "tg_clear ops g = g\<lparr>tg_info := slab_clear (tg_info g), tg_max := tc_default ops\<rparr>"

text \<open>The values \<open>get_proportional\<close> of all entries, in the order of the iterator, and their minimum.\<close>

definition proportionals :: "'c timer_ops \<Rightarrow> 'c timing_group \<Rightarrow> 'c list" where
  "proportionals ops g = map (\<lambda>(_, v). get_proportional ops v) (slab_iter usize_MAX (tg_info g))"

definition can_execute :: "('c :: linorder) timer_ops \<Rightarrow> nat \<Rightarrow> 'c timing_group \<Rightarrow> panic + bool" where
  "can_execute ops key g =
     (case slab_get key (tg_info g) of
        None \<Rightarrow> Inl (Panic ''Error: unknown key passed to TimingGroup::can_execute'')
      | Some this \<Rightarrow>
          let this_dur = get_proportional ops this in
          if this_dur = tg_max g \<and> (\<exists>v \<in> set (proportionals ops g). v \<noteq> this_dur) then Inr False
          else
            case mul_by ops (tg_max g) 9 of
              Inl e \<Rightarrow> Inl e
            | Inr m \<Rightarrow>
                let min_bound = div_by ops m 10; min_time = Min (set (proportionals ops g)) in
                if min_time \<le> min_bound then Inr (this_dur \<le> min_bound) else Inr True)"

text \<open>
  \<open>update_duration\<close>. The branch that rebases all sums is guarded by \<open>&& false\<close> in the source and
  never runs; computing the minimum before it has no effect.
\<close>

definition update_duration :: "('c :: linorder) timer_ops \<Rightarrow> nat \<Rightarrow> 'c \<Rightarrow> ('c timing_group, unit) exec" where
  "update_duration ops key dur g =
     (case slab_get key (tg_info g) of
        None \<Rightarrow> (Inl (Panic ''Error: unknown key passed to TimingGroup::update_duration''), g)
      | Some this \<Rightarrow>
          (case tc_add ops (te_sum this) dur of
             Inl e \<Rightarrow> (Inl e, g)
           | Inr s \<Rightarrow>
               let this' = this\<lparr>te_sum := s\<rparr> in
               (Inr (), g\<lparr>tg_info := snd (slab_get_mut key (\<lambda>_. this') (tg_info g)),
                          tg_max := max (tg_max g) (get_proportional ops this')\<rparr>)))"


text \<open>
  \<open>slices ops D g g'\<close>: from \<open>g\<close> the group reaches \<open>g'\<close> by giving time slices of at most \<open>D\<close> to entries
  that \<open>can_execute\<close> lets run, as \<open>LoadBalance::poll\<close> does.
\<close>

inductive slices :: "('c :: linorder) timer_ops \<Rightarrow> 'c \<Rightarrow> 'c timing_group \<Rightarrow> 'c timing_group \<Rightarrow> bool"
  for ops D where
  stop: "slices ops D g g"
| slice: "slices ops D g g1 \<Longrightarrow> can_execute ops k g1 = Inr True \<Longrightarrow> dur \<le> D \<Longrightarrow>
    update_duration ops k dur g1 = (Inr (), g2) \<Longrightarrow> slices ops D g g2"

subsection \<open>Load balancing\<close>

text \<open>
  The allocation the members of a group share (\<open>Rc<(Ucw<TimingGroup>, C)>\<close>, with its strong count)
  and the world \<open>'u\<close> in which the clock and the futures run. A member is its index and its future.
\<close>

record ('c, 'k, 'u) lb_world =
  lb_timing :: "'c timing_group"
  lb_clock :: 'k
  lb_strong :: nat
  lb_user :: 'u

record 'f load_balance =
  lb_index :: nat
  lb_future :: 'f

definition on_timing :: "('c timing_group, 'a) exec \<Rightarrow> (('c, 'k, 'u) lb_world, 'a) exec" where
  "on_timing m w = (case m (lb_timing w) of (r, g) \<Rightarrow> (r, w\<lparr>lb_timing := g\<rparr>))"

definition lb_with ::
  "profile \<Rightarrow> 'c timer_ops \<Rightarrow> 'k \<Rightarrow> nat \<Rightarrow> 'f \<Rightarrow> 'u \<Rightarrow> panic + 'f load_balance \<times> ('c, 'k, 'u) lb_world" where
  "lb_with p ops clock prop fut u =
     (case tg_insert p ops prop (tg_new ops) of
        (Inl e, _) \<Rightarrow> Inl e
      | (Inr key, g) \<Rightarrow>
          Inr (\<lparr>lb_index = key, lb_future = fut\<rparr>,
               \<lparr>lb_timing = g, lb_clock = clock, lb_strong = 1, lb_user = u\<rparr>))"

definition lb_insert :: "profile \<Rightarrow> 'c timer_ops \<Rightarrow> nat \<Rightarrow> 'g \<Rightarrow> (('c, 'k, 'u) lb_world, 'g load_balance) exec" where
  "lb_insert p ops prop fut =
     bind_exec (on_timing (tg_insert p ops prop)) (\<lambda>index.
     bind_exec (modify_exec (\<lambda>w. w\<lparr>lb_strong := lb_strong w + 1\<rparr>)) (\<lambda>_.
     return_exec \<lparr>lb_index = index, lb_future = fut\<rparr>))"

definition lb_count :: "('c, 'k, 'u) lb_world \<Rightarrow> nat" where
  "lb_count w = tg_count (lb_timing w)"

definition do_unregister :: "profile \<Rightarrow> 'f load_balance \<Rightarrow> (('c, 'k, 'u) lb_world, unit) exec" where
  "do_unregister p lb = on_timing (tg_remove p (lb_index lb))"

text \<open>
  \<open>unregister_and_get\<close> unregisters and moves the shared pointer out of the record, whose destructor is then suppressed: the
  pointer is neither cloned nor dropped.
\<close>

definition unregister_and_get :: "profile \<Rightarrow> 'f load_balance \<Rightarrow> (('c, 'k, 'u) lb_world, unit) exec" where
  "unregister_and_get p lb = do_unregister p lb"

text \<open>\<open>remove\<close>: unregister, then \<open>Rc::try_unwrap\<close>, which gives the clock to the last owner.\<close>

definition lb_remove :: "profile \<Rightarrow> 'f load_balance \<Rightarrow> (('c, 'k, 'u) lb_world, 'k option) exec" where
  "lb_remove p lb =
     bind_exec (unregister_and_get p lb) (\<lambda>_.
     bind_exec (gets_exec (\<lambda>w. if lb_strong w = 1 then Some (lb_clock w) else None)) (\<lambda>r.
     bind_exec (modify_exec (\<lambda>w. w\<lparr>lb_strong := lb_strong w - 1\<rparr>)) (\<lambda>_. return_exec r)))"

definition lb_drop :: "profile \<Rightarrow> 'f load_balance \<Rightarrow> (('c, 'k, 'u) lb_world, unit) exec" where
  "lb_drop p lb =
     bind_exec (do_unregister p lb) (\<lambda>_. modify_exec (\<lambda>w. w\<lparr>lb_strong := lb_strong w - 1\<rparr>))"

text \<open>
  One poll of a member: the result, the member after it, and whether the poll itself woke the
  waker. \<open>start\<close> and \<open>stop\<close> are the clock's, \<open>inner\<close> is the poll of the wrapped future, which may also
  change the group.
\<close>

definition lb_poll ::
  "('c :: linorder) timer_ops \<Rightarrow> ('u \<Rightarrow> 'i \<times> 'u) \<Rightarrow> ('i \<Rightarrow> 'u \<Rightarrow> 'c \<times> 'u) \<Rightarrow>
   ('f \<Rightarrow> (('c, 'k, 'u) lb_world, 'a poll \<times> 'f) exec) \<Rightarrow> 'f load_balance \<Rightarrow>
   (('c, 'k, 'u) lb_world, 'a poll \<times> 'f load_balance \<times> bool) exec" where
  "lb_poll ops start stop inner lb w =
     (case can_execute ops (lb_index lb) (lb_timing w) of
        Inl e \<Rightarrow> (Inl e, w)
      | Inr can \<Rightarrow>
          if \<not> can then (Inr (Pending, lb, True), w)
          else
            case start (lb_user w) of (t0, u1) \<Rightarrow>
              (case inner (lb_future lb) (w\<lparr>lb_user := u1\<rparr>) of
                 (Inl e, w2) \<Rightarrow> (Inl e, w2)
               | (Inr (res, f'), w2) \<Rightarrow>
                   (case stop t0 (lb_user w2) of (dur, u3) \<Rightarrow>
                      (case on_timing (update_duration ops (lb_index lb) dur) (w2\<lparr>lb_user := u3\<rparr>) of
                         (Inl e, w4) \<Rightarrow> (Inl e, w4)
                       | (Inr _, w4) \<Rightarrow> (Inr (res, lb\<lparr>lb_future := f'\<rparr>, False), w4)))))"

declare on_timing_def [run] lb_with_def [run] lb_insert_def [run] lb_count_def [run]
  do_unregister_def [run] unregister_and_get_def [run] lb_remove_def [run] lb_drop_def [run] lb_poll_def [run]

declare int_check_def [run] uint_ops_def [run] get_proportional_def [run] tg_new_def [run]
  tg_insert_def [run] tg_remove_def [run] tg_contains_def [run] tg_count_def [run]
  proportionals_def [run] can_execute_def [run] update_duration_def [run]

subsection \<open>Invariant\<close>

abbreviation entry_at :: "'c timing_group \<Rightarrow> nat \<Rightarrow> 'c time_entry option" where
  "entry_at g \<equiv> slab_view (tg_info g)"

definition tg_inv :: "('c :: linorder) timer_ops \<Rightarrow> 'c timing_group \<Rightarrow> bool" where
  "tg_inv ops g \<longleftrightarrow>
     slab_inv usize_MAX (tg_info g)
     \<and> (\<forall>k e. entry_at g k = Some e \<longrightarrow> 0 < te_proportion e \<and> get_proportional ops e \<le> tg_max g)"

lemma set_proportionals:
  assumes "slab_inv usize_MAX (tg_info g)"
  shows "set (proportionals ops g) = {get_proportional ops e | k e. entry_at g k = Some e}"
proof -
  have "(k, e) \<in> set (slab_iter usize_MAX (tg_info g)) \<longleftrightarrow> entry_at g k = Some e" for k e
    using slab_view_capacity [OF assms, of k e] by (auto simp: slab_iter_view [OF assms] set_map_filter_Pair)
  then show ?thesis by (force simp: proportionals_def)
qed

lemma can_execute_eq:
  assumes inv: "tg_inv ops g" and e: "entry_at g k = Some e"
  shows "can_execute ops k g =
     (if get_proportional ops e = tg_max g \<and> (\<exists>j e'. entry_at g j = Some e' \<and> get_proportional ops e' \<noteq> tg_max g)
      then Inr False
      else case mul_by ops (tg_max g) 9 of
          Inl x \<Rightarrow> Inl x
        | Inr m \<Rightarrow> Inr ((\<forall>j e'. entry_at g j = Some e' \<longrightarrow> div_by ops m 10 < get_proportional ops e')
                        \<or> get_proportional ops e \<le> div_by ops m 10))"
proof -
  have slab: "slab_inv usize_MAX (tg_info g)" using inv by (simp add: tg_inv_def)
  let ?P = "set (proportionals ops g)"
  have "get_proportional ops e \<in> ?P" unfolding set_proportionals [OF slab] using e by blast
  then have fin: "finite ?P" "?P \<noteq> {}" by auto
  have mn: "Min ?P \<le> x \<longleftrightarrow> \<not> (\<forall>j e'. entry_at g j = Some e' \<longrightarrow> x < get_proportional ops e')" for x
    unfolding Min_le_iff [OF fin] by (auto simp: set_proportionals [OF slab] not_less)
  have ex: "(\<exists>v \<in> ?P. v \<noteq> d) \<longleftrightarrow> (\<exists>j e'. entry_at g j = Some e' \<and> get_proportional ops e' \<noteq> d)" for d
    by (auto simp: set_proportionals [OF slab])
  have can: "can_execute ops k g =
     (if get_proportional ops e = tg_max g \<and> (\<exists>v \<in> ?P. v \<noteq> get_proportional ops e) then Inr False
      else case mul_by ops (tg_max g) 9 of Inl x \<Rightarrow> Inl x
        | Inr m \<Rightarrow> Inr (\<not> Min ?P \<le> div_by ops m 10 \<or> get_proportional ops e \<le> div_by ops m 10))"
    using e by (auto simp: can_execute_def slab_get_view [OF slab] Let_def split: sum.split)
  have side: "get_proportional ops e = tg_max g \<and> (\<exists>v \<in> ?P. v \<noteq> get_proportional ops e) \<longleftrightarrow>
      get_proportional ops e = tg_max g \<and> (\<exists>j e'. entry_at g j = Some e' \<and> get_proportional ops e' \<noteq> tg_max g)"
    using ex [of "tg_max g"] by auto
  show ?thesis unfolding can side mn not_not by (rule refl)
qed

text \<open>The entry with the smallest share may always run, whatever the unit of time.\<close>

lemma least_can_execute:
  assumes inv: "tg_inv ops g" and e: "entry_at g k = Some e"
    and least: "\<And>j e'. entry_at g j = Some e' \<Longrightarrow> get_proportional ops e \<le> get_proportional ops e'"
    and m: "mul_by ops (tg_max g) 9 = Inr m"
  shows "can_execute ops k g = Inr True"
proof -
  have "get_proportional ops e' = tg_max g" if "get_proportional ops e = tg_max g" "entry_at g j = Some e'" for j e'
    using that least [OF that(2)] inv by (auto simp: tg_inv_def intro: antisym)
  moreover have "(\<forall>j e'. entry_at g j = Some e' \<longrightarrow> x < get_proportional ops e') \<or> get_proportional ops e \<le> x" for x
    using least by (meson not_le order_trans leI le_less_trans)
  ultimately show ?thesis by (auto simp: can_execute_eq [OF inv e] m)
qed

lemma update_view:
  assumes inv: "tg_inv ops g" and run: "update_duration ops k dur g = (Inr (), g')"
  obtains e s where "entry_at g k = Some e" "tc_add ops (te_sum e) dur = Inr s"
    "entry_at g' = (entry_at g)(k \<mapsto> e\<lparr>te_sum := s\<rparr>)" "slab_inv usize_MAX (tg_info g')"
    "tg_max g' = max (tg_max g) (get_proportional ops (e\<lparr>te_sum := s\<rparr>))"
proof -
  have slab: "slab_inv usize_MAX (tg_info g)" using inv by (simp add: tg_inv_def)
  obtain e s where e: "entry_at g k = Some e" "tc_add ops (te_sum e) dur = Inr s"
    using run by (auto simp: update_duration_def slab_get_view [OF slab] split: option.splits sum.splits)
  then show ?thesis
    using run slab_get_mut_ok [OF slab, of k "\<lambda>_. e\<lparr>te_sum := s\<rparr>"]
    by (intro that [OF e]) (auto simp: update_duration_def slab_get_view [OF slab] Let_def)
qed

lemma update_inv:
  assumes inv: "tg_inv ops g" and run: "update_duration ops k dur g = (Inr (), g')"
  shows "tg_inv ops g'"
  using update_view [OF assms]
proof cases
  case (1 e s)
  then show ?thesis
    using inv by (auto simp: tg_inv_def le_max_iff_disj get_proportional_def split: if_splits)
qed


subsection \<open>The contract of a unit of time\<close>

text \<open>\<open>val\<close> reads a count as a number of ticks: the operations that do not panic are exact.\<close>

locale timer_count =
  fixes ops :: "('c :: linorder) timer_ops"
    and val :: "'c \<Rightarrow> nat"
  assumes val_le: "a \<le> b \<longleftrightarrow> val a \<le> val b"
    and val_default: "val (tc_default ops) = 0"
    and val_add: "tc_add ops a b = Inr c \<Longrightarrow> val c = val a + val b"
    and val_div: "0 < n \<Longrightarrow> val (div_by ops a n) = val a div n"
    and val_mul: "mul_by ops a n = Inr c \<Longrightarrow> val c = val a * n"
begin

lemma div_add_le: "0 < (n::nat) \<Longrightarrow> (a + b) div n \<le> a div n + b"
proof -
  assume n: "0 < n"
  have "b \<le> b * n" using n by simp
  then have "(a + b) div n \<le> (a + b * n) div n" by (intro div_le_mono) simp
  also have "\<dots> = a div n + b" using n by simp
  finally show ?thesis .
qed

lemma share_grows:
  assumes "0 < te_proportion e" and "tc_add ops (te_sum e) dur = Inr s" and "dur \<le> D"
  shows "val (get_proportional ops (e\<lparr>te_sum := s\<rparr>)) \<le> val (get_proportional ops e) + val D"
    and "val (get_proportional ops e) \<le> val (get_proportional ops (e\<lparr>te_sum := s\<rparr>))"
proof -
  have s: "val s = val (te_sum e) + val dur" by (rule val_add [OF assms(2)])
  have d: "val dur \<le> val D" using assms(3) val_le by simp
  have "val s div te_proportion e \<le> val (te_sum e) div te_proportion e + val dur"
    using div_add_le [OF assms(1)] s by simp
  then show "val (get_proportional ops (e\<lparr>te_sum := s\<rparr>)) \<le> val (get_proportional ops e) + val D"
    using d by (simp add: get_proportional_def val_div [OF assms(1)])
  show "val (get_proportional ops e) \<le> val (get_proportional ops (e\<lparr>te_sum := s\<rparr>))"
    by (simp add: get_proportional_def val_div [OF assms(1)] s div_le_mono)
qed

definition fair :: "'c \<Rightarrow> 'c timing_group \<Rightarrow> bool" where
  "fair D g \<longleftrightarrow>
     (\<forall>j e. entry_at g j = Some e \<longrightarrow> 9 * val (tg_max g) \<le> 10 * val (get_proportional ops e) + 90 * val D)"

text \<open>
  A slice keeps the group fair. Either some entry is at or below nine tenths of the maximum, and
  then only such an entry runs, so that the maximum cannot grow beyond ten slices; or all entries
  are above it, and the maximum grows by at most one slice.
\<close>

lemma slice_max:
  assumes inv: "tg_inv ops g" and fr: "fair D g" and can: "can_execute ops k g = Inr True"
    and e: "entry_at g k = Some e" and new: "val x \<le> val (get_proportional ops e) + val D"
    and j: "entry_at g j = Some e'"
  shows "9 * val (max (tg_max g) x) \<le> 10 * val (get_proportional ops e') + 90 * val D"
proof -
  let ?M = "val (tg_max g)" and ?d = "val (get_proportional ops e)" and ?j = "val (get_proportional ops e')"
  have old: "9 * ?M \<le> 10 * ?j + 90 * val D" using fr j by (simp add: fair_def)
  have dM: "?d \<le> ?M" using inv e val_le by (auto simp: tg_inv_def)
  obtain m where m: "mul_by ops (tg_max g) 9 = Inr m"
    and c: "(\<forall>j e'. entry_at g j = Some e' \<longrightarrow> div_by ops m 10 < get_proportional ops e')
        \<or> get_proportional ops e \<le> div_by ops m 10"
    using can by (auto simp: can_execute_eq [OF inv e] split: if_splits sum.splits)
  have b: "val (div_by ops m 10) = (?M * 9) div 10" using val_mul [OF m] val_div [of 10 m] by simp
  have mx: "val (max (tg_max g) x) = max ?M (val x)" by (simp add: max_def val_le)
  from c show ?thesis
  proof
    assume "get_proportional ops e \<le> div_by ops m 10"
    then have "?d \<le> (?M * 9) div 10" using b val_le by simp
    then have "10 * ?d \<le> 9 * ?M" by linarith
    then have "10 * val x \<le> 9 * ?M + 10 * val D" using new by linarith
    then show ?thesis using old unfolding mx by (simp add: max_def)
  next
    assume "\<forall>j e'. entry_at g j = Some e' \<longrightarrow> div_by ops m 10 < get_proportional ops e'"
    then have "(?M * 9) div 10 < ?j" using j b val_le by (metis not_le)
    then have "9 * ?M < 10 * ?j" by linarith
    then show ?thesis using new dM unfolding mx by (simp add: max_def)
  qed
qed

lemma fair_slice:
  assumes inv: "tg_inv ops g" and fr: "fair D g" and can: "can_execute ops k g = Inr True"
    and dur: "dur \<le> D" and run: "update_duration ops k dur g = (Inr (), g')"
  shows "fair D g'"
  using update_view [OF inv run]
proof cases
  case (1 e s)
  have pos: "0 < te_proportion e" using inv 1(1) by (simp add: tg_inv_def)
  note grow = share_grows [OF pos 1(2) dur]
  show ?thesis
    unfolding fair_def
  proof (intro allI impI)
    fix j e'
    assume j: "entry_at g' j = Some e'"
    show "9 * val (tg_max g') \<le> 10 * val (get_proportional ops e') + 90 * val D"
    proof (cases "j = k")
      case True
      then have "e' = e\<lparr>te_sum := s\<rparr>" using j 1(3) by simp
      then show ?thesis
        using slice_max [OF inv fr can 1(1) grow(1) 1(1)] grow(2) 1(5) by simp
    next
      case False
      then show ?thesis using slice_max [OF inv fr can 1(1) grow(1), of j e'] j 1(3,5) by simp
    qed
  qed
qed

lemma slices_fair:
  assumes "slices ops D g g'" and "tg_inv ops g" and "fair D g"
  shows "tg_inv ops g' \<and> fair D g'"
  using assms by induction (auto intro: update_inv fair_slice)

lemma fresh_fair: "tg_max g = tc_default ops \<Longrightarrow> fair D g"
  by (simp add: fair_def val_default)

end

interpretation uint: timer_count "uint_ops Debug cm" "\<lambda>n. n"
  for cm
  by unfold_locales (auto simp: uint_ops_def int_check_def split: if_splits)

interpretation duration: timer_count duration_ops "\<lambda>n. n"
  by unfold_locales (auto simp: duration_ops_def split: if_splits)


subsection \<open>Members of a group\<close>

text \<open>The strong count of the shared allocation is the number of registered members.\<close>

definition lb_inv :: "('c :: linorder) timer_ops \<Rightarrow> ('c, 'k, 'u) lb_world \<Rightarrow> bool" where
  "lb_inv ops w \<longleftrightarrow> tg_inv ops (lb_timing w) \<and> lb_strong w = lb_count w"

lemma tg_insert_ok:
  assumes inv: "tg_inv ops g" and n: "0 < n" and room: "slab_room usize_MAX (tg_info g)"
    and zero: "div_by ops (tc_default ops) n \<le> tg_max g"
  shows "\<exists>k g'. tg_insert p ops n g = (Inr k, g') \<and> tg_inv ops g' \<and> entry_at g k = None
    \<and> entry_at g' = (entry_at g)(k \<mapsto> \<lparr>te_sum = tc_default ops, te_proportion = n\<rparr>)
    \<and> tg_max g' = tg_max g \<and> tg_count g' = tg_count g + 1"
proof -
  let ?e = "\<lparr>te_sum = tc_default ops, te_proportion = n\<rparr>"
  have slab: "slab_inv usize_MAX (tg_info g)" using inv by (simp add: tg_inv_def)
  obtain k t where t: "slab_insert p usize_MAX ?e (tg_info g) = (Inr k, t)" "slab_inv usize_MAX t"
    "entry_at g k = None" "slab_view t = (entry_at g)(k \<mapsto> ?e)"
    using slab_insert_ok [OF slab room, of p ?e] by blast
  have "slab_len t = slab_len (tg_info g) + 1" by (rule slab.ins_size [OF slab room t(1)])
  then show ?thesis
    using t n zero inv by (auto simp: tg_insert_def tg_inv_def tg_count_def get_proportional_def)
qed

lemma tg_remove_ok:
  assumes inv: "tg_inv ops g" and e: "entry_at g k = Some e"
  shows "\<exists>g'. tg_remove p k g = (Inr (), g') \<and> tg_inv ops g' \<and> entry_at g' = (entry_at g)(k := None)
    \<and> tg_max g' = tg_max g \<and> tg_count g' + 1 = tg_count g"
proof -
  have slab: "slab_inv usize_MAX (tg_info g)" using inv by (simp add: tg_inv_def)
  obtain t where t: "slab_remove p k (tg_info g) = (Inr (Some e), t)" "slab_inv usize_MAX t"
    "slab_view t = (entry_at g)(k := None)" using slab_remove_full [OF slab e, of p] by blast
  have "slab_len t + 1 = slab_len (tg_info g)" by (rule slab.rem_size [OF slab t(1)])
  then show ?thesis using t inv by (auto simp: tg_remove_def tg_inv_def tg_count_def)
qed

lemma tg_remove_unknown:
  assumes inv: "tg_inv ops g" and e: "entry_at g k = None"
  shows "tg_remove p k g = (Inl (Panic ''Error: unknown key passed to TimingGroup::remove''), g)"
proof -
  have slab: "slab_inv usize_MAX (tg_info g)" using inv by (simp add: tg_inv_def)
  have "slab_remove p k (tg_info g) = (Inr None, tg_info g)"
    using slab_get_view [OF slab, of k] e
    by (auto simp: slab_remove_def slab_get_def Let_def split: if_splits entry.splits)
  then show ?thesis by (simp add: tg_remove_def)
qed


subsection \<open>Properties\<close>

text \<open>A group of two entries with one and two slots, counted in a 32-bit integer.\<close>

definition u32_ops :: "nat timer_ops" where
  "u32_ops = uint_ops Debug (2 ^ 32 - 1)"

definition duo :: "nat timing_group" where
  "duo = snd (tg_insert Debug u32_ops 2 (snd (tg_insert Debug u32_ops 1 (tg_new u32_ops))))"

lemma tg_new_inv: "tg_inv ops (tg_new ops)"
  by (simp add: tg_inv_def tg_new_def slab_inv_new key_types_def)

lemma u32_zero: "div_by u32_ops (tc_default u32_ops) n \<le> m"
  by (simp add: u32_ops_def uint_ops_def)

lemma duo_inv: "tg_inv u32_ops duo" "entry_at duo 0 \<noteq> None" "tg_max duo = 0"
proof -
  let ?g1 = "snd (tg_insert Debug u32_ops 1 (tg_new u32_ops))"
  have f1: "fst (tg_insert Debug u32_ops 1 (tg_new u32_ops)) = Inr 0" and l1: "slab_len (tg_info ?g1) = 1"
    by (simp_all add: run u32_ops_def cong: run_cong)
  have f2: "fst (tg_insert Debug u32_ops 2 ?g1) = Inr 1"
    by (simp add: run u32_ops_def cong: run_cong)
  have r0: "slab_room usize_MAX (tg_info (tg_new u32_ops))"
    by (simp add: slab_room_def tg_new_def slab_new_def CHUNK_SIZE_def VEC_MAX_def)
  have g1: "tg_inv u32_ops ?g1" "entry_at ?g1 0 \<noteq> None" "tg_max ?g1 = tg_max (tg_new u32_ops)"
    using tg_insert_ok [OF tg_new_inv _ r0 u32_zero, of 1 Debug] f1 by auto
  have r1: "slab_room usize_MAX (tg_info ?g1)"
    unfolding slab_room_def l1 by (simp add: CHUNK_SIZE_def VEC_MAX_def usize_MAX_def)
  show "tg_inv u32_ops duo" "entry_at duo 0 \<noteq> None" "tg_max duo = 0"
    using tg_insert_ok [OF g1(1) _ r1 u32_zero, of 2 Debug] f2 g1
    by (auto simp: duo_def tg_new_def u32_ops_def uint_ops_def)
qed

text \<open>
  The group never blocks: as long as nine times the maximum does not overflow the unit of
  time, some entry of a non-empty group may execute, namely one with the smallest share.
\<close>

theorem some_entry_runs:
  assumes "tg_inv ops g" and "entry_at g k0 \<noteq> None" and "mul_by ops (tg_max g) 9 = Inr m"
  shows "\<exists>k e. entry_at g k = Some e \<and> can_execute ops k g = Inr True
    \<and> (\<forall>j e'. entry_at g j = Some e' \<longrightarrow> get_proportional ops e \<le> get_proportional ops e')"
proof -
  let ?P = "{get_proportional ops e | k e. entry_at g k = Some e}"
  have slab: "slab_inv usize_MAX (tg_info g)" using assms(1) by (simp add: tg_inv_def)
  have fin: "finite ?P" "?P \<noteq> {}"
    using assms(2) finite_set [of "proportionals ops g"] by (simp_all only: set_proportionals [OF slab]) blast
  then obtain k e where e: "entry_at g k = Some e" "get_proportional ops e = Min ?P"
    using Min_in [OF fin] by auto
  have "get_proportional ops e \<le> get_proportional ops e'" if "entry_at g j = Some e'" for j e'
    unfolding e(2) using that by (intro Min_le [OF fin(1)]) blast
  then show ?thesis using least_can_execute [OF assms(1) e(1) _ assms(3)] e(1) by blast
qed

theorem some_entry_runs_witness:
  "\<exists>k e. entry_at duo k = Some e \<and> can_execute u32_ops k duo = Inr True"
  using some_entry_runs [OF duo_inv(1,2), of 0] duo_inv(3) by (auto simp: u32_ops_def uint_ops_def int_check_def)

text \<open>
  C10. Time is shared in proportion to the slots. Let a group have the recorded maximum zero, as a fresh one, and let only
  slices of at most \<open>D\<close> ticks follow, each given to an entry that may execute, with no entry inserted or removed in between.
  Then every entry has had at least nine tenths of the recorded maximum per slot, up to ten slices, and no entry more than the
  recorded maximum. This holds for an unsigned counter of any width under checked arithmetic, for the slices in which nothing
  overflowed. An entry inserted later starts at zero and is not covered.
\<close>

theorem fair_shares:
  assumes "tg_inv (uint_ops Debug cm) g" and "tg_max g = 0" and "slices (uint_ops Debug cm) D g g'"
    and "entry_at g' j = Some e"
  shows "9 * tg_max g' \<le> 10 * (te_sum e div te_proportion e) + 90 * D \<and> te_sum e div te_proportion e \<le> tg_max g'"
proof -
  have "uint.fair cm D g" by (rule uint.fresh_fair) (simp add: assms(2) uint_ops_def)
  then have "tg_inv (uint_ops Debug cm) g'" "uint.fair cm D g'"
    using uint.slices_fair [OF assms(3,1)] by simp_all
  then show ?thesis
    using assms(4) unfolding uint.fair_def tg_inv_def get_proportional_def by (simp add: uint_ops_def)
qed

text \<open>Two slices in a group of two entries: five ticks for the entry with one slot, then four for that with two.\<close>

definition duo_run :: "nat timing_group" where
  "duo_run = snd (update_duration u32_ops 1 4 (snd (update_duration u32_ops 0 5 duo)))"

lemma duo_slices: "slices u32_ops 5 duo duo_run"
proof (rule slices.slice [OF slices.slice [OF slices.stop]])
  show "can_execute u32_ops 0 duo = Inr True" by (simp add: run duo_def u32_ops_def cong: run_cong)
  show "update_duration u32_ops 0 5 duo = (Inr (), snd (update_duration u32_ops 0 5 duo))"
    by (simp add: run duo_def u32_ops_def cong: run_cong)
  show "can_execute u32_ops 1 (snd (update_duration u32_ops 0 5 duo)) = Inr True"
    by (simp add: run duo_def u32_ops_def cong: run_cong)
  show "update_duration u32_ops 1 4 (snd (update_duration u32_ops 0 5 duo)) = (Inr (), duo_run)"
    by (simp add: run duo_def duo_run_def u32_ops_def cong: run_cong)
qed simp_all

lemma duo_run_entry: "slab_get 1 (tg_info duo_run) = Some \<lparr>te_sum = 4, te_proportion = 2\<rparr>" "tg_max duo_run = 5"
  by (simp_all add: run duo_def duo_run_def u32_ops_def cong: run_cong)

theorem fair_shares_witness:
  "slices u32_ops 5 duo duo_run \<and> 9 * tg_max duo_run \<le> 10 * (4 div 2) + 90 * 5 \<and> 4 div 2 \<le> tg_max duo_run"
proof -
  have "uint.fair (2 ^ 32 - 1) 5 duo" by (rule uint.fresh_fair) (simp add: duo_inv(3) uint_ops_def)
  with uint.slices_fair [OF duo_slices [unfolded u32_ops_def] duo_inv(1) [unfolded u32_ops_def]]
  have "tg_inv (uint_ops Debug (2 ^ 32 - 1)) duo_run" by blast
  then have "slab_inv usize_MAX (tg_info duo_run)" by (simp add: tg_inv_def)
  then have e: "entry_at duo_run 1 = Some \<lparr>te_sum = 4, te_proportion = 2\<rparr>"
    using duo_run_entry(1) by (simp add: slab_get_view)
  show ?thesis
    using fair_shares [OF duo_inv(1) [unfolded u32_ops_def] duo_inv(3) duo_slices [unfolded u32_ops_def] e] duo_slices
    by simp
qed


text \<open>A 16-bit counter after a single entry ran for 7282 ticks.\<close>

definition u16_group :: "nat timing_group" where
  "u16_group =
     snd (update_duration (uint_ops Debug 65535) 0 7282
       (snd (tg_insert Debug (uint_ops Debug 65535) 1 (tg_new (uint_ops Debug 65535)))))"

text \<open>
  \<open>can_execute\<close> computes nine tenths of the maximum as \<open>max * 9 / 10\<close>, so it overflows long
  before the sums do: with a \<open>u16\<close> counter it panics once an entry has run for 7282 ticks, though
  sums up to 65535 fit, and nothing ever lowers the sums again.
\<close>

theorem u16_counter_overflows:
  "tg_max u16_group = 7282 \<and> can_execute (uint_ops Debug 65535) 0 u16_group = Inl ArithOverflow"
  by (simp add: run u16_group_def cong: run_cong)

text \<open>
  Removing a member of a load-balancing group unregisters it, and gives the clock back exactly
  when it was the last member; the strong count of the shared allocation stays the number of
  members. It does not panic.
\<close>

theorem lb_remove_last:
  assumes "lb_inv ops w" and "entry_at (lb_timing w) (lb_index lb) \<noteq> None"
  shows "\<exists>w'. lb_remove p lb w = (Inr (if lb_count w = 1 then Some (lb_clock w) else None), w')
    \<and> lb_inv ops w' \<and> lb_count w' + 1 = lb_count w
    \<and> entry_at (lb_timing w') = (entry_at (lb_timing w))(lb_index lb := None)"
proof -
  have inv: "tg_inv ops (lb_timing w)" "lb_strong w = lb_count w" using assms(1) by (simp_all add: lb_inv_def)
  obtain e where e: "entry_at (lb_timing w) (lb_index lb) = Some e" using assms(2) by blast
  obtain g where g: "tg_remove p (lb_index lb) (lb_timing w) = (Inr (), g)" "tg_inv ops g"
    "entry_at g = (entry_at (lb_timing w))(lb_index lb := None)" "tg_count g + 1 = tg_count (lb_timing w)"
    using tg_remove_ok [OF inv(1) e, of p] by blast
  let ?w' = "w\<lparr>lb_timing := g, lb_strong := lb_strong w - 1\<rparr>"
  have "lb_remove p lb w = (Inr (if lb_count w = 1 then Some (lb_clock w) else None), ?w')"
    using g(1) inv(2) by (simp add: lb_remove_def unregister_and_get_def do_unregister_def on_timing_def exec_defs)
  moreover have "lb_inv ops ?w'" "lb_count ?w' + 1 = lb_count w"
    using g inv(2) by (auto simp: lb_inv_def lb_count_def)
  ultimately show ?thesis using g(3) by (intro exI [of _ ?w']) simp
qed

definition duo_world :: "(nat, string, unit) lb_world" where
  "duo_world = \<lparr>lb_timing = duo, lb_clock = ''clock'', lb_strong = 2, lb_user = ()\<rparr>"

theorem lb_remove_last_witness:
  "\<exists>w'. lb_remove Debug \<lparr>lb_index = 0, lb_future = ()\<rparr> duo_world = (Inr None, w') \<and> lb_inv u32_ops w'"
proof -
  have "lb_count duo_world = 2"
    by (simp add: duo_world_def run duo_def u32_ops_def cong: run_cong)
  then have inv: "lb_inv u32_ops duo_world" using duo_inv(1) by (simp add: lb_inv_def duo_world_def)
  show ?thesis
    using lb_remove_last [OF inv, of "\<lparr>lb_index = 0, lb_future = ()\<rparr>" Debug] duo_inv(2) \<open>lb_count duo_world = 2\<close>
    by (auto simp: duo_world_def)
qed

text \<open>
  C31. A poll of a load-balanced future whose group does not let it run changes nothing, is pending
  and wakes its own waker, so that the scheduler comes back to it; otherwise the wrapped future is
  polled once, its result is returned, and the time the clock measured is added to its entry, the
  other entries staying as they were. \<open>inner\<close> is a future that does not use the group itself.
\<close>

theorem lb_poll_accounts:
  assumes "tg_inv ops (lb_timing w)" and "entry_at (lb_timing w) (lb_index lb) = Some e"
    and "lb_poll ops start stop (\<lambda>f w. case inner f (lb_user w) of (res, f', u') \<Rightarrow> (Inr (res, f'), w\<lparr>lb_user := u'\<rparr>)) lb w
      = (Inr (res, lb', woke), w')"
  shows "if can_execute ops (lb_index lb) (lb_timing w) = Inr False then res = Pending \<and> woke \<and> lb' = lb \<and> w' = w
    else \<exists>t0 u1 f' u2 dur u3 s.
      start (lb_user w) = (t0, u1) \<and> inner (lb_future lb) u1 = (res, f', u2) \<and> stop t0 u2 = (dur, u3)
      \<and> lb' = lb\<lparr>lb_future := f'\<rparr> \<and> \<not> woke \<and> lb_user w' = u3 \<and> tc_add ops (te_sum e) dur = Inr s
      \<and> entry_at (lb_timing w') = (entry_at (lb_timing w))(lb_index lb \<mapsto> e\<lparr>te_sum := s\<rparr>) \<and> tg_inv ops (lb_timing w')"
proof (cases "can_execute ops (lb_index lb) (lb_timing w)")
  case (Inl x)
  then show ?thesis using assms(3) by (simp add: lb_poll_def)
next
  case (Inr can)
  show ?thesis
  proof (cases can)
    case False
    then show ?thesis using Inr assms(3) by (auto simp: lb_poll_def)
  next
    case True
    obtain t0 u1 where st: "start (lb_user w) = (t0, u1)" by fastforce
    obtain r f' u2 where inn: "inner (lb_future lb) u1 = (r, f', u2)" by (cases "inner (lb_future lb) u1")
    obtain dur u3 where sp: "stop t0 u2 = (dur, u3)" by fastforce
    obtain x g where up: "update_duration ops (lb_index lb) dur (lb_timing w) = (x, g)" by fastforce
    have x: "x = Inr ()" "res = r" "lb' = lb\<lparr>lb_future := f'\<rparr>" "\<not> woke" "lb_user w' = u3" "lb_timing w' = g"
      using assms(3) Inr True st inn sp up by (auto simp: lb_poll_def on_timing_def split: sum.splits)
    note run = up [unfolded x(1)]
    obtain s where "tc_add ops (te_sum e) dur = Inr s" "entry_at g = (entry_at (lb_timing w))(lb_index lb \<mapsto> e\<lparr>te_sum := s\<rparr>)"
      using update_view [OF assms(1) run] assms(2) by (metis option.inject)
    then show ?thesis
      using Inr True st inn sp x update_inv [OF assms(1) run] by auto
  qed
qed


theorem lb_poll_accounts_witness:
  "\<exists>w' s. lb_poll u32_ops (\<lambda>u. (0 :: nat, u)) (\<lambda>t u. (5, u))
       (\<lambda>f w. case (Ready (), f, lb_user w) of (res, f', u') \<Rightarrow> (Inr (res, f'), w\<lparr>lb_user := u'\<rparr>))
       \<lparr>lb_index = 0, lb_future = ()\<rparr> duo_world = (Inr (Ready (), \<lparr>lb_index = 0, lb_future = ()\<rparr>, False), w')
     \<and> tc_add u32_ops (te_sum (the (entry_at duo 0))) 5 = Inr s"
proof -
  let ?lb = "\<lparr>lb_index = 0, lb_future = ()\<rparr>"
  let ?inner = "\<lambda>f u. (Ready (), f, u)"
  have e: "entry_at (lb_timing duo_world) (lb_index ?lb) = Some (the (entry_at duo 0))"
    using duo_inv(2) by (auto simp: duo_world_def)
  have inv: "tg_inv u32_ops (lb_timing duo_world)" using duo_inv(1) by (simp add: duo_world_def)
  obtain w' where run: "lb_poll u32_ops (\<lambda>u. (0 :: nat, u)) (\<lambda>t u. (5, u))
       (\<lambda>f w. case ?inner f (lb_user w) of (res, f', u') \<Rightarrow> (Inr (res, f'), w\<lparr>lb_user := u'\<rparr>)) ?lb duo_world
      = (Inr (Ready (), ?lb, False), w')"
    by (simp add: run duo_world_def duo_def u32_ops_def cong: run_cong)
  show ?thesis
    using lb_poll_accounts [OF inv e, of "\<lambda>u. (0 :: nat, u)" "\<lambda>t u. (5, u)" ?inner "Ready ()" ?lb False w'] run
    by (auto split: if_splits)
qed

end
