(* ===== verification/Atomic_Cell.thy ===== *)
theory Atomic_Cell
  imports Juggle_Prelude
begin

text \<open>
  \<open>src/utils/cell.rs\<close>: \<open>AtomicCell\<close>, a value that threads swap and modify under a spin mark. The
  threads are interleaved at the granularity of the operations on the mark and the cell; memory is
  sequentially consistent.

  \<open>try_swap\<close> and \<open>try_apply\<close> take the mark by \<open>compare_exchange_weak(false, true)\<close> and read the outcome
  by \<open>unwrap_or_else(identity)\<close>: \<open>Ok(false)\<close> and \<open>Err(false)\<close> both become \<open>false\<close>, which the code takes
  for success. A weak exchange may fail spuriously with \<open>Err(false)\<close>; the parameter \<open>weak\<close> of the step
  relation says whether it does. Without spurious failures (the strong exchange, and the targets
  where the weak one never fails spuriously) the cell is shown to implement an atomic register.
\<close>

subsection \<open>Threads\<close>

text \<open>The closure of \<open>apply\<close> returns the new value, or panics (\<open>None\<close>).\<close>

datatype 'a cell_op = OpSwap 'a | OpApply "'a \<Rightarrow> 'a option"

datatype 'a outcome = Swapped 'a | Applied | Unwound | Refused

text \<open>
  \<open>Try op again\<close>: about to exchange the mark; \<open>again\<close> in \<open>swap\<close> and \<open>apply\<close>, which retry. \<open>Enter\<close>: taken to
  hold the mark. \<open>Have op first\<close>: \<open>first\<close> was read. \<open>Unlock\<close>: about to store \<open>false\<close> into the mark.
\<close>

datatype 'a pc = Idle | Try "'a cell_op" bool | Enter "'a cell_op" | Have "'a cell_op" 'a
  | Unlock "'a outcome" | Returned "'a outcome"

record 'a cell_state =
  mark :: bool
  cell :: 'a
  thread :: "nat \<Rightarrow> 'a pc"

definition cell_new :: "'a \<Rightarrow> 'a cell_state" where
  "cell_new v = \<lparr>mark = False, cell = v, thread = (\<lambda>_. Idle)\<rparr>"

definition at_pc :: "nat \<Rightarrow> 'a pc \<Rightarrow> 'a cell_state \<Rightarrow> 'a cell_state" where
  "at_pc t pc s = s\<lparr>thread := (thread s)(t := pc)\<rparr>"

text \<open>What the thread writes back: the new value and the outcome.\<close>

primrec write_back :: "'a cell_op \<Rightarrow> 'a \<Rightarrow> 'a option \<times> 'a outcome" where
  "write_back (OpSwap v) first = (Some v, Swapped first)"
| "write_back (OpApply f) first = (case f first of None \<Rightarrow> (None, Unwound) | Some y \<Rightarrow> (Some y, Applied))"

inductive cell_step :: "bool \<Rightarrow> 'a cell_state \<Rightarrow> 'a cell_state \<Rightarrow> bool"
  for weak :: bool where
  call: "thread s t = Idle \<Longrightarrow> cell_step weak s (at_pc t (Try op again) s)"
| cas_ok: "thread s t = Try op again \<Longrightarrow> \<not> mark s \<Longrightarrow>
    cell_step weak s (at_pc t (Enter op) (s\<lparr>mark := True\<rparr>))"
| cas_spurious: "weak \<Longrightarrow> thread s t = Try op again \<Longrightarrow> \<not> mark s \<Longrightarrow>
    cell_step weak s (at_pc t (Enter op) s)"
| cas_taken: "thread s t = Try op again \<Longrightarrow> mark s \<Longrightarrow>
    cell_step weak s (at_pc t (if again then Try op again else Returned Refused) s)"
| reads: "thread s t = Enter op \<Longrightarrow> cell_step weak s (at_pc t (Have op (cell s)) s)"
| writes: "thread s t = Have op first \<Longrightarrow> write_back op first = (new, r) \<Longrightarrow>
    cell_step weak s (at_pc t (Unlock r) (s\<lparr>cell := (case new of None \<Rightarrow> cell s | Some v \<Rightarrow> v)\<rparr>))"
| unlocks: "thread s t = Unlock r \<Longrightarrow> cell_step weak s (at_pc t (Returned r) (s\<lparr>mark := False\<rparr>))"
| returns: "thread s t = Returned r \<Longrightarrow> cell_step weak s (at_pc t Idle s)"

inductive cell_run :: "bool \<Rightarrow> 'a \<Rightarrow> 'a cell_state \<Rightarrow> bool"
  for weak :: bool and v0 :: 'a where
  init: "cell_run weak v0 (cell_new v0)"
| step: "cell_run weak v0 s \<Longrightarrow> cell_step weak s s' \<Longrightarrow> cell_run weak v0 s'"

primrec inside :: "'a pc \<Rightarrow> bool" where
  "inside Idle = False"
| "inside (Try op again) = False"
| "inside (Enter op) = True"
| "inside (Have op first) = True"
| "inside (Unlock r) = True"
| "inside (Returned r) = False"

lemma at_pc_simps [simp]:
  "mark (at_pc t pc s) = mark s" "cell (at_pc t pc s) = cell s"
  "thread (at_pc t pc s) = (thread s)(t := pc)"
  by (simp_all add: at_pc_def)

inductive_cases cell_stepE: "cell_step weak s s'"

subsection \<open>The strong exchange excludes\<close>

text \<open>At most one thread is inside, exactly while the mark is set, and what it read is still there.\<close>

definition cell_inv :: "'a cell_state \<Rightarrow> bool" where
  "cell_inv s \<longleftrightarrow>
     (mark s \<longleftrightarrow> (\<exists>t. inside (thread s t)))
     \<and> (\<forall>t t'. inside (thread s t) \<longrightarrow> inside (thread s t') \<longrightarrow> t = t')
     \<and> (\<forall>t op first. thread s t = Have op first \<longrightarrow> first = cell s)"

lemma cell_inv_at:
  assumes "cell_inv s" and "inside pc = inside (thread s t)" and "\<And>op first. pc = Have op first \<Longrightarrow> first = cell s"
  shows "cell_inv (at_pc t pc s)"
proof -
  have "inside (thread (at_pc t pc s) t') = inside (thread s t')" for t' using assms(2) by simp
  then show ?thesis using assms(1,3) unfolding cell_inv_def by (simp del: fun_upd_apply) auto
qed

lemma cell_inv_step:
  assumes "cell_step False s s'" and "cell_inv s"
  shows "cell_inv s'"
  using assms
proof cases
  case (cas_ok t op again)
  then show ?thesis using assms(2) by (auto simp: cell_inv_def)
next
  case (writes t op first new r)
  then have "inside (thread s t)" by simp
  then have m: "mark s" and u: "\<And>t'. inside (thread s t') \<Longrightarrow> t' = t"
    using assms(2) unfolding cell_inv_def by blast+
  have "thread s t' \<noteq> Have op' first'" if "t' \<noteq> t" for t' op' first'
    using u [of t'] that by fastforce
  then show ?thesis using m u writes by (auto simp: cell_inv_def)
next
  case (unlocks t r)
  then have "inside (thread s t)" by simp
  then show ?thesis using assms(2) unlocks by (auto simp: cell_inv_def)
qed (use assms(2) in \<open>auto intro!: cell_inv_at split: if_splits\<close>)

lemma cell_run_inv: "cell_run False v0 s \<Longrightarrow> cell_inv s"
proof (induction rule: cell_run.induct)
  case init
  show ?case by (simp add: cell_inv_def cell_new_def)
qed (rule cell_inv_step)


subsection \<open>The strong exchange makes the operations atomic\<close>

text \<open>The specification: a register whose operations take effect in one step.\<close>

datatype 'a apc = AIdle | APending "'a cell_op" | ADone "'a outcome"

record 'a register_state =
  contents :: 'a
  client :: "nat \<Rightarrow> 'a apc"

inductive register_step :: "'a register_state \<Rightarrow> 'a register_state \<Rightarrow> bool" where
  call: "client a t = AIdle \<Longrightarrow> register_step a (a\<lparr>client := (client a)(t := APending op)\<rparr>)"
| atomic: "client a t = APending op \<Longrightarrow> write_back op (contents a) = (new, r) \<Longrightarrow>
    register_step a (a\<lparr>contents := (case new of None \<Rightarrow> contents a | Some v \<Rightarrow> v),
      client := (client a)(t := ADone r)\<rparr>)"
| refuse: "client a t = APending op \<Longrightarrow> register_step a (a\<lparr>client := (client a)(t := ADone Refused)\<rparr>)"
| return: "client a t = ADone r \<Longrightarrow> register_step a (a\<lparr>client := (client a)(t := AIdle)\<rparr>)"

primrec apc_of :: "'a pc \<Rightarrow> 'a apc" where
  "apc_of Idle = AIdle"
| "apc_of (Try op again) = APending op"
| "apc_of (Enter op) = APending op"
| "apc_of (Have op first) = APending op"
| "apc_of (Unlock r) = ADone r"
| "apc_of (Returned r) = ADone r"

definition register_of :: "'a cell_state \<Rightarrow> 'a register_state" where
  "register_of s = \<lparr>contents = cell s, client = apc_of \<circ> thread s\<rparr>"

lemma register_of_upd:
  "register_of (at_pc t pc s) = (register_of s)\<lparr>client := (client (register_of s))(t := apc_of pc)\<rparr>"
  by (simp add: register_of_def at_pc_def fun_upd_comp)

lemma register_same: "apc_of pc = apc_of (thread s t) \<Longrightarrow> register_of (at_pc t pc s) = register_of s"
  by (auto simp: register_of_def at_pc_def)

lemma cell_step_simulates:
  assumes "cell_step False s s'" and "cell_inv s"
  shows "register_of s' = register_of s \<or> register_step (register_of s) (register_of s')"
  using assms(1)
proof cases
  case (call t op again)
  then have "client (register_of s) t = AIdle" by (simp add: register_of_def)
  then show ?thesis using register_step.call [of "register_of s" t op] call by (simp add: register_of_upd)
next
  case (cas_ok t op again)
  then show ?thesis by (auto simp: register_of_def at_pc_def)
next
  case (cas_taken t op again)
  then have "client (register_of s) t = APending op" by (simp add: register_of_def)
  then show ?thesis
    using register_step.refuse [of "register_of s" t op] cas_taken
    by (cases again) (simp_all add: register_same, simp add: register_of_upd)
next
  case (reads t op)
  then show ?thesis by (simp add: register_same)
next
  case (writes t op first new r)
  then have "first = cell s" using assms(2) by (auto simp: cell_inv_def)
  moreover have "client (register_of s) t = APending op" using writes by (simp add: register_of_def)
  ultimately have "register_step (register_of s) ((register_of s)\<lparr>contents := (case new of None \<Rightarrow> cell s | Some v \<Rightarrow> v),
      client := (client (register_of s))(t := ADone r)\<rparr>)"
    using register_step.atomic [of "register_of s" t op new r] writes by (cases new) (simp_all add: register_of_def)
  moreover have "register_of s' = (register_of s)\<lparr>contents := (case new of None \<Rightarrow> cell s | Some v \<Rightarrow> v),
      client := (client (register_of s))(t := ADone r)\<rparr>"
    using writes by (auto simp: register_of_def at_pc_def)
  ultimately show ?thesis by simp
next
  case (unlocks t r)
  then show ?thesis by (auto simp: register_of_def at_pc_def)
next
  case (returns t r)
  then have "client (register_of s) t = ADone r" by (simp add: register_of_def)
  then show ?thesis using register_step.return [of "register_of s" t r] returns by (simp add: register_of_upd)
qed simp


subsection \<open>Properties\<close>

text \<open>
  C8. With a strong exchange \<open>AtomicCell\<close> is linearizable: every run of threads that swap, apply,
  retry and give up is, step by step, a run of a register whose operations take effect at once; in
  particular a swap returns the value that was there when it took effect.
\<close>

theorem cell_linearizable:
  assumes "cell_run False v0 s"
  shows "register_step\<^sup>*\<^sup>* \<lparr>contents = v0, client = \<lambda>_. AIdle\<rparr> (register_of s)"
  using assms
proof (induction rule: cell_run.induct)
  case init
  then show ?case by (simp add: register_of_def cell_new_def comp_def)
next
  case (step s s')
  then show ?case using cell_step_simulates [OF step.hyps(2) cell_run_inv [OF step.hyps(1)]] by auto
qed

text \<open>Two calls of \<open>swap\<close> and one of them about to read, with the weak or the strong exchange.\<close>

definition two_calls :: "nat cell_state" where
  "two_calls = at_pc 1 (Try (OpSwap 2) True) (at_pc 0 (Try (OpSwap 1) True) (cell_new 0))"

lemmas run_call = cell_run.step [OF _ cell_step.call]
  and run_cas = cell_run.step [OF _ cell_step.cas_ok]
  and run_spurious = cell_run.step [OF _ cell_step.cas_spurious]
  and run_read = cell_run.step [OF _ cell_step.reads]
  and run_unlock = cell_run.step [OF _ cell_step.unlocks]

lemma run_swap:
  "cell_run weak v0 s \<Longrightarrow> thread s t = Have (OpSwap v) first \<Longrightarrow>
   cell_run weak v0 (at_pc t (Unlock (Swapped first)) (s\<lparr>cell := v\<rparr>))"
  using cell_run.step [OF _ cell_step.writes [of s t "OpSwap v" first "Some v" "Swapped first"]] by simp

lemma two_calls_run: "cell_run weak 0 two_calls"
  unfolding two_calls_def
  by (rule run_call, rule run_call, rule cell_run.init) (simp_all add: cell_new_def)

theorem cell_linearizable_witness:
  "register_step\<^sup>*\<^sup>* \<lparr>contents = 0, client = \<lambda>_. AIdle\<rparr> (register_of two_calls)"
  by (rule cell_linearizable [OF two_calls_run])

text \<open>
  With a strong exchange at most one thread at a time is between taking the mark and releasing
  it, and the mark is set exactly while one is.
\<close>

theorem cell_exclusion:
  assumes "cell_run False v0 s"
  shows "(mark s \<longleftrightarrow> (\<exists>t. inside (thread s t))) \<and> (inside (thread s t) \<longrightarrow> inside (thread s t') \<longrightarrow> t = t')"
  using cell_run_inv [OF assms] unfolding cell_inv_def by blast

theorem cell_exclusion_witness:
  "mark (at_pc 0 (Enter (OpSwap 1)) (two_calls\<lparr>mark := True\<rparr>))
    \<and> \<not> inside (thread (at_pc 0 (Enter (OpSwap 1)) (two_calls\<lparr>mark := True\<rparr>)) 1)"
proof -
  have "cell_run False 0 (at_pc 0 (Enter (OpSwap 1)) (two_calls\<lparr>mark := True\<rparr>))"
    by (rule run_cas [OF two_calls_run, where again = True]) (simp_all add: two_calls_def cell_new_def)
  from cell_exclusion [OF this, of 0 1] show ?thesis by simp
qed

text \<open>
  C30. With the weak exchange the source uses, one spurious failure breaks the cell: it is taken for
  a success, two threads are inside at once, and two swaps of the values 1 and 2 into a cell that
  holds 0 both return 0. The value is handed out twice, and one of the stored values is lost.
\<close>

theorem weak_exchange_duplicates:
  "\<exists>s. cell_run True (0 :: nat) s \<and> thread s 0 = Returned (Swapped 0) \<and> thread s 1 = Returned (Swapped 0)
     \<and> cell s = 2 \<and> \<not> mark s"
proof -
  let ?s1 = "at_pc 0 (Enter (OpSwap 1)) two_calls"
  let ?s2 = "at_pc 1 (Enter (OpSwap 2)) (?s1\<lparr>mark := True\<rparr>)"
  have "cell_run True 0 ?s1"
    by (rule run_spurious [OF two_calls_run, where again = True]) (simp_all add: two_calls_def cell_new_def)
  then have s2: "cell_run True 0 ?s2"
    by (rule run_cas [where again = True]) (simp_all add: two_calls_def cell_new_def)
  let ?s3 = "at_pc 0 (Have (OpSwap 1) (cell ?s2)) ?s2"
  let ?s4 = "at_pc 1 (Have (OpSwap 2) (cell ?s3)) ?s3"
  have "cell_run True 0 ?s4"
    by (rule run_read [OF run_read [OF s2]]) simp_all
  moreover have "cell ?s3 = 0" "cell ?s2 = 0" by (simp_all add: two_calls_def cell_new_def)
  ultimately have s4: "cell_run True 0 ?s4" "thread ?s4 0 = Have (OpSwap 1) 0" "thread ?s4 1 = Have (OpSwap 2) 0"
    by simp_all
  let ?s5 = "at_pc 0 (Unlock (Swapped 0)) (?s4\<lparr>cell := 1\<rparr>)"
  let ?s6 = "at_pc 1 (Unlock (Swapped 0)) (?s5\<lparr>cell := 2\<rparr>)"
  have s6: "cell_run True 0 ?s6" by (rule run_swap [OF run_swap [OF s4(1,2)]]) (use s4(3) in simp)
  let ?s7 = "at_pc 0 (Returned (Swapped 0)) (?s6\<lparr>mark := False\<rparr>)"
  let ?s8 = "at_pc 1 (Returned (Swapped 0)) (?s7\<lparr>mark := False\<rparr>)"
  have "cell_run True 0 ?s8" by (rule run_unlock [OF run_unlock [OF s6]]) simp_all
  then show ?thesis by (intro exI [of _ ?s8]) simp
qed

end
