(* ===== verification/Wake_Race.thy ===== *)
theory Wake_Race
  imports Juggle_Prelude
begin

text \<open>
  The wake of a task by another thread, not as one step but as the two the source makes:
  \<open>InnerSyncFlags::wake\<close> (\<open>src/dy/dyn_future.rs\<close>; \<open>src/st/stt_future.rs\<close> is the same) first notifies the
  outer waker and then stores the \<open>runnable\<close> flag. The scheduler polls meanwhile
  (\<open>poll_internal\<close> of \<open>src/dy/unordered_algorithm.rs\<close>): it looks at the flag, registers the outer waker,
  looks again, and returns \<open>Pending\<close>. One waiting task and one wake are enough to see when a wake is lost.
\<close>

datatype sched_pc = FirstBeat | Registering | SecondBeat | Sleeping | Polls

datatype wake_pc = WakeStart | WakeMiddle | WakeDone

text \<open>What the two threads do to the shared state.\<close>

datatype race_event = LookFirst | Register | LookSecond | Notify | Store

record race =
  runnable :: bool
  registered :: bool
  notified :: bool
  sched :: sched_pc
  waker :: wake_pc

definition race_init :: race where
  "race_init = \<lparr>runnable = False, registered = False, notified = False, sched = FirstBeat, waker = WakeStart\<rparr>"

text \<open>\<open>notify_wake\<close>: the registered waker, if any, is taken and woken.\<close>

definition race_notify :: "race \<Rightarrow> race" where
  "race_notify s = s\<lparr>notified := notified s \<or> registered s, registered := False\<rparr>"

definition race_store :: "race \<Rightarrow> race" where
  "race_store s = s\<lparr>runnable := True\<rparr>"

inductive race_step :: "race_event \<Rightarrow> race \<Rightarrow> race \<Rightarrow> bool" where
  first: "sched s = FirstBeat \<Longrightarrow>
    race_step LookFirst s (s\<lparr>sched := (if runnable s then Polls else Registering)\<rparr>)"
| register: "sched s = Registering \<Longrightarrow>
    race_step Register s (s\<lparr>registered := True, sched := SecondBeat\<rparr>)"
| second: "sched s = SecondBeat \<Longrightarrow>
    race_step LookSecond s (s\<lparr>sched := (if runnable s then Polls else Sleeping)\<rparr>)"
| notify: "waker s = WakeStart \<Longrightarrow>
    race_step Notify s ((race_notify s)\<lparr>waker := WakeMiddle\<rparr>)"
| store: "waker s = WakeMiddle \<Longrightarrow>
    race_step Store s ((race_store s)\<lparr>waker := WakeDone\<rparr>)"

text \<open>A run with its events, the last one first; \<open>before a b es\<close>: \<open>a\<close> happened, and then \<open>b\<close>.\<close>

inductive race_run :: "race_event list \<Rightarrow> race \<Rightarrow> bool" where
  init: "race_run [] race_init"
| step: "race_run es s \<Longrightarrow> race_step e s s' \<Longrightarrow> race_run (e # es) s'"

primrec before :: "race_event \<Rightarrow> race_event \<Rightarrow> race_event list \<Rightarrow> bool" where
  "before a b [] = False"
| "before a b (e # es) = (e = b \<and> a \<in> set es \<or> before a b es)"

text \<open>The scheduler sleeps, its task is runnable, the wake is over and nobody woke the scheduler.\<close>

definition lost :: "race \<Rightarrow> bool" where
  "lost s \<longleftrightarrow> sched s = Sleeping \<and> runnable s \<and> waker s = WakeDone \<and> \<not> notified s"

text \<open>The state, read off the events.\<close>

definition race_inv :: "race_event list \<Rightarrow> race \<Rightarrow> bool" where
  "race_inv es s \<longleftrightarrow>
     (Notify \<in> set es \<longleftrightarrow> waker s \<noteq> WakeStart) \<and> (Store \<in> set es \<longleftrightarrow> waker s = WakeDone)
     \<and> (runnable s \<longleftrightarrow> Store \<in> set es)
     \<and> (sched s \<in> {FirstBeat, Registering} \<longrightarrow> Register \<notin> set es \<and> LookSecond \<notin> set es)
     \<and> (sched s = SecondBeat \<longrightarrow> Register \<in> set es \<and> LookSecond \<notin> set es)
     \<and> (sched s = Sleeping \<longrightarrow> Register \<in> set es \<and> LookSecond \<in> set es \<and> (Store \<in> set es \<longrightarrow> before LookSecond Store es))
     \<and> (notified s \<longleftrightarrow> before Register Notify es)
     \<and> (registered s \<longleftrightarrow> Register \<in> set es \<and> \<not> before Register Notify es)
     \<and> (Register \<in> set es \<and> Notify \<in> set es \<longrightarrow> (before Register Notify es \<longleftrightarrow> \<not> before Notify Register es))"

lemma before_mem: "before a b es \<Longrightarrow> a \<in> set es \<and> b \<in> set es"
  by (induction es) auto

lemma race_inv_step: "race_step e s s' \<Longrightarrow> race_inv es s \<Longrightarrow> race_inv (e # es) s'"
  by (induction rule: race_step.induct)
     (auto simp: race_inv_def race_store_def race_notify_def dest: before_mem split: if_splits)

lemma race_run_inv: "race_run es s \<Longrightarrow> race_inv es s"
proof (induction rule: race_run.induct)
  case init
  show ?case by (simp add: race_inv_def race_init_def)
qed (rule race_inv_step)

lemma losing_run:
  "\<exists>s. race_run [Store, LookSecond, Register, Notify, LookFirst] s \<and> lost s"
proof -
  let ?s1 = "race_init\<lparr>sched := Registering\<rparr>"
  let ?s2 = "(race_notify ?s1)\<lparr>waker := WakeMiddle\<rparr>"
  let ?s3 = "?s2\<lparr>registered := True, sched := SecondBeat\<rparr>"
  let ?s4 = "?s3\<lparr>sched := Sleeping\<rparr>"
  let ?s5 = "(race_store ?s4)\<lparr>waker := WakeDone\<rparr>"
  note r = race_run.step
  have "race_run [LookFirst] ?s1"
    using r [OF race_run.init race_step.first] by (simp add: race_init_def)
  then have "race_run [Notify, LookFirst] ?s2" using r [OF _ race_step.notify, of _ ?s1] by (simp add: race_init_def)
  then have "race_run [Register, Notify, LookFirst] ?s3"
    using r [OF _ race_step.register, of _ ?s2] by (simp add: race_init_def race_notify_def)
  then have "race_run [LookSecond, Register, Notify, LookFirst] ?s4"
    using r [OF _ race_step.second, of _ ?s3] by (simp add: race_init_def race_notify_def)
  then have "race_run [Store, LookSecond, Register, Notify, LookFirst] ?s5"
    using r [OF _ race_step.store, of _ ?s4] by (simp add: race_init_def race_notify_def)
  moreover have "lost ?s5" by (simp add: lost_def race_init_def race_notify_def race_store_def)
  ultimately show ?thesis by blast
qed

text \<open>
  C26. The order of the source loses wake-ups: notifying before storing the flag, there is a run in
  which the waker finds no registered outer waker, the scheduler then registers it, still sees the
  flag unset and goes to sleep, and only then the flag is stored. The task is runnable and nobody
  will wake the scheduler.
\<close>

theorem wake_lost: "\<exists>es s. race_run es s \<and> lost s"
  using losing_run by blast

text \<open>
  C27. A wake is lost in no other way: in every interleaving of the two steps of a wake with those of a scheduler
  that goes to sleep, the scheduler sleeps over a finished wake without having been woken exactly if the
  notification came before the registration of the outer waker and the store after the second look at the flag.
\<close>

theorem wake_lost_exactly:
  assumes "race_run es s"
  shows "lost s \<longleftrightarrow> sched s = Sleeping \<and> waker s = WakeDone \<and> before Notify Register es \<and> before LookSecond Store es"
  using race_run_inv [OF assms] by (auto simp: race_inv_def lost_def)

theorem wake_lost_exactly_witness:
  "\<exists>s. race_run [Store, LookSecond, Register, Notify, LookFirst] s \<and> lost s
     \<and> before Notify Register [Store, LookSecond, Register, Notify, LookFirst]"
  using losing_run wake_lost_exactly by blast

end
