(* ===== verification/Static_Scheduler.thy ===== *)
theory Static_Scheduler
  imports Dyn_Future
begin

text \<open>
  \<open>src/st\<close>: the scheduler over a static array of tasks. \<open>StaticFuture\<close> (\<open>src/st/stt_future.rs\<close>),
  \<open>handle_task\<close> and the statics of \<open>static_config!\<close> (\<open>src/st/config.rs\<close>), \<open>StaticAlgorithm\<close>
  (\<open>src/st/algorithm.rs\<close>), \<open>StaticHandle\<close> (\<open>src/st/handle.rs\<close>) and \<open>StaticWheel\<close> (\<open>src/st/wheel.rs\<close>).

  The memory of a task is a \<open>static mut MaybeUninit\<close> with a flag beside it. The model keeps the
  future when the memory holds one and \<open>None\<close> when it does not, so that reading memory that was
  never written, or was dropped, is an error of its own, \<open>undefined_behaviour\<close>; and it keeps
  the history of the futures created, polled and dropped in it.

  The code of the tasks is a parameter: what the expression that makes the future does, what a poll
  of it does and what its destructor does, each a tree of calls on handles that ends by returning
  or panicking. A poll that unwinds leaves the future as it was.
\<close>

subsection \<open>Tasks\<close>

datatype st_reason = StNone | StSuspended | StCancelled | StFinished | StRestart | StRestartSuspended

record static_params =
  stp_suspended :: bool
  stp_name :: "string option"

definition stp_new :: static_params where
  "stp_new = \<lparr>stp_suspended = False, stp_name = None\<rparr>"

definition stp_suspend :: "bool \<Rightarrow> static_params \<Rightarrow> static_params" where
  "stp_suspend v sp = sp\<lparr>stp_suspended := v\<rparr>"

definition stp_set_name :: "string \<Rightarrow> static_params \<Rightarrow> static_params" where
  "stp_set_name n sp = sp\<lparr>stp_name := Some n\<rparr>"

definition stp_named :: "string \<Rightarrow> static_params" where
  "stp_named n = stp_set_name n stp_new"

definition stp_suspended_new :: "bool \<Rightarrow> static_params" where
  "stp_suspended_new v = stp_suspend v stp_new"

definition RESTART_TASK :: nat where "RESTART_TASK = 1"
definition CANCEL_TASK :: nat where "CANCEL_TASK = 2"
definition UNINIT_TASK :: nat where "UNINIT_TASK = 3"
definition FLAG_UNINIT :: nat where "FLAG_UNINIT = 0"
definition FLAG_CREATED :: nat where "FLAG_CREATED = 1"
definition FLAG_DROPPED :: nat where "FLAG_DROPPED = 2"

datatype life = Created | Polled | Dropped

text \<open>\<open>sf_flags\<close> is the \<open>OnceCell<StaticSyncFlags>\<close>, with the \<open>runnable\<close> flag in it.\<close>

record 'f static_future =
  sf_memory :: "'f option"
  sf_init_flag :: nat
  sf_life :: "life list"
  sf_flags :: "bool option"
  sf_name :: "string option"
  sf_stop_reason :: st_reason
  sf_polling :: bool
  sf_start_suspended :: bool

definition static_future_new :: "static_params \<Rightarrow> 'f static_future" where
  "static_future_new params =
     \<lparr>sf_memory = None, sf_init_flag = FLAG_UNINIT, sf_life = [], sf_flags = None,
      sf_name = stp_name params, sf_stop_reason = StNone, sf_polling = False,
      sf_start_suspended = stp_suspended params\<rparr>"

subsection \<open>The scheduler's state\<close>

record ('f, 'u) static_alg =
  st_registry :: "'f static_future list"
  st_last_waker :: "nat option"
  st_current :: "nat option"
  st_suspended_count :: nat
  st_unfinished_count :: nat
  st_generation :: nat
  st_lock :: bool
  st_user :: 'u
  st_external :: "nat list list"
  st_woken :: "nat list"
  st_polled :: "nat list"

text \<open>\<open>from_raw_config\<close>; \<open>usize::MAX\<close> unfinished tasks mark a scheduler that was never initialised.\<close>

definition from_raw_config :: "'f static_future list \<Rightarrow> 'u \<Rightarrow> nat list list \<Rightarrow> ('f, 'u) static_alg" where
  "from_raw_config config u ext =
     \<lparr>st_registry = config, st_last_waker = None, st_current = None, st_suspended_count = 0,
      st_unfinished_count = usize_MAX, st_generation = 0, st_lock = False, st_user = u,
      st_external = ext, st_woken = [], st_polled = []\<rparr>"

definition st_get :: "nat \<Rightarrow> ('f, 'u) static_alg \<Rightarrow> 'f static_future option" where
  "st_get k s = (if k < length (st_registry s) then Some (st_registry s ! k) else None)"

definition st_set :: "nat \<Rightarrow> ('f static_future \<Rightarrow> 'f static_future) \<Rightarrow> ('f, 'u) static_alg \<Rightarrow> ('f, 'u) static_alg" where
  "st_set k f s = s\<lparr>st_registry := (st_registry s)[k := f (st_registry s ! k)]\<rparr>"

definition set_reason :: "nat \<Rightarrow> st_reason \<Rightarrow> (('f, 'u) static_alg, unit) exec" where
  "set_reason k r = modify_exec (st_set k (\<lambda>t. t\<lparr>sf_stop_reason := r\<rparr>))"

subsection \<open>The outer waker\<close>

definition st_register_waker :: "nat \<Rightarrow> ('f, 'u) static_alg \<Rightarrow> ('f, 'u) static_alg" where
  "st_register_waker w s = s\<lparr>st_last_waker := Some w\<rparr>"

definition st_clear_waker :: "('f, 'u) static_alg \<Rightarrow> ('f, 'u) static_alg" where
  "st_clear_waker s = s\<lparr>st_last_waker := None\<rparr>"

definition st_notify_wake :: "('f, 'u) static_alg \<Rightarrow> ('f, 'u) static_alg" where
  "st_notify_wake s = s\<lparr>st_woken := st_woken s @ (case st_last_waker s of None \<Rightarrow> [] | Some w \<Rightarrow> [w]), st_last_waker := None\<rparr>"

text \<open>\<open>DynamicWake for StaticSyncFlags\<close>: the waker of the task \<open>k\<close>, which exists once its flags do.\<close>

definition st_wake :: "nat \<Rightarrow> ('f, 'u) static_alg \<Rightarrow> ('f, 'u) static_alg" where
  "st_wake k s = st_set k (\<lambda>t. t\<lparr>sf_flags := map_option (\<lambda>_. True) (sf_flags t)\<rparr>) (st_notify_wake s)"

definition st_deliver :: "('f, 'u) static_alg \<Rightarrow> ('f, 'u) static_alg" where
  "st_deliver s = (case st_external s of [] \<Rightarrow> s | ws # rest \<Rightarrow> fold st_wake ws (s\<lparr>st_external := rest\<rparr>))"

subsection \<open>The operations of the handle\<close>

definition st_add_suspended :: "profile \<Rightarrow> (('f, 'u) static_alg, unit) exec" where
  "st_add_suspended p = bind_exec (gets_exec st_suspended_count) (\<lambda>c.
     bind_exec (lift_exec (usize_add p c 1)) (\<lambda>c'. modify_exec (\<lambda>s. s\<lparr>st_suspended_count := c'\<rparr>)))"

definition st_sub_suspended :: "profile \<Rightarrow> (('f, 'u) static_alg, unit) exec" where
  "st_sub_suspended p = bind_exec (gets_exec st_suspended_count) (\<lambda>c.
     bind_exec (lift_exec (usize_sub p c 1)) (\<lambda>c'. modify_exec (\<lambda>s. s\<lparr>st_suspended_count := c'\<rparr>)))"

definition inc_unfinished :: "profile \<Rightarrow> (('f, 'u) static_alg, unit) exec" where
  "inc_unfinished p = bind_exec (gets_exec st_unfinished_count) (\<lambda>c.
     bind_exec (lift_exec (usize_add p c 1)) (\<lambda>c'. modify_exec (\<lambda>s. s\<lparr>st_unfinished_count := c'\<rparr>)))"

definition dec_unfinished :: "profile \<Rightarrow> (('f, 'u) static_alg, unit) exec" where
  "dec_unfinished p = bind_exec (gets_exec st_unfinished_count) (\<lambda>c.
     bind_exec (lift_exec (usize_sub p c 1)) (\<lambda>c'. modify_exec (\<lambda>s. s\<lparr>st_unfinished_count := c'\<rparr>)))"

definition st_resume :: "profile \<Rightarrow> nat \<Rightarrow> (('f, 'u) static_alg, bool) exec" where
  "st_resume p key = bind_exec (gets_exec (st_get key)) (\<lambda>t. case t of
       Some task \<Rightarrow>
         if sf_stop_reason task = StSuspended then
           bind_exec (set_reason key StNone) (\<lambda>_.
           bind_exec (st_sub_suspended p) (\<lambda>_. return_exec True))
         else return_exec False
     | None \<Rightarrow> return_exec False)"

definition st_suspend :: "profile \<Rightarrow> nat \<Rightarrow> (('f, 'u) static_alg, bool) exec" where
  "st_suspend p key = bind_exec (gets_exec (st_get key)) (\<lambda>t. case t of
       Some task \<Rightarrow>
         (case sf_stop_reason task of
            StNone \<Rightarrow>
              bind_exec (set_reason key StSuspended) (\<lambda>_.
              bind_exec (st_add_suspended p) (\<lambda>_. return_exec True))
          | StRestart \<Rightarrow>
              bind_exec (set_reason key StRestartSuspended) (\<lambda>_.
              bind_exec (st_add_suspended p) (\<lambda>_. return_exec True))
          | _ \<Rightarrow> return_exec False)
     | None \<Rightarrow> return_exec False)"

definition st_restart :: "profile \<Rightarrow> nat \<Rightarrow> (('f, 'u) static_alg, bool) exec" where
  "st_restart p key = bind_exec (gets_exec (st_get key)) (\<lambda>t. case t of
       Some task \<Rightarrow>
         if sf_stop_reason task = StRestart then return_exec True
         else
           bind_exec
             (case sf_stop_reason task of
                StSuspended \<Rightarrow> st_sub_suspended p
              | StRestartSuspended \<Rightarrow> st_sub_suspended p
              | StCancelled \<Rightarrow> inc_unfinished p
              | StFinished \<Rightarrow> inc_unfinished p
              | _ \<Rightarrow> return_exec ()) (\<lambda>_.
           bind_exec (set_reason key StRestart) (\<lambda>_. return_exec True))
     | None \<Rightarrow> return_exec False)"

definition st_cancel :: "profile \<Rightarrow> nat \<Rightarrow> (('f, 'u) static_alg, bool) exec" where
  "st_cancel p key = bind_exec (gets_exec (st_get key)) (\<lambda>t. case t of
       Some task \<Rightarrow>
         let r = sf_stop_reason task in
         if r \<noteq> StCancelled then
           bind_exec (set_reason key StCancelled) (\<lambda>_.
           bind_exec (if r = StSuspended then st_sub_suspended p else return_exec ()) (\<lambda>_.
           return_exec True))
         else return_exec False
     | None \<Rightarrow> return_exec False)"

definition get_flags :: "'f static_future \<Rightarrow> (('f, 'u) static_alg, bool) exec" where
  "get_flags t = expect_exec ''StaticFuture init error'' (sf_flags t)"

definition st_get_state :: "nat \<Rightarrow> (('f, 'u) static_alg, task_state) exec" where
  "st_get_state key = bind_exec (gets_exec (st_get key)) (\<lambda>t. case t of
       Some task \<Rightarrow>
         (case sf_stop_reason task of
            StFinished \<Rightarrow> return_exec Inactive
          | StCancelled \<Rightarrow> return_exec Cancelled
          | StSuspended \<Rightarrow> return_exec Suspended
          | StRestartSuspended \<Rightarrow> return_exec Suspended
          | StRestart \<Rightarrow> return_exec Runnable
          | StNone \<Rightarrow> bind_exec (get_flags task) (\<lambda>r. return_exec (if r then Runnable else Waiting)))
     | None \<Rightarrow> return_exec Inactive)"

definition st_get_name :: "nat \<Rightarrow> ('f, 'u) static_alg \<Rightarrow> string option" where
  "st_get_name key s = Option.bind (st_get key s) sf_name"

primrec position :: "('a \<Rightarrow> bool) \<Rightarrow> 'a list \<Rightarrow> nat option" where
  "position P [] = None"
| "position P (x # xs) = (if P x then Some 0 else map_option Suc (position P xs))"

definition st_get_by_name :: "string \<Rightarrow> ('f, 'u) static_alg \<Rightarrow> nat option" where
  "st_get_by_name name s = position (\<lambda>t. sf_name t = Some name) (st_registry s)"

definition st_registered_count :: "('f, 'u) static_alg \<Rightarrow> nat" where
  "st_registered_count s = length (st_registry s)"

text \<open>\<open>StaticHandle\<close>: the generation it was made in; \<open>valid ret m\<close> is the early return of its methods.\<close>

definition sh_is_valid :: "nat \<Rightarrow> ('f, 'u) static_alg \<Rightarrow> bool" where
  "sh_is_valid gen s = (st_generation s = gen)"

definition sh_when_valid :: "nat \<Rightarrow> 'a \<Rightarrow> (('f, 'u) static_alg, 'a) exec \<Rightarrow> (('f, 'u) static_alg, 'a) exec" where
  "sh_when_valid gen ret m = bind_exec (gets_exec (sh_is_valid gen)) (\<lambda>v. if \<not> v then return_exec ret else m)"

definition st_to_id :: "profile \<Rightarrow> nat option \<Rightarrow> (('f, 'u) static_alg, nat option) exec" where
  "st_to_id p k = (case k of
       None \<Rightarrow> return_exec None
     | Some v \<Rightarrow> bind_exec (lift_exec (id_from_usize p v)) (\<lambda>i. return_exec (Some i)))"

definition sh_cancel :: "profile \<Rightarrow> nat \<Rightarrow> nat \<Rightarrow> (('f, 'u) static_alg, bool) exec" where
  "sh_cancel p gen i = sh_when_valid gen False (st_cancel p (id_to_usize i))"

definition sh_suspend :: "profile \<Rightarrow> nat \<Rightarrow> nat \<Rightarrow> (('f, 'u) static_alg, bool) exec" where
  "sh_suspend p gen i = sh_when_valid gen False (st_suspend p (id_to_usize i))"

definition sh_resume :: "profile \<Rightarrow> nat \<Rightarrow> nat \<Rightarrow> (('f, 'u) static_alg, bool) exec" where
  "sh_resume p gen i = sh_when_valid gen False (st_resume p (id_to_usize i))"

definition sh_restart :: "profile \<Rightarrow> nat \<Rightarrow> nat \<Rightarrow> (('f, 'u) static_alg, bool) exec" where
  "sh_restart p gen i = sh_when_valid gen False (st_restart p (id_to_usize i))"

definition sh_current :: "profile \<Rightarrow> nat \<Rightarrow> (('f, 'u) static_alg, nat option) exec" where
  "sh_current p gen = sh_when_valid gen None (bind_exec (gets_exec st_current) (st_to_id p))"

definition sh_get_current_name :: "nat \<Rightarrow> (('f, 'u) static_alg, string option) exec" where
  "sh_get_current_name gen =
     sh_when_valid gen None (gets_exec (\<lambda>s. Option.bind (st_current s) (\<lambda>k. st_get_name k s)))"

definition sh_get_name :: "nat \<Rightarrow> nat \<Rightarrow> (('f, 'u) static_alg, string option) exec" where
  "sh_get_name gen i = sh_when_valid gen None (gets_exec (st_get_name (id_to_usize i)))"

definition sh_get_by_name :: "profile \<Rightarrow> nat \<Rightarrow> string \<Rightarrow> (('f, 'u) static_alg, nat option) exec" where
  "sh_get_by_name p gen name =
     sh_when_valid gen None (bind_exec (gets_exec (st_get_by_name name)) (st_to_id p))"

definition sh_registered_count :: "nat \<Rightarrow> (('f, 'u) static_alg, nat) exec" where
  "sh_registered_count gen = sh_when_valid gen 0 (gets_exec st_registered_count)"

definition sh_get_id_by_index :: "profile \<Rightarrow> nat \<Rightarrow> nat \<Rightarrow> (('f, 'u) static_alg, nat) exec" where
  "sh_get_id_by_index p gen index =
     bind_exec (gets_exec (sh_is_valid gen)) (\<lambda>v.
     if \<not> v then panic_exec (Panic ''Handle is invalid.'')
     else
       bind_exec (sh_registered_count gen) (\<lambda>n.
       if n \<le> index then panic_exec (Panic ''Error: Index out of bounds.'')
       else lift_exec (id_from_usize p index)))"

subsection \<open>The code of the tasks\<close>

text \<open>A call names the generation of the handle it goes through; \<open>SWake k\<close> wakes the waker of task \<open>k\<close>.\<close>

datatype scall =
    SCancel nat nat
  | SSuspend nat nat
  | SResume nat nat
  | SRestart nat nat
  | SCurrent nat
  | SCurrentName nat
  | SGetName nat nat
  | SGetByName nat string
  | SCount nat
  | SIdByIndex nat nat
  | SWake nat

datatype sreply = SBool bool | SId "nat option" | SName "string option" | SNum nat | SUnit

datatype ('x, 'u) sprog =
    SReturn 'x 'u
  | SPanic 'u
  | SCall scall "sreply \<Rightarrow> ('x, 'u) sprog"

text \<open>
  What the configuration supplies for the task \<open>k\<close>: the expression that makes its future, given a
  handle, the poll of the future (whether it is ready, and what it becomes) and its destructor.
\<close>

record ('f, 'u) static_code =
  sc_init :: "nat \<Rightarrow> nat \<Rightarrow> 'u \<Rightarrow> ('f, 'u) sprog"
  sc_poll :: "nat \<Rightarrow> 'f \<Rightarrow> 'u \<Rightarrow> (bool \<times> 'f, 'u) sprog"
  sc_drop :: "nat \<Rightarrow> 'f \<Rightarrow> 'u \<Rightarrow> (unit, 'u) sprog"

primrec exec_scall :: "profile \<Rightarrow> scall \<Rightarrow> (('f, 'u) static_alg, sreply) exec" where
  "exec_scall p (SCancel gen i) = bind_exec (sh_cancel p gen i) (\<lambda>b. return_exec (SBool b))"
| "exec_scall p (SSuspend gen i) = bind_exec (sh_suspend p gen i) (\<lambda>b. return_exec (SBool b))"
| "exec_scall p (SResume gen i) = bind_exec (sh_resume p gen i) (\<lambda>b. return_exec (SBool b))"
| "exec_scall p (SRestart gen i) = bind_exec (sh_restart p gen i) (\<lambda>b. return_exec (SBool b))"
| "exec_scall p (SCurrent gen) = bind_exec (sh_current p gen) (\<lambda>k. return_exec (SId k))"
| "exec_scall p (SCurrentName gen) = bind_exec (sh_get_current_name gen) (\<lambda>n. return_exec (SName n))"
| "exec_scall p (SGetName gen i) = bind_exec (sh_get_name gen i) (\<lambda>n. return_exec (SName n))"
| "exec_scall p (SGetByName gen n) = bind_exec (sh_get_by_name p gen n) (\<lambda>k. return_exec (SId k))"
| "exec_scall p (SCount gen) = bind_exec (sh_registered_count gen) (\<lambda>n. return_exec (SNum n))"
| "exec_scall p (SIdByIndex gen n) = bind_exec (sh_get_id_by_index p gen n) (\<lambda>i. return_exec (SId (Some i)))"
| "exec_scall p (SWake k) = bind_exec (modify_exec (st_wake k)) (\<lambda>_. return_exec SUnit)"

primrec run_sprog :: "profile \<Rightarrow> ('x, 'u) sprog \<Rightarrow> (('f, 'u) static_alg, 'x) exec" where
  "run_sprog p (SReturn x u) = bind_exec (modify_exec (\<lambda>s. s\<lparr>st_user := u\<rparr>)) (\<lambda>_. return_exec x)"
| "run_sprog p (SPanic u) = bind_exec (modify_exec (\<lambda>s. s\<lparr>st_user := u\<rparr>)) (\<lambda>_. panic_exec UserPanic)"
| "run_sprog p (SCall c k) = bind_exec (exec_scall p c) (\<lambda>r. run_sprog p (k r))"

subsection \<open>The memory of a task\<close>

definition undefined_behaviour :: panic where
  "undefined_behaviour = Panic ''undefined behaviour''"

definition slot_gets :: "nat \<Rightarrow> ('f static_future \<Rightarrow> 'a) \<Rightarrow> (('f, 'u) static_alg, 'a) exec" where
  "slot_gets k f = gets_exec (\<lambda>s. f (st_registry s ! k))"

definition set_flag :: "nat \<Rightarrow> nat \<Rightarrow> (('f, 'u) static_alg, unit) exec" where
  "set_flag k v = modify_exec (st_set k (\<lambda>t. t\<lparr>sf_init_flag := v\<rparr>))"

text \<open>\<open>task.as_mut_ptr().drop_in_place()\<close>: the destructor runs on what the memory holds.\<close>

definition drop_in_place :: "profile \<Rightarrow> ('f, 'u) static_code \<Rightarrow> nat \<Rightarrow> (('f, 'u) static_alg, unit) exec" where
  "drop_in_place p code k =
     bind_exec (slot_gets k sf_memory) (\<lambda>m. case m of
         None \<Rightarrow> panic_exec undefined_behaviour
       | Some f \<Rightarrow>
           bind_exec (modify_exec (st_set k (\<lambda>t. t\<lparr>sf_memory := None, sf_life := sf_life t @ [Dropped]\<rparr>))) (\<lambda>_.
           bind_exec (gets_exec st_user) (\<lambda>u. run_sprog p (sc_drop code k f u))))"

text \<open>\<open>*task = MaybeUninit::new(init()); *flag = FLAG_CREATED\<close>: a future in the memory would be forgotten.\<close>

definition create_task :: "profile \<Rightarrow> ('f, 'u) static_code \<Rightarrow> nat \<Rightarrow> nat \<Rightarrow> (('f, 'u) static_alg, unit) exec" where
  "create_task p code k gen =
     bind_exec (gets_exec st_user) (\<lambda>u.
     bind_exec (run_sprog p (sc_init code k gen u)) (\<lambda>f.
     bind_exec (modify_exec (st_set k (\<lambda>t. t\<lparr>sf_memory := Some f, sf_life := sf_life t @ [Created]\<rparr>))) (\<lambda>_.
     set_flag k FLAG_CREATED)))"

text \<open>\<open>Pin::new_unchecked(&mut *task.as_mut_ptr()).poll(cx)\<close>\<close>

definition poll_memory :: "profile \<Rightarrow> ('f, 'u) static_code \<Rightarrow> nat \<Rightarrow> (('f, 'u) static_alg, bool) exec" where
  "poll_memory p code k =
     bind_exec (slot_gets k sf_memory) (\<lambda>m. case m of
         None \<Rightarrow> panic_exec undefined_behaviour
       | Some f \<Rightarrow>
           bind_exec (modify_exec (st_set k (\<lambda>t. t\<lparr>sf_life := sf_life t @ [Polled]\<rparr>))) (\<lambda>_.
           bind_exec (gets_exec st_user) (\<lambda>u.
           bind_exec (run_sprog p (sc_poll code k f u)) (\<lambda>(ready, f').
           bind_exec (modify_exec (st_set k (\<lambda>t. t\<lparr>sf_memory := Some f'\<rparr>))) (\<lambda>_.
           return_exec ready)))))"

definition poll_created :: "profile \<Rightarrow> ('f, 'u) static_code \<Rightarrow> nat \<Rightarrow> (('f, 'u) static_alg, unit poll) exec" where
  "poll_created p code k =
     bind_exec (slot_gets k sf_init_flag) (\<lambda>flag.
     if p = Debug \<and> flag \<noteq> FLAG_CREATED then panic_exec (Panic ''assertion failed: `(left == right)`'')
     else
       bind_exec (poll_memory p code k) (\<lambda>ready.
       if ready then
         bind_exec (set_flag k FLAG_DROPPED) (\<lambda>_.
         bind_exec (drop_in_place p code k) (\<lambda>_. return_exec (Ready ())))
       else return_exec Pending))"

text \<open>The match on the flag when a status is given: whatever was there is dropped.\<close>

definition drop_anyways :: "profile \<Rightarrow> ('f, 'u) static_code \<Rightarrow> nat \<Rightarrow> nat \<Rightarrow> (('f, 'u) static_alg, unit) exec" where
  "drop_anyways p code k status =
     bind_exec (slot_gets k sf_init_flag) (\<lambda>flag.
     if flag = FLAG_CREATED then
       bind_exec (set_flag k (if status = RESTART_TASK \<or> status = UNINIT_TASK then FLAG_UNINIT else FLAG_DROPPED)) (\<lambda>_.
       drop_in_place p code k)
     else if flag = FLAG_DROPPED \<and> status = UNINIT_TASK then set_flag k FLAG_UNINIT
     else if flag = FLAG_UNINIT \<and> status = CANCEL_TASK then set_flag k FLAG_DROPPED
     else return_exec ())"

definition handle_task ::
  "profile \<Rightarrow> ('f, 'u) static_code \<Rightarrow> nat \<Rightarrow> nat \<Rightarrow> nat \<Rightarrow> (('f, 'u) static_alg, unit poll) exec" where
  "handle_task p code k gen status =
     (if status \<noteq> 0 then
        if p = Debug \<and> \<not> (status = CANCEL_TASK \<or> status = RESTART_TASK \<or> status = UNINIT_TASK) then
          panic_exec (Panic ''assertion failed: status'')
        else
          bind_exec (drop_anyways p code k status) (\<lambda>_.
          if status = RESTART_TASK then
            bind_exec (create_task p code k gen) (\<lambda>_. poll_created p code k)
          else return_exec (Ready ()))
      else
        bind_exec (slot_gets k sf_init_flag) (\<lambda>flag.
        if flag = FLAG_UNINIT then
          bind_exec (create_task p code k gen) (\<lambda>_. poll_created p code k)
        else if flag = FLAG_DROPPED then return_exec (Ready ())
        else poll_created p code k))"

subsection \<open>Static futures\<close>

definition recursive_call :: panic where
  "recursive_call = Panic ''Recursive call to task control function is not allowed.''"

definition poll_protected ::
  "profile \<Rightarrow> ('f, 'u) static_code \<Rightarrow> nat \<Rightarrow> nat \<Rightarrow> nat \<Rightarrow> (('f, 'u) static_alg, unit poll) exec" where
  "poll_protected p code k gen status =
     bind_exec (slot_gets k sf_polling) (\<lambda>polling.
     bind_exec (modify_exec (st_set k (\<lambda>t. t\<lparr>sf_polling := True\<rparr>))) (\<lambda>_.
     if polling then panic_exec recursive_call
     else guard_exec (handle_task p code k gen status) (st_set k (\<lambda>t. t\<lparr>sf_polling := False\<rparr>))))"

definition sf_cancel :: "profile \<Rightarrow> ('f, 'u) static_code \<Rightarrow> nat \<Rightarrow> nat \<Rightarrow> bool \<Rightarrow> (('f, 'u) static_alg, unit) exec" where
  "sf_cancel p code k gen uninit =
     bind_exec (poll_protected p code k gen (if uninit then UNINIT_TASK else CANCEL_TASK)) (\<lambda>res.
     if p = Debug \<and> res = Pending then panic_exec (Panic ''assertion failed: res.is_ready()'')
     else return_exec ())"

definition sf_cleanup :: "profile \<Rightarrow> ('f, 'u) static_code \<Rightarrow> nat \<Rightarrow> nat \<Rightarrow> (('f, 'u) static_alg, unit) exec" where
  "sf_cleanup p code k gen =
     guard_exec (sf_cancel p code k gen True) (st_set k (\<lambda>t. t\<lparr>sf_stop_reason := StCancelled\<rparr>))"

definition sf_init :: "nat \<Rightarrow> (('f, 'u) static_alg, unit) exec" where
  "sf_init k =
     bind_exec (slot_gets k sf_flags) (\<lambda>flags.
     if flags \<noteq> None then panic_exec (Panic ''called `Option::unwrap()` on a `None` value'')
     else modify_exec (st_set k (\<lambda>t. t\<lparr>sf_flags := Some True\<rparr>)))"

definition sf_set_runnable :: "nat \<Rightarrow> bool \<Rightarrow> (('f, 'u) static_alg, unit) exec" where
  "sf_set_runnable k v =
     bind_exec (slot_gets k id) (\<lambda>t.
     bind_exec (get_flags t) (\<lambda>_. modify_exec (st_set k (\<lambda>t. t\<lparr>sf_flags := Some v\<rparr>))))"

definition sf_reset :: "nat \<Rightarrow> bool \<Rightarrow> (('f, 'u) static_alg, bool) exec" where
  "sf_reset k defaults =
     bind_exec (slot_gets k sf_start_suspended) (\<lambda>start.
     bind_exec (set_reason k (if start \<and> defaults then StSuspended else StNone)) (\<lambda>_.
     bind_exec (sf_set_runnable k True) (\<lambda>_. return_exec start)))"

definition sf_poll_local ::
  "profile \<Rightarrow> ('f, 'u) static_code \<Rightarrow> nat \<Rightarrow> nat \<Rightarrow> bool \<Rightarrow> (('f, 'u) static_alg, unit poll) exec" where
  "sf_poll_local p code k gen restart =
     bind_exec (sf_set_runnable k False) (\<lambda>_.
     poll_protected p code k gen (if restart then RESTART_TASK else 0))"

subsection \<open>The scheduler\<close>

text \<open>The loops of \<open>init\<close> count the tasks that start suspended. \<open>usize::MAX\<close> is the dummy handle.\<close>

primrec init_loop ::
  "profile \<Rightarrow> ('f, 'u) static_code \<Rightarrow> bool \<Rightarrow> nat list \<Rightarrow> nat \<Rightarrow> (('f, 'u) static_alg, nat) exec" where
  "init_loop p code fresh [] n = return_exec n"
| "init_loop p code fresh (k # ks) n =
     bind_exec (if fresh then sf_init k else sf_cancel p code k usize_MAX True) (\<lambda>_.
     bind_exec (sf_reset k True) (\<lambda>start. init_loop p code fresh ks (if start then n + 1 else n)))"

definition st_init :: "profile \<Rightarrow> ('f, 'u) static_code \<Rightarrow> (('f, 'u) static_alg, unit) exec" where
  "st_init p code =
     bind_exec (gets_exec (\<lambda>s. (st_unfinished_count s, length (st_registry s)))) (\<lambda>(unfinished, len).
     bind_exec (init_loop p code (unfinished = usize_MAX) [0..<len] 0) (\<lambda>n.
     modify_exec (\<lambda>s. s\<lparr>st_suspended_count := n, st_unfinished_count := len\<rparr>)))"

text \<open>
  \<open>dispose\<close>. When the clean-up of a task panics, the guard cleans up the rest; a second panic then
  aborts the process.
\<close>

definition process_abort :: panic where
  "process_abort = Panic ''abort''"

primrec emergency_cleanup :: "profile \<Rightarrow> ('f, 'u) static_code \<Rightarrow> nat list \<Rightarrow> (('f, 'u) static_alg, unit) exec" where
  "emergency_cleanup p code [] = return_exec ()"
| "emergency_cleanup p code (k # ks) =
     catch_exec (sf_cleanup p code k usize_MAX)
       (\<lambda>_. emergency_cleanup p code ks)
       (\<lambda>_. panic_exec process_abort)"

primrec dispose_loop :: "profile \<Rightarrow> ('f, 'u) static_code \<Rightarrow> nat list \<Rightarrow> (('f, 'u) static_alg, unit) exec" where
  "dispose_loop p code [] = return_exec ()"
| "dispose_loop p code (k # ks) =
     catch_exec (sf_cleanup p code k usize_MAX)
       (\<lambda>_. dispose_loop p code ks)
       (\<lambda>e. bind_exec (emergency_cleanup p code ks) (\<lambda>_. panic_exec e))"

definition st_dispose :: "profile \<Rightarrow> ('f, 'u) static_code \<Rightarrow> (('f, 'u) static_alg, unit) exec" where
  "st_dispose p code =
     guard_exec
       (bind_exec (gets_exec (\<lambda>s. (st_unfinished_count s, length (st_registry s)))) (\<lambda>(unfinished, len).
        if unfinished = 0 then return_exec () else dispose_loop p code [0..<len]))
       (\<lambda>s. s\<lparr>st_generation := wrapping_add (st_generation s) 1\<rparr>)"

text \<open>The polling of a runnable task in \<open>beat_once\<close>.\<close>

definition st_poll_task :: "profile \<Rightarrow> ('f, 'u) static_code \<Rightarrow> nat \<Rightarrow> nat \<Rightarrow> bool \<Rightarrow> (('f, 'u) static_alg, bool) exec" where
  "st_poll_task p code gen k restart =
     bind_exec (modify_exec (\<lambda>s. s\<lparr>st_current := Some k, st_polled := st_polled s @ [k]\<rparr>)) (\<lambda>_.
     bind_exec (guard_exec (sf_poll_local p code k gen restart) (\<lambda>s. s\<lparr>st_current := None\<rparr>)) (\<lambda>res.
     if res = Ready () then
       bind_exec (set_reason k StFinished) (\<lambda>_.
       bind_exec (dec_unfinished p) (\<lambda>_. return_exec True))
     else return_exec True))"

definition st_beat_slot ::
  "profile \<Rightarrow> ('f, 'u) static_code \<Rightarrow> nat \<Rightarrow> nat \<Rightarrow> bool \<Rightarrow> (('f, 'u) static_alg, bool) exec" where
  "st_beat_slot p code gen k any_poll =
     bind_exec (modify_exec st_deliver) (\<lambda>_.
     bind_exec (slot_gets k sf_stop_reason) (\<lambda>reason.
     let run = (\<lambda>restart.
       bind_exec (slot_gets k id) (\<lambda>t.
       bind_exec (get_flags t) (\<lambda>runnable.
       if \<not> runnable then return_exec any_poll else st_poll_task p code gen k restart)))
     in case reason of
       StNone \<Rightarrow> run False
     | StCancelled \<Rightarrow>
         bind_exec (sf_cancel p code k usize_MAX False) (\<lambda>_.
         bind_exec (dec_unfinished p) (\<lambda>_. return_exec any_poll))
     | StRestart \<Rightarrow>
         bind_exec (set_reason k StNone) (\<lambda>_.
         bind_exec (sf_cancel p code k usize_MAX True) (\<lambda>_.
         bind_exec (sf_reset k False) (\<lambda>_. run True)))
     | StRestartSuspended \<Rightarrow>
         bind_exec (set_reason k StSuspended) (\<lambda>_.
         bind_exec (sf_cancel p code k usize_MAX True) (\<lambda>_.
         bind_exec (sf_reset k False) (\<lambda>_. return_exec any_poll)))
     | StFinished \<Rightarrow> return_exec any_poll
     | StSuspended \<Rightarrow> return_exec any_poll))"

primrec st_beat_loop ::
  "profile \<Rightarrow> ('f, 'u) static_code \<Rightarrow> nat \<Rightarrow> nat list \<Rightarrow> bool \<Rightarrow> (('f, 'u) static_alg, bool) exec" where
  "st_beat_loop p code gen [] any_poll = return_exec any_poll"
| "st_beat_loop p code gen (k # ks) any_poll =
     bind_exec (st_beat_slot p code gen k any_poll) (\<lambda>any. st_beat_loop p code gen ks any)"

definition st_beat_once :: "profile \<Rightarrow> ('f, 'u) static_code \<Rightarrow> (('f, 'u) static_alg, bool) exec" where
  "st_beat_once p code =
     bind_exec (gets_exec (\<lambda>s. (st_generation s, length (st_registry s)))) (\<lambda>(gen, len).
     st_beat_loop p code gen [0..<len] False)"

definition st_poll_iter :: "profile \<Rightarrow> ('f, 'u) static_code \<Rightarrow> nat \<Rightarrow> (('f, 'u) static_alg, bool poll option) exec" where
  "st_poll_iter p code waker =
     bind_exec (st_beat_once p code) (\<lambda>any.
     if any then return_exec None
     else
       bind_exec (modify_exec (\<lambda>s. st_register_waker waker (st_deliver s))) (\<lambda>_.
       bind_exec (st_beat_once p code) (\<lambda>any'.
       bind_exec (modify_exec st_deliver) (\<lambda>_.
       if \<not> any' then
         bind_exec (gets_exec (\<lambda>s. (st_unfinished_count s, st_suspended_count s))) (\<lambda>(cnt, sus).
         if cnt = 0 \<or> cnt = sus then
           bind_exec (modify_exec st_clear_waker) (\<lambda>_. return_exec (Some (Ready (cnt = 0))))
         else return_exec (Some Pending))
       else bind_exec (modify_exec st_clear_waker) (\<lambda>_. return_exec None)))))"

primrec st_poll_loop ::
  "profile \<Rightarrow> ('f, 'u) static_code \<Rightarrow> nat \<Rightarrow> nat \<Rightarrow> ('f, 'u) static_alg \<Rightarrow>
   ((panic + bool poll) \<times> ('f, 'u) static_alg) option" where
  "st_poll_loop p code waker 0 s = None"
| "st_poll_loop p code waker (Suc n) s =
     (case st_poll_iter p code waker s of
        (Inl e, s') \<Rightarrow> Some (Inl e, s')
      | (Inr (Some r), s') \<Rightarrow> Some (Inr r, s')
      | (Inr None, s') \<Rightarrow> st_poll_loop p code waker n s')"

definition st_poll_internal ::
  "profile \<Rightarrow> ('f, 'u) static_code \<Rightarrow> nat \<Rightarrow> nat \<Rightarrow> ('f, 'u) static_alg \<Rightarrow>
   ((panic + bool poll) \<times> ('f, 'u) static_alg) option" where
  "st_poll_internal p code waker n s = st_poll_loop p code waker n (st_clear_waker s)"

subsection \<open>Wheels\<close>

text \<open>Dropping a \<open>StaticWheel\<close> disposes the scheduler and then releases the lock.\<close>

definition sw_drop :: "profile \<Rightarrow> ('f, 'u) static_code \<Rightarrow> (('f, 'u) static_alg, unit) exec" where
  "sw_drop p code = guard_exec (st_dispose p code) (\<lambda>s. s\<lparr>st_lock := False\<rparr>)"

text \<open>
  \<open>try_lock\<close>: the wheel exists before \<open>init\<close> runs, so a panic of \<open>init\<close> drops it; if that panics too the
  process aborts. The result says whether there is a wheel.
\<close>

definition sw_try_lock :: "profile \<Rightarrow> ('f, 'u) static_code \<Rightarrow> (('f, 'u) static_alg, bool) exec" where
  "sw_try_lock p code =
     bind_exec (gets_exec st_lock) (\<lambda>locked.
     if locked then return_exec False
     else
       bind_exec (modify_exec (\<lambda>s. s\<lparr>st_lock := True\<rparr>)) (\<lambda>_.
       catch_exec (st_init p code)
         (\<lambda>_. return_exec True)
         (\<lambda>e. catch_exec (sw_drop p code) (\<lambda>_. panic_exec e) (\<lambda>_. panic_exec process_abort))))"

definition sw_lock :: "profile \<Rightarrow> ('f, 'u) static_code \<Rightarrow> (('f, 'u) static_alg, unit) exec" where
  "sw_lock p code =
     bind_exec (sw_try_lock p code) (\<lambda>got.
     if got then return_exec () else panic_exec (Panic ''StaticWheel is already used elsewhere.''))"

definition sw_handle :: "('f, 'u) static_alg \<Rightarrow> nat" where
  "sw_handle s = st_generation s"

text \<open>\<open>Future for StaticWheel\<close>: \<open>Inr True\<close> stands for \<open>Ok(())\<close> and \<open>Inr False\<close> for \<open>Err(SuspendError)\<close>.\<close>

definition sw_poll ::
  "profile \<Rightarrow> ('f, 'u) static_code \<Rightarrow> nat \<Rightarrow> nat \<Rightarrow> ('f, 'u) static_alg \<Rightarrow>
   ((panic + bool poll) \<times> ('f, 'u) static_alg) option" where
  "sw_poll p code waker n s = st_poll_internal p code waker n s"

lemmas static_defs = stp_new_def stp_suspend_def stp_set_name_def stp_named_def stp_suspended_new_def
  RESTART_TASK_def CANCEL_TASK_def UNINIT_TASK_def FLAG_UNINIT_def FLAG_CREATED_def FLAG_DROPPED_def
  static_future_new_def from_raw_config_def st_get_def st_set_def set_reason_def st_register_waker_def
  st_clear_waker_def st_notify_wake_def st_wake_def st_deliver_def st_add_suspended_def st_sub_suspended_def
  inc_unfinished_def dec_unfinished_def st_resume_def st_suspend_def st_restart_def st_cancel_def
  get_flags_def st_get_state_def st_get_name_def st_get_by_name_def st_registered_count_def sh_is_valid_def
  sh_when_valid_def st_to_id_def sh_cancel_def sh_suspend_def sh_resume_def sh_restart_def sh_current_def
  sh_get_current_name_def sh_get_name_def sh_get_by_name_def sh_registered_count_def sh_get_id_by_index_def
  id_from_usize_def id_to_usize_def slot_gets_def set_flag_def drop_in_place_def create_task_def
  poll_memory_def poll_created_def drop_anyways_def handle_task_def poll_protected_def sf_cancel_def
  sf_cleanup_def sf_init_def sf_set_runnable_def sf_reset_def sf_poll_local_def st_init_def st_dispose_def
  st_poll_task_def st_beat_slot_def st_beat_once_def st_poll_iter_def st_poll_internal_def sw_drop_def
  sw_try_lock_def sw_lock_def sw_handle_def sw_poll_def

declare static_defs [run]

lemma st_poll_loop_numeral [run]:
  "st_poll_loop p code waker (numeral n) s =
     (case st_poll_iter p code waker s of
        (Inl e, s') \<Rightarrow> Some (Inl e, s')
      | (Inr (Some r), s') \<Rightarrow> Some (Inr r, s')
      | (Inr None, s') \<Rightarrow> st_poll_loop p code waker (pred_numeral n) s')"
  by (simp add: numeral_eq_Suc)

end
