(* ===== verification/Static_Safety.thy ===== *)
theory Static_Safety
  imports Static_Scheduler
begin

text \<open>
  The memory of the static scheduler's tasks: the invariant that ties the flag of a task and the
  history of its memory to what the memory holds, that the code of the tasks touches none of it, and
  that every operation of the scheduler keeps it, whether it returns or unwinds.
\<close>

subsection \<open>The life of a task's memory\<close>

fun life_step :: "life \<Rightarrow> bool option \<Rightarrow> bool option" where
  "life_step Created (Some False) = Some True"
| "life_step Polled (Some True) = Some True"
| "life_step Dropped (Some True) = Some False"
| "life_step _ _ = None"

text \<open>\<open>Some b\<close>: the history is one of creations, polls and drops in order, and \<open>b\<close> says whether a future is alive.\<close>

definition life_state :: "life list \<Rightarrow> bool option" where
  "life_state ls = fold life_step ls (Some False)"

lemma life_state_append [simp]: "life_state (ls @ e # es) = fold life_step es (life_step e (life_state ls))"
  by (simp add: life_state_def)

lemma life_state_Nil [simp]: "life_state [] = Some False"
  by (simp add: life_state_def)

record 'f slot =
  sl_memory :: "'f option"
  sl_flag :: nat
  sl_life :: "life list"
  sl_polling :: bool

definition slot_of :: "'f static_future \<Rightarrow> 'f slot" where
  "slot_of t = \<lparr>sl_memory = sf_memory t, sl_flag = sf_init_flag t, sl_life = sf_life t, sl_polling = sf_polling t\<rparr>"

definition slot_ok :: "'f slot \<Rightarrow> bool" where
  "slot_ok x \<longleftrightarrow>
     life_state (sl_life x) = Some (sl_memory x \<noteq> None)
     \<and> (sl_flag x = FLAG_CREATED \<longleftrightarrow> sl_memory x \<noteq> None)
     \<and> (sl_flag x = FLAG_UNINIT \<or> sl_flag x = FLAG_CREATED \<or> sl_flag x = FLAG_DROPPED)"

text \<open>The panics that can come out of the scheduler; using memory that holds no future is not among them.\<close>

definition static_panic :: "panic \<Rightarrow> bool" where
  "static_panic e \<longleftrightarrow>
     e \<in> {UserPanic, ArithOverflow, process_abort, Panic ''Handle is invalid.'', Panic ''Error: Index out of bounds.'',
          Panic ''StaticFuture init error'', Panic ''called `Option::unwrap()` on a `None` value''}"

lemma static_panics [simp]:
  "static_panic UserPanic" "static_panic ArithOverflow" "static_panic process_abort"
  "static_panic (Panic ''Handle is invalid.'')" "static_panic (Panic ''Error: Index out of bounds.'')"
  "static_panic (Panic ''StaticFuture init error'')"
  "static_panic (Panic ''called `Option::unwrap()` on a `None` value'')"
  "\<not> static_panic undefined_behaviour" "\<not> static_panic recursive_call"
  by (simp_all add: static_panic_def undefined_behaviour_def recursive_call_def process_abort_def)

subsection \<open>The code of the tasks\<close>

text \<open>The memories are \<open>X\<close>, and \<open>g\<close> are the generation and the lock: the code of a task changes none of them.\<close>

definition held :: "'f slot list \<Rightarrow> nat \<times> bool \<Rightarrow> ('f, 'u) static_alg \<Rightarrow> bool" where
  "held X g s \<longleftrightarrow> map slot_of (st_registry s) = X \<and> (st_generation s, st_lock s) = g"

lemma slots_set:
  "(\<And>t. slot_of (f t) = h (slot_of t)) \<Longrightarrow>
   map slot_of (st_registry (st_set k f s)) = (map slot_of (st_registry s))[k := h (map slot_of (st_registry s) ! k)]"
  by (cases "k < length (st_registry s)") (simp_all add: st_set_def map_update not_less list_update_beyond)

lemma st_set_fields [simp]:
  "st_generation (st_set k f s) = st_generation s" "st_lock (st_set k f s) = st_lock s"
  "length (st_registry (st_set k f s)) = length (st_registry s)"
  by (simp_all add: st_set_def)

lemma held_set: "held X g s \<Longrightarrow> (\<And>t. slot_of (f t) = h (slot_of t)) \<Longrightarrow> held (X[k := h (X ! k)]) g (st_set k f s)"
  using slots_set [of f h k s] by (simp add: held_def)

lemma held_set_same: "(\<And>t. slot_of (f t) = slot_of t) \<Longrightarrow> held X g (st_set k f s) = held X g s"
  using slots_set [of f "\<lambda>x. x" k s] by (simp add: held_def)

lemma held_nth: "held X g s \<Longrightarrow> k < length X \<Longrightarrow> slot_of (st_registry s ! k) = X ! k"
  by (auto simp: held_def)

lemma held_length: "held X g s \<Longrightarrow> length (st_registry s) = length X"
  by (auto simp: held_def)

lemma held_fields [simp]:
  "held X g (s\<lparr>st_suspended_count := n\<rparr>) = held X g s" "held X g (s\<lparr>st_unfinished_count := n\<rparr>) = held X g s"
  "held X g (s\<lparr>st_user := u\<rparr>) = held X g s" "held X g (s\<lparr>st_current := c\<rparr>) = held X g s"
  "held X g (s\<lparr>st_polled := ks\<rparr>) = held X g s" "held X g (s\<lparr>st_last_waker := w\<rparr>) = held X g s"
  "held X g (s\<lparr>st_external := ws\<rparr>) = held X g s" "held X g (s\<lparr>st_woken := vs\<rparr>) = held X g s"
  by (simp_all add: held_def)

lemma held_wake [simp]: "held X g (st_wake k s) = held X g s"
  by (simp add: st_wake_def held_set_same slot_of_def st_notify_wake_def)

lemma held_wakes [simp]: "held X g (fold st_wake ks s) = held X g s"
  by (induction ks arbitrary: s) simp_all

lemma held_deliver [simp]: "held X g (st_deliver s) = held X g s"
  by (simp add: st_deliver_def split: list.split)

lemma keeps_reason [keeps]: "keeps (held X g) static_panic (set_reason k r)"
  unfolding set_reason_def by (rule keeps_modify) (simp add: held_set_same slot_of_def)

lemma usize_panics: "usize_add p a b = Inl e \<Longrightarrow> static_panic e" "usize_sub p a b = Inl e \<Longrightarrow> static_panic e"
  by (auto simp: usize_add_def usize_sub_def split: if_splits profile.splits)

lemma keeps_counts [keeps]:
  "keeps (held X g) static_panic (st_add_suspended p)" "keeps (held X g) static_panic (st_sub_suspended p)"
  "keeps (held X g) static_panic (inc_unfinished p)" "keeps (held X g) static_panic (dec_unfinished p)"
  unfolding st_add_suspended_def st_sub_suspended_def inc_unfinished_def dec_unfinished_def
  by (intro keeps keeps_modify; simp add: usize_panics)+

lemma keeps_when_valid [keeps]: "keeps I E m \<Longrightarrow> keeps I E (sh_when_valid gen ret m)"
  unfolding sh_when_valid_def by (intro keeps)

lemma keeps_st_to_id [keeps]: "keeps I static_panic (st_to_id p k)"
  unfolding st_to_id_def id_from_usize_def by (intro keeps) (simp_all add: usize_panics)

lemma keeps_case_reason [keeps]:
  assumes "keeps I E m1" "keeps I E m2" "keeps I E m3" "keeps I E m4" "keeps I E m5" "keeps I E m6"
  shows "keeps I E (case r of StNone \<Rightarrow> m1 | StSuspended \<Rightarrow> m2 | StCancelled \<Rightarrow> m3 | StFinished \<Rightarrow> m4
    | StRestart \<Rightarrow> m5 | StRestartSuspended \<Rightarrow> m6)"
  using assms by (cases r) simp_all

lemmas handle_ops = sh_cancel_def st_cancel_def sh_suspend_def st_suspend_def sh_resume_def st_resume_def
  sh_restart_def st_restart_def sh_current_def sh_get_current_name_def sh_get_name_def sh_get_by_name_def
  sh_registered_count_def sh_get_id_by_index_def id_from_usize_def

lemma exec_scall_held: "keeps (held X g) static_panic (exec_scall p c)"
  by (cases c; simp only: exec_scall.simps handle_ops; intro keeps keeps_modify; simp add: usize_panics)

lemma run_sprog_held: "keeps (held X g) static_panic (run_sprog p prog)"
  by (induction prog; simp only: run_sprog.simps; intro keeps keeps_modify exec_scall_held; simp)

subsection \<open>The memory operations\<close>

text \<open>
  \<open>stage k x X g s\<close>: the memory of task \<open>k\<close> is \<open>x\<close>, those of the others are as in \<open>X\<close>. Every
  operation below takes the memory from one stage to the next.
\<close>

definition stage :: "nat \<Rightarrow> 'f slot \<Rightarrow> 'f slot list \<Rightarrow> nat \<times> bool \<Rightarrow> ('f, 'u) static_alg \<Rightarrow> bool" where
  "stage k x X g s \<longleftrightarrow> k < length X \<and> held (X[k := x]) g s"

lemma stage_held: "held X g s \<Longrightarrow> k < length X \<Longrightarrow> stage k (X ! k) X g s"
  by (simp add: stage_def)

lemma stage_set:
  "stage k x X g s \<Longrightarrow> (\<And>t. slot_of (f t) = h (slot_of t)) \<Longrightarrow> stage k (h x) X g (st_set k f s)"
  using held_set [of "X[k := x]" g s f h k] by (simp add: stage_def)

lemma stage_at:
  assumes "stage k x X g s"
  shows "sf_memory (st_registry s ! k) = sl_memory x" "sf_init_flag (st_registry s ! k) = sl_flag x"
    "sf_life (st_registry s ! k) = sl_life x" "sf_polling (st_registry s ! k) = sl_polling x"
  using held_nth [of "X[k := x]" g s k] assms by (auto simp: stage_def slot_of_def)

lemma stage_user [simp]: "stage k x X g (s\<lparr>st_user := u\<rparr>) = stage k x X g s"
  by (simp add: stage_def)

lemma run_sprog_stage:
  "stage k x X g s \<Longrightarrow> wpx (run_sprog p prog) (\<lambda>_. stage k x X g) (\<lambda>e s'. static_panic e \<and> stage k x X g s') s"
  by (rule wpx_mono [OF keepsD [OF run_sprog_held, of "X[k := x]" g]]) (simp_all add: stage_def)

lemma wpx_slot_gets [simp]: "wpx (slot_gets k f) Q E s = Q (f (st_registry s ! k)) s"
  by (simp add: slot_gets_def)

lemma wpx_set_flag [simp]: "wpx (set_flag k v) Q E s = Q () (st_set k (\<lambda>t. t\<lparr>sf_init_flag := v\<rparr>) s)"
  by (simp add: set_flag_def)

lemma stage_flag: "stage k x X g s \<Longrightarrow> stage k (x\<lparr>sl_flag := v\<rparr>) X g (st_set k (\<lambda>t. t\<lparr>sf_init_flag := v\<rparr>) s)"
  by (rule stage_set [where h = "\<lambda>x. x\<lparr>sl_flag := v\<rparr>"]) (simp_all add: slot_of_def)

lemma stage_created:
  assumes "stage k x X g s"
  shows "stage k (x\<lparr>sl_memory := Some f, sl_life := sl_life x @ [Created], sl_flag := FLAG_CREATED\<rparr>) X g
    (st_set k (\<lambda>t. t\<lparr>sf_init_flag := FLAG_CREATED\<rparr>) (st_set k (\<lambda>t. t\<lparr>sf_memory := Some f, sf_life := sf_life t @ [Created]\<rparr>) s))"
  using stage_flag [OF stage_set [OF assms, where h = "\<lambda>x. x\<lparr>sl_memory := Some f, sl_life := sl_life x @ [Created]\<rparr>"
      and f = "\<lambda>t. t\<lparr>sf_memory := Some f, sf_life := sf_life t @ [Created]\<rparr>"], of FLAG_CREATED]
  by (simp add: slot_of_def)

lemma stage_polled:
  assumes "stage k x X g s"
  shows "stage k (x\<lparr>sl_life := sl_life x @ [Polled]\<rparr>) X g (st_set k (\<lambda>t. t\<lparr>sf_life := sf_life t @ [Polled]\<rparr>) s)"
  by (rule stage_set [OF assms, where h = "\<lambda>x. x\<lparr>sl_life := sl_life x @ [Polled]\<rparr>"]) (simp add: slot_of_def)

lemma stage_memory:
  assumes "stage k x X g s"
  shows "stage k (x\<lparr>sl_memory := m\<rparr>) X g (st_set k (\<lambda>t. t\<lparr>sf_memory := m\<rparr>) s)"
  by (rule stage_set [OF assms, where h = "\<lambda>x. x\<lparr>sl_memory := m\<rparr>"]) (simp add: slot_of_def)

lemma drop_in_place_ok:
  assumes "stage k x X g s" and "sl_memory x = Some f"
    and x': "x' = x\<lparr>sl_memory := None, sl_life := sl_life x @ [Dropped]\<rparr>"
  shows "wpx (drop_in_place p code k) (\<lambda>_. stage k x' X g) (\<lambda>e s'. static_panic e \<and> stage k x' X g s') s"
proof -
  have "stage k x' X g (st_set k (\<lambda>t. t\<lparr>sf_memory := None, sf_life := sf_life t @ [Dropped]\<rparr>) s)"
    unfolding x'
    by (rule stage_set [OF assms(1), where h = "\<lambda>x. x\<lparr>sl_memory := None, sl_life := sl_life x @ [Dropped]\<rparr>"])
       (simp add: slot_of_def)
  then show ?thesis
    using assms(2) stage_at [OF assms(1)] by (simp add: drop_in_place_def run_sprog_stage)
qed

lemma create_task_ok:
  assumes "stage k x X g s"
  shows "wpx (create_task p code k gen)
    (\<lambda>_ s'. \<exists>f. stage k (x\<lparr>sl_memory := Some f, sl_life := sl_life x @ [Created], sl_flag := FLAG_CREATED\<rparr>) X g s')
    (\<lambda>e s'. static_panic e \<and> stage k x X g s') s"
  unfolding create_task_def
  by (simp, rule wpx_mono [OF run_sprog_stage [OF assms]]) (auto intro: stage_created)

lemma poll_memory_ok:
  assumes "stage k x X g s" and "sl_memory x = Some f"
  shows "wpx (poll_memory p code k)
    (\<lambda>_ s'. \<exists>f'. stage k (x\<lparr>sl_life := sl_life x @ [Polled], sl_memory := Some f'\<rparr>) X g s')
    (\<lambda>e s'. static_panic e \<and> stage k (x\<lparr>sl_life := sl_life x @ [Polled]\<rparr>) X g s') s"
  using assms(2) stage_at [OF assms(1)] unfolding poll_memory_def
  by (simp, intro wpx_mono [OF run_sprog_stage [OF stage_polled [OF assms(1)]]]) (auto dest: stage_memory split: prod.split)

text \<open>Some consistent memory, with its polling flag, is left.\<close>

definition settled :: "nat \<Rightarrow> bool \<Rightarrow> 'f slot list \<Rightarrow> nat \<times> bool \<Rightarrow> ('f, 'u) static_alg \<Rightarrow> bool" where
  "settled k b X g s \<longleftrightarrow> (\<exists>x. slot_ok x \<and> sl_polling x = b \<and> stage k x X g s)"

text \<open>The same, and there is no future in it.\<close>

definition emptied :: "nat \<Rightarrow> bool \<Rightarrow> 'f slot list \<Rightarrow> nat \<times> bool \<Rightarrow> nat \<Rightarrow> ('f, 'u) static_alg \<Rightarrow> bool" where
  "emptied k b X g status s \<longleftrightarrow>
     (\<exists>x. slot_ok x \<and> sl_polling x = b \<and> sl_memory x = None \<and> (status = UNINIT_TASK \<longrightarrow> sl_flag x = FLAG_UNINIT) \<and> stage k x X g s)"

lemma emptied_settled: "emptied k b X g status s \<Longrightarrow> settled k b X g s"
  by (auto simp: emptied_def settled_def)

lemmas flag_defs = FLAG_UNINIT_def FLAG_CREATED_def FLAG_DROPPED_def RESTART_TASK_def CANCEL_TASK_def UNINIT_TASK_def

lemma poll_created_ok:
  assumes st: "stage k x X g s" and ok: "slot_ok x" "sl_flag x = FLAG_CREATED"
  shows "wpx (poll_created p code k) (\<lambda>_. settled k (sl_polling x) X g) (\<lambda>e s'. static_panic e \<and> settled k (sl_polling x) X g s') s"
proof -
  obtain f where f: "sl_memory x = Some f" "life_state (sl_life x) = Some True" using ok by (auto simp: slot_ok_def)
  have polled: "settled k (sl_polling x) X g s'" if "stage k (x\<lparr>sl_life := sl_life x @ [Polled]\<rparr>) X g s'" for s'
    unfolding settled_def using that ok f by (intro exI [of _ "x\<lparr>sl_life := sl_life x @ [Polled]\<rparr>"]) (simp add: slot_ok_def)
  have pending: "settled k (sl_polling x) X g s'" if "stage k (x\<lparr>sl_life := sl_life x @ [Polled], sl_memory := Some f'\<rparr>) X g s'" for s' f'
    unfolding settled_def using that ok f
    by (intro exI [of _ "x\<lparr>sl_life := sl_life x @ [Polled], sl_memory := Some f'\<rparr>"]) (simp add: slot_ok_def)
  have gone: "wpx (drop_in_place p code k) (\<lambda>_. settled k (sl_polling x) X g) (\<lambda>e s'. static_panic e \<and> settled k (sl_polling x) X g s')
      (st_set k (\<lambda>t. t\<lparr>sf_init_flag := FLAG_DROPPED\<rparr>) s')"
    if "stage k (x\<lparr>sl_life := sl_life x @ [Polled], sl_memory := Some f'\<rparr>) X g s'" for s' f'
  proof -
    let ?x = "x\<lparr>sl_life := sl_life x @ [Polled], sl_memory := Some f', sl_flag := FLAG_DROPPED\<rparr>"
    let ?y = "?x\<lparr>sl_memory := None, sl_life := sl_life ?x @ [Dropped]\<rparr>"
    have "settled k (sl_polling x) X g s''" if "stage k ?y X g s''" for s''
      unfolding settled_def using that f by (intro exI [of _ ?y]) (simp add: slot_ok_def flag_defs)
    then show ?thesis
      by (intro wpx_mono [OF drop_in_place_ok [where f = f' and x' = ?y, OF stage_flag [OF that]]]) auto
  qed
  show ?thesis
    unfolding poll_created_def using ok(2) stage_at [OF st]
    by (simp, intro wpx_mono [OF poll_memory_ok [OF st f(1)]]) (use pending gone polled in auto)
qed

lemma drop_anyways_ok:
  assumes st: "stage k x X g s" and ok: "slot_ok x"
  shows "wpx (drop_anyways p code k status) (\<lambda>_. emptied k (sl_polling x) X g status)
    (\<lambda>e s'. static_panic e \<and> settled k (sl_polling x) X g s') s"
proof (cases "sl_flag x = FLAG_CREATED")
  case True
  let ?v = "if status = RESTART_TASK \<or> status = UNINIT_TASK then FLAG_UNINIT else FLAG_DROPPED"
  let ?x = "x\<lparr>sl_flag := if status = RESTART_TASK \<or> status = UNINIT_TASK then FLAG_UNINIT else FLAG_DROPPED\<rparr>"
  let ?y = "?x\<lparr>sl_memory := None, sl_life := sl_life ?x @ [Dropped]\<rparr>"
  obtain f where f: "sl_memory x = Some f" "life_state (sl_life x) = Some True" using ok True by (auto simp: slot_ok_def)
  have "emptied k (sl_polling x) X g status s'" if "stage k ?y X g s'" for s'
    unfolding emptied_def using that f by (intro exI [of _ ?y]) (simp add: slot_ok_def flag_defs)
  then have "wpx (drop_in_place p code k) (\<lambda>_. emptied k (sl_polling x) X g status)
      (\<lambda>e s'. static_panic e \<and> settled k (sl_polling x) X g s') (st_set k (\<lambda>t. t\<lparr>sf_init_flag := ?v\<rparr>) s)"
    using f(1) by (intro wpx_mono [OF drop_in_place_ok [where f = f and x' = ?y, OF stage_flag [OF st]]]) (auto intro: emptied_settled)
  then show ?thesis
    unfolding drop_anyways_def using True stage_at(2) [OF st] by simp
next
  case False
  then have none: "sl_memory x = None" using ok by (auto simp: slot_ok_def)
  have set: "emptied k (sl_polling x) X g status (st_set k (\<lambda>t. t\<lparr>sf_init_flag := v\<rparr>) s)"
    if "v = FLAG_UNINIT \<or> v = FLAG_DROPPED \<and> status \<noteq> UNINIT_TASK" for v
    unfolding emptied_def using stage_flag [OF st, of v] that none ok
    by (intro exI [of _ "x\<lparr>sl_flag := v\<rparr>"]) (auto simp: slot_ok_def flag_defs)
  have same: "emptied k (sl_polling x) X g status s" if "status = UNINIT_TASK \<longrightarrow> sl_flag x = FLAG_UNINIT"
    unfolding emptied_def using st that none ok by blast
  consider "sl_flag x = FLAG_UNINIT" | "sl_flag x = FLAG_DROPPED" using False ok by (auto simp: slot_ok_def)
  then show ?thesis
  proof cases
    case 1
    then show ?thesis
      using set [of FLAG_DROPPED] same stage_at(2) [OF st]
      by (cases "status = CANCEL_TASK") (simp_all add: drop_anyways_def flag_defs)
  next
    case 2
    then show ?thesis
      using set [of FLAG_UNINIT] same stage_at(2) [OF st]
      by (cases "status = UNINIT_TASK") (simp_all add: drop_anyways_def flag_defs)
  qed
qed

lemma handle_task_ok:
  assumes st: "stage k x X g s" and ok: "slot_ok x" and status: "status = 0 \<or> status = RESTART_TASK \<or> status = CANCEL_TASK \<or> status = UNINIT_TASK"
  shows "wpx (handle_task p code k gen status)
    (\<lambda>r s'. settled k (sl_polling x) X g s'
       \<and> (status = CANCEL_TASK \<or> status = UNINIT_TASK \<longrightarrow> r = Ready () \<and> emptied k (sl_polling x) X g status s'))
    (\<lambda>e s'. static_panic e \<and> settled k (sl_polling x) X g s') s"
proof -
  let ?b = "sl_polling x"
  have fresh: "wpx (create_task p code k gen) (\<lambda>_. wpx (poll_created p code k) (\<lambda>_. settled k ?b X g) (\<lambda>e s'. static_panic e \<and> settled k ?b X g s'))
      (\<lambda>e s'. static_panic e \<and> settled k ?b X g s') s'"
    if "slot_ok y" "sl_polling y = ?b" "sl_memory y = None" "stage k y X g s'" for y s'
  proof -
    have "wpx (poll_created p code k) (\<lambda>_. settled k ?b X g) (\<lambda>e s'. static_panic e \<and> settled k ?b X g s') s''"
      if "stage k (y\<lparr>sl_memory := Some f, sl_life := sl_life y @ [Created], sl_flag := FLAG_CREATED\<rparr>) X g s''" for f s''
      using poll_created_ok [OF that, of p code] \<open>slot_ok y\<close> \<open>sl_polling y = ?b\<close> \<open>sl_memory y = None\<close>
      by (simp add: slot_ok_def)
    then show ?thesis
      using that by (intro wpx_mono [OF create_task_ok [OF that(4)]]) (auto simp: settled_def)
  qed
  have started: "settled k ?b X g s" using st ok by (auto simp: settled_def)
  show ?thesis
  proof (cases "status = 0")
    case True
    consider "sl_flag x = FLAG_UNINIT" "sl_memory x = None" | "sl_flag x = FLAG_DROPPED" | "sl_flag x = FLAG_CREATED"
      using ok by (auto simp: slot_ok_def flag_defs)
    then show ?thesis
    proof cases
      case 1
      then show ?thesis using True fresh [OF ok _ _ st] stage_at [OF st] by (simp add: handle_task_def flag_defs)
    next
      case 2
      then show ?thesis using True started stage_at [OF st] by (simp add: handle_task_def flag_defs)
    next
      case 3
      then show ?thesis using True poll_created_ok [OF st ok 3] stage_at [OF st] by (simp add: handle_task_def flag_defs)
    qed
  next
    case False
    have "wpx (create_task p code k gen) (\<lambda>_. wpx (poll_created p code k) (\<lambda>_. settled k ?b X g) (\<lambda>e s'. static_panic e \<and> settled k ?b X g s'))
      (\<lambda>e s'. static_panic e \<and> settled k ?b X g s') s'" if "emptied k ?b X g status s'" for s'
      using that fresh by (auto simp: emptied_def)
    then show ?thesis
      using False status
      by (auto simp: handle_task_def flag_defs intro!: wpx_mono [OF drop_anyways_ok [OF st ok]] dest: emptied_settled)
  qed
qed

subsection \<open>The scheduler keeps the memories consistent\<close>

lemma stage_polling: "stage k x X g s \<Longrightarrow> stage k (x\<lparr>sl_polling := v\<rparr>) X g (st_set k (\<lambda>t. t\<lparr>sf_polling := v\<rparr>) s)"
  by (rule stage_set [where h = "\<lambda>x. x\<lparr>sl_polling := v\<rparr>"]) (simp_all add: slot_of_def)

lemma slot_ok_polling [simp]: "slot_ok (x\<lparr>sl_polling := v\<rparr>) = slot_ok x"
  by (simp add: slot_ok_def)

lemma settled_polling:
  assumes "settled k b X g s"
  shows "settled k v X g (st_set k (\<lambda>t. t\<lparr>sf_polling := v\<rparr>) s)"
proof -
  obtain x where "slot_ok x" "stage k x X g s" using assms by (auto simp: settled_def)
  with stage_polling [of k x X g s v] show ?thesis
    unfolding settled_def by (intro exI [of _ "x\<lparr>sl_polling := v\<rparr>"]) simp
qed

lemma emptied_polling:
  assumes "emptied k b X g status s"
  shows "emptied k v X g status (st_set k (\<lambda>t. t\<lparr>sf_polling := v\<rparr>) s)"
proof -
  obtain x where "slot_ok x" "sl_memory x = None" "status = UNINIT_TASK \<longrightarrow> sl_flag x = FLAG_UNINIT" "stage k x X g s"
    using assms by (auto simp: emptied_def)
  with stage_polling [of k x X g s v] show ?thesis
    unfolding emptied_def by (intro exI [of _ "x\<lparr>sl_polling := v\<rparr>"]) simp
qed

lemma poll_protected_ok:
  assumes "held X g s" and "k < length X" and "slot_ok (X ! k)" and "\<not> sl_polling (X ! k)"
    and "status = 0 \<or> status = RESTART_TASK \<or> status = CANCEL_TASK \<or> status = UNINIT_TASK"
  shows "wpx (poll_protected p code k gen status)
    (\<lambda>r s'. settled k False X g s'
       \<and> (status = CANCEL_TASK \<or> status = UNINIT_TASK \<longrightarrow> r = Ready () \<and> emptied k False X g status s'))
    (\<lambda>e s'. static_panic e \<and> settled k False X g s') s"
proof -
  let ?x = "(X ! k)\<lparr>sl_polling := True\<rparr>"
  have "stage k ?x X g (st_set k (\<lambda>t. t\<lparr>sf_polling := True\<rparr>) s)" by (rule stage_polling [OF stage_held [OF assms(1,2)]])
  note ok = handle_task_ok [OF this _ assms(5), of p code gen]
  have "wpx (handle_task p code k gen status)
    (\<lambda>r s'. settled k False X g (st_set k (\<lambda>t. t\<lparr>sf_polling := False\<rparr>) s')
       \<and> (status = CANCEL_TASK \<or> status = UNINIT_TASK \<longrightarrow>
            r = Ready () \<and> emptied k False X g status (st_set k (\<lambda>t. t\<lparr>sf_polling := False\<rparr>) s')))
    (\<lambda>e s'. static_panic e \<and> settled k False X g (st_set k (\<lambda>t. t\<lparr>sf_polling := False\<rparr>) s'))
    (st_set k (\<lambda>t. t\<lparr>sf_polling := True\<rparr>) s)"
    using assms(3) by (intro wpx_mono [OF ok]) (auto intro: settled_polling emptied_polling)
  then show ?thesis
    using assms(4) stage_at(4) [OF stage_held [OF assms(1,2)]] by (simp add: poll_protected_def)
qed

lemma sf_cancel_ok:
  assumes "held X g s" and "k < length X" and "slot_ok (X ! k)" and "\<not> sl_polling (X ! k)"
  shows "wpx (sf_cancel p code k gen uninit) (\<lambda>_. emptied k False X g (if uninit then UNINIT_TASK else CANCEL_TASK))
    (\<lambda>e s'. static_panic e \<and> settled k False X g s') s"
  unfolding sf_cancel_def
  by (subst wpx_bind, rule wpx_mono [OF poll_protected_ok [OF assms]]) (auto simp: flag_defs)

text \<open>All memories are consistent and none is being polled.\<close>

definition good :: "nat \<Rightarrow> nat \<times> bool \<Rightarrow> ('f, 'u) static_alg \<Rightarrow> bool" where
  "good n g s \<longleftrightarrow> (\<exists>X. length X = n \<and> (\<forall>x \<in> set X. slot_ok x \<and> \<not> sl_polling x) \<and> held X g s)"

lemma settled_good:
  assumes "settled k False X g s" and "\<forall>x \<in> set X. slot_ok x \<and> \<not> sl_polling x"
  shows "good (length X) g s"
proof -
  obtain x where x: "slot_ok x" "\<not> sl_polling x" "held (X[k := x]) g s" using assms(1) by (auto simp: settled_def stage_def)
  with assms(2) set_update_subset_insert [of X k x] show ?thesis by (auto simp: good_def intro!: exI [of _ "X[k := x]"])
qed

lemma good_length: "good n g s \<Longrightarrow> length (st_registry s) = n"
  by (auto simp: good_def held_length)

lemma good_set: "(\<And>t. slot_of (f t) = slot_of t) \<Longrightarrow> good n g s \<Longrightarrow> good n g (st_set k f s)"
  by (auto simp: good_def held_set_same)

lemma good_fields [simp]:
  "good n g (s\<lparr>st_suspended_count := m\<rparr>) = good n g s" "good n g (s\<lparr>st_unfinished_count := m\<rparr>) = good n g s"
  "good n g (s\<lparr>st_user := u\<rparr>) = good n g s" "good n g (s\<lparr>st_current := c\<rparr>) = good n g s"
  "good n g (s\<lparr>st_polled := ks\<rparr>) = good n g s" "good n g (s\<lparr>st_last_waker := w\<rparr>) = good n g s"
  "good n g (s\<lparr>st_external := ws\<rparr>) = good n g s" "good n g (s\<lparr>st_woken := vs\<rparr>) = good n g s"
  "good n g (st_deliver s) = good n g s" "good n g (st_wake k s) = good n g s"
  by (simp_all add: good_def)

lemma held_good:
  assumes "\<And>X. keeps (held X g) static_panic m"
  shows "keeps (good n g) static_panic m"
proof (rule keepsI)
  fix s :: "('a, 'b) static_alg"
  assume "good n g s"
  then obtain X where X: "length X = n" "\<forall>x \<in> set X. slot_ok x \<and> \<not> sl_polling x" "held X g s" by (auto simp: good_def)
  show "wpx m (\<lambda>_. good n g) (\<lambda>e s'. static_panic e \<and> good n g s') s"
    by (rule wpx_mono [OF keepsD [OF assms X(3)]]) (use X(1,2) in \<open>auto simp: good_def\<close>)
qed

lemma poll_protected_good [keeps]:
  assumes "k < n" and "status = 0 \<or> status = RESTART_TASK \<or> status = CANCEL_TASK \<or> status = UNINIT_TASK"
  shows "keeps (good n g) static_panic (poll_protected p code k gen status)"
proof (rule keepsI)
  fix s :: "('a, 'b) static_alg"
  assume "good n g s"
  then obtain X where X: "length X = n" "\<forall>x \<in> set X. slot_ok x \<and> \<not> sl_polling x" "held X g s" by (auto simp: good_def)
  then have k: "k < length X" "slot_ok (X ! k)" "\<not> sl_polling (X ! k)" using assms(1) by auto
  show "wpx (poll_protected p code k gen status) (\<lambda>_. good n g) (\<lambda>e s'. static_panic e \<and> good n g s') s"
    by (rule wpx_mono [OF poll_protected_ok [OF X(3) k assms(2)]]) (auto dest: settled_good [OF _ X(2)] simp: X(1))
qed

lemma sf_cancel_good [keeps]:
  assumes "k < n"
  shows "keeps (good n g) static_panic (sf_cancel p code k gen uninit)"
proof (rule keepsI)
  fix s :: "('a, 'b) static_alg"
  assume "good n g s"
  then obtain X where X: "length X = n" "\<forall>x \<in> set X. slot_ok x \<and> \<not> sl_polling x" "held X g s" by (auto simp: good_def)
  then have k: "k < length X" "slot_ok (X ! k)" "\<not> sl_polling (X ! k)" using assms(1) by auto
  show "wpx (sf_cancel p code k gen uninit) (\<lambda>_. good n g) (\<lambda>e s'. static_panic e \<and> good n g s') s"
    by (rule wpx_mono [OF sf_cancel_ok [OF X(3) k]]) (auto dest!: emptied_settled dest: settled_good [OF _ X(2)] simp: X(1))
qed

lemma keeps_slot_gets [keeps]: "keeps I E (slot_gets k f)"
  unfolding slot_gets_def by (rule keeps_gets)

lemma keeps_get_flags [keeps]: "keeps I static_panic (get_flags t)"
  unfolding get_flags_def by (intro keeps) simp

lemma keeps_good_ops [keeps]:
  "keeps (good n g) static_panic (set_reason k r)" "keeps (good n g) static_panic (dec_unfinished p)"
  "keeps (good n g) static_panic (sf_set_runnable k v)" "keeps (good n g) static_panic (sf_reset k d)"
  "keeps (good n g) static_panic (sf_init k)"
proof -
  show "keeps (good n g) static_panic (set_reason k r)" for r by (rule held_good, rule keeps)
  moreover show "keeps (good n g) static_panic (dec_unfinished p)" by (rule held_good, rule keeps)
  moreover show "keeps (good n g) static_panic (sf_set_runnable k v)" for v
    unfolding sf_set_runnable_def by (intro keeps keeps_modify good_set) (simp_all add: slot_of_def)
  ultimately show "keeps (good n g) static_panic (sf_reset k d)"
    unfolding sf_reset_def by (intro keeps)
  show "keeps (good n g) static_panic (sf_init k)"
    unfolding sf_init_def by (intro keeps keeps_modify good_set) (simp_all add: slot_of_def)
qed

lemma st_poll_task_good [keeps]:
  "k < n \<Longrightarrow> keeps (good n g) static_panic (st_poll_task p code gen k restart)"
  unfolding st_poll_task_def sf_poll_local_def by (intro keeps keeps_modify keeps_guard) (simp_all add: flag_defs)

lemma st_beat_slot_good [keeps]:
  "k < n \<Longrightarrow> keeps (good n g) static_panic (st_beat_slot p code gen k any)"
  unfolding st_beat_slot_def by (intro keeps keeps_modify) simp_all

lemma st_beat_loop_good:
  "\<forall>k \<in> set ks. k < n \<Longrightarrow> keeps (good n g) static_panic (st_beat_loop p code gen ks any)"
proof (induction ks arbitrary: any)
  case (Cons k ks)
  then show ?case by (simp only: st_beat_loop.simps) (intro keeps, simp_all)
qed (simp add: keeps)

lemma st_beat_once_good [keeps]: "keeps (good n g) static_panic (st_beat_once p code)"
proof (rule keepsI)
  fix s :: "('a, 'b) static_alg"
  assume s: "good n g s"
  then show "wpx (st_beat_once p code) (\<lambda>_. good n g) (\<lambda>e s'. static_panic e \<and> good n g s') s"
    using keepsD [OF st_beat_loop_good, of "[0..<length (st_registry s)]" n g s] good_length [OF s]
    by (simp add: st_beat_once_def)
qed

lemma st_poll_iter_good [keeps]: "keeps (good n g) static_panic (st_poll_iter p code w)"
  unfolding st_poll_iter_def st_register_waker_def st_clear_waker_def by (intro keeps keeps_modify) simp_all

lemma st_poll_loop_good:
  "good n g s \<Longrightarrow> st_poll_loop p code w m s = Some (r, s') \<Longrightarrow> good n g s' \<and> (\<forall>e. r = Inl e \<longrightarrow> static_panic e)"
proof (induction m arbitrary: s)
  case (Suc m)
  then show ?case
    using keepsD [OF st_poll_iter_good Suc.prems(1), of p code w]
    by (auto simp: wpx_def split: prod.splits sum.splits option.splits)
qed simp

lemma init_loop_good:
  "\<forall>k \<in> set ks. k < n \<Longrightarrow> keeps (good n g) static_panic (init_loop p code fresh ks m)"
proof (induction ks arbitrary: m)
  case (Cons k ks)
  then show ?case by (simp only: init_loop.simps) (intro keeps, simp_all)
qed (simp add: keeps)

lemma sf_cleanup_good [keeps]: "k < n \<Longrightarrow> keeps (good n g) static_panic (sf_cleanup p code k gen)"
  unfolding sf_cleanup_def by (intro keeps keeps_guard good_set) (simp_all add: slot_of_def)

lemma emergency_good [keeps]:
  "\<forall>k \<in> set ks. k < n \<Longrightarrow> keeps (good n g) static_panic (emergency_cleanup p code ks)"
proof (induction ks)
  case (Cons k ks)
  then show ?case by (simp only: emergency_cleanup.simps) (intro keeps, simp_all)
qed (simp add: keeps)

lemma dispose_loop_good:
  "\<forall>k \<in> set ks. k < n \<Longrightarrow> keeps (good n g) static_panic (dispose_loop p code ks)"
proof (induction ks)
  case (Cons k ks)
  then show ?case by (simp only: dispose_loop.simps) (intro keeps, simp_all)
qed (simp add: keeps)

end
