(* ===== verification/Static_Correct.thy ===== *)
theory Static_Correct
  imports Static_Safety
begin

text \<open>
  Runs of a static wheel, and the properties of the static scheduler over them: the safety of the
  tasks' memory, what dropping and locking a wheel leave, and the end of the handles with their wheel.
\<close>

subsection \<open>Locking and dropping keep the memories consistent\<close>

lemma st_init_good [keeps]: "keeps (good n g) static_panic (st_init p code)"
proof (rule keepsI)
  fix s :: "('a, 'b) static_alg"
  assume s: "good n g s"
  have "keeps (good n g) static_panic (init_loop p code fresh [0..<length (st_registry s)] 0)" for fresh
    by (rule init_loop_good) (simp add: good_length [OF s])
  from keepsD [OF this s] show "wpx (st_init p code) (\<lambda>_. good n g) (\<lambda>e s'. static_panic e \<and> good n g s') s"
    by (simp add: st_init_def)
qed

lemma good_gen: "good n (gen, l) s \<Longrightarrow> good n (wrapping_add gen 1, l) (s\<lparr>st_generation := wrapping_add (st_generation s) 1\<rparr>)"
  by (auto simp: good_def held_def)

lemma good_lock: "good n (gen, l) s \<Longrightarrow> good n (gen, l') (s\<lparr>st_lock := l'\<rparr>)"
  by (auto simp: good_def held_def)

lemma sw_drop_ok:
  assumes s: "good n (gen, l) s"
  shows "wpx (sw_drop p code) (\<lambda>_. good n (wrapping_add gen 1, False))
    (\<lambda>e s'. static_panic e \<and> good n (wrapping_add gen 1, False) s') s"
proof -
  have "keeps (good n (gen, l)) static_panic (dispose_loop p code [0..<length (st_registry s)])"
    by (rule dispose_loop_good) (simp add: good_length [OF s])
  from keepsD [OF this s]
  have "wpx (dispose_loop p code [0..<length (st_registry s)])
      (\<lambda>_ s'. good n (wrapping_add gen 1, False) (s'\<lparr>st_generation := wrapping_add (st_generation s') 1, st_lock := False\<rparr>))
      (\<lambda>e s'. static_panic e \<and> good n (wrapping_add gen 1, False) (s'\<lparr>st_generation := wrapping_add (st_generation s') 1, st_lock := False\<rparr>)) s"
    by (rule wpx_mono) (blast intro: good_lock [OF good_gen])+
  then show ?thesis
    using good_lock [OF good_gen [OF s], of False] by (simp add: sw_drop_def st_dispose_def)
qed

lemma sw_try_lock_ok:
  assumes s: "good n (gen, l) s"
  shows "wpx (sw_try_lock p code) (\<lambda>x s'. x = (\<not> l) \<and> good n (gen, True) s')
    (\<lambda>e s'. static_panic e \<and> good n (wrapping_add gen 1, False) s') s"
proof -
  have l: "st_lock s = l" using s by (auto simp: good_def held_def)
  show ?thesis
  proof (cases l)
    case True
    then show ?thesis using l s by (simp add: sw_try_lock_def)
  next
    case False
    have failed: "wpx (sw_drop p code) (\<lambda>_ s'. static_panic e \<and> good n (wrapping_add gen 1, False) s')
        (\<lambda>_ s'. static_panic process_abort \<and> good n (wrapping_add gen 1, False) s') s'"
      if "static_panic e" "good n (gen, True) s'" for e s'
      by (rule wpx_mono [OF sw_drop_ok [OF that(2)]]) (use that(1) in auto)
    have "wpx (st_init p code) (\<lambda>_. good n (gen, True))
        (\<lambda>e. wpx (sw_drop p code) (\<lambda>_ s'. static_panic e \<and> good n (wrapping_add gen 1, False) s')
          (\<lambda>_ s'. static_panic process_abort \<and> good n (wrapping_add gen 1, False) s')) (s\<lparr>st_lock := True\<rparr>)"
      by (rule wpx_mono [OF keepsD [OF st_init_good good_lock [OF s]]]) (use failed in auto)
    then show ?thesis using False l by (simp add: sw_try_lock_def)
  qed
qed

subsection \<open>Runs\<close>

text \<open>
  A run of a wheel definition: it is locked, polled, dropped and used through handles in any order, by
  tasks with any code; \<open>e\<close> is the panic the last operation ended with, if it did. Polling and dropping
  need the wheel, which exists while the lock is held.
\<close>

inductive static_run ::
  "profile \<Rightarrow> ('f, 'u) static_code \<Rightarrow> static_params list \<Rightarrow> panic option \<Rightarrow> ('f, 'u) static_alg \<Rightarrow> bool"
  for p code config where
  config: "static_run p code config None (from_raw_config (map static_future_new config) u ext)"
| try_lock: "static_run p code config e s \<Longrightarrow> sw_try_lock p code s = (r, s') \<Longrightarrow> static_run p code config (panic_of r) s'"
| poll: "static_run p code config e s \<Longrightarrow> st_lock s \<Longrightarrow> sw_poll p code w m s = Some (r, s') \<Longrightarrow>
    static_run p code config (panic_of r) s'"
| drop: "static_run p code config e s \<Longrightarrow> st_lock s \<Longrightarrow> sw_drop p code s = (r, s') \<Longrightarrow>
    static_run p code config (panic_of r) s'"
| call: "static_run p code config e s \<Longrightarrow> exec_scall p c s = (r, s') \<Longrightarrow> static_run p code config (panic_of r) s'"

lemma good_config: "good (length config) (0, False) (from_raw_config (map static_future_new config) u ext)"
  unfolding good_def held_def
  by (rule exI [of _ "map (slot_of \<circ> static_future_new) config"])
     (simp add: from_raw_config_def slot_of_def static_future_new_def slot_ok_def flag_defs)

lemma panic_ofI: "wpx m Q (\<lambda>e s'. static_panic e \<and> R s') s \<Longrightarrow> m s = (r, s') \<Longrightarrow> \<forall>e. panic_of r = Some e \<longrightarrow> static_panic e"
  by (auto simp: wpx_def panic_of_def split: sum.splits)

lemma wrapping_add_max: "wrapping_add a b \<le> usize_MAX"
  by (simp add: wrapping_add_def less_Suc_eq_le [symmetric])

lemma static_run_good:
  "static_run p code config e s \<Longrightarrow>
   (\<exists>gen l. gen \<le> usize_MAX \<and> good (length config) (gen, l) s) \<and> (\<forall>e'. e = Some e' \<longrightarrow> static_panic e')"
proof (induction rule: static_run.induct)
  case (config u ext)
  show ?case using good_config [of config u ext] by auto
next
  case (try_lock e s r s')
  then obtain gen l where g: "gen \<le> usize_MAX" "good (length config) (gen, l) s" by blast
  from panic_ofI [OF sw_try_lock_ok [OF g(2)] try_lock.hyps(2)] sw_try_lock_ok [OF g(2), of p code] try_lock.hyps(2)
  show ?case using g(1) wrapping_add_max by (auto simp: wpx_def split: sum.splits)
next
  case (poll e s w m r s')
  then obtain gen l where g: "gen \<le> usize_MAX" "good (length config) (gen, l) s" by blast
  from g(2) have "good (length config) (gen, l) (st_clear_waker s)" by (simp add: st_clear_waker_def)
  from st_poll_loop_good [OF this, of p code w m r s'] poll.hyps(3) g(1) show ?case
    by (auto simp: sw_poll_def st_poll_internal_def panic_of_def split: sum.splits)
next
  case (drop e s r s')
  then obtain gen l where g: "gen \<le> usize_MAX" "good (length config) (gen, l) s" by blast
  from panic_ofI [OF sw_drop_ok [OF g(2)] drop.hyps(3)] sw_drop_ok [OF g(2), of p code] drop.hyps(3)
  show ?case using g(1) wrapping_add_max by (auto simp: wpx_def split: sum.splits)
next
  case (call e s c r s')
  then obtain gen l where g: "gen \<le> usize_MAX" "good (length config) (gen, l) s" by blast
  have k: "keeps (good (length config) (gen, l)) static_panic (exec_scall p c)" by (rule held_good, rule exec_scall_held)
  from panic_ofI [OF keepsD [OF k g(2)] call.hyps(2)] keepsD [OF k g(2)] call.hyps(2)
  show ?case using g(1) wrapping_add_max by (auto simp: wpx_def split: sum.splits)
qed

subsection \<open>Dropping and locking a wheel\<close>

text \<open>Dropping a wheel with unfinished tasks leaves no future behind.\<close>

lemma sf_cleanup_emptied:
  assumes "held X g s" and "k < length X" and "slot_ok (X ! k)" and "\<not> sl_polling (X ! k)"
  shows "wpx (sf_cleanup p code k gen) (\<lambda>_. emptied k False X g UNINIT_TASK) (\<lambda>_ _. True) s"
proof -
  have "emptied k False X g UNINIT_TASK (st_set k (\<lambda>t. t\<lparr>sf_stop_reason := StCancelled\<rparr>) s')"
    if "emptied k False X g UNINIT_TASK s'" for s'
    using that by (auto simp: emptied_def stage_def held_set_same slot_of_def)
  then show ?thesis
    unfolding sf_cleanup_def by (simp, intro wpx_mono [OF sf_cancel_ok [OF assms]]) auto
qed

definition vacated :: "nat set \<Rightarrow> 'f slot list \<Rightarrow> 'f slot list \<Rightarrow> bool" where
  "vacated A X X' \<longleftrightarrow> length X' = length X \<and> (\<forall>x \<in> set X'. slot_ok x \<and> \<not> sl_polling x)
     \<and> (\<forall>j < length X. if j \<in> A then sl_memory (X' ! j) = None \<and> sl_flag (X' ! j) = FLAG_UNINIT else X' ! j = X ! j)"

lemma vacated_step:
  assumes "vacated A X X'" and "k < length X" and "slot_ok x" "\<not> sl_polling x" "sl_memory x = None" "sl_flag x = FLAG_UNINIT"
  shows "vacated (insert k A) X (X'[k := x])"
  using assms set_update_subset_insert [of X' k x] by (auto simp: vacated_def nth_list_update)

lemma dispose_loop_vacates:
  "vacated A X X' \<Longrightarrow> held X' g s \<Longrightarrow> \<forall>k \<in> set ks. k < length X \<Longrightarrow>
   wpx (dispose_loop p code ks) (\<lambda>_ s'. \<exists>X''. vacated (A \<union> set ks) X X'' \<and> held X'' g s') (\<lambda>_ _. True) s"
proof (induction ks arbitrary: A X' s)
  case (Cons k ks)
  have k: "k < length X'" "slot_ok (X' ! k)" "\<not> sl_polling (X' ! k)" using Cons.prems by (auto simp: vacated_def)
  have "wpx (dispose_loop p code ks) (\<lambda>_ s'. \<exists>X''. vacated (A \<union> set (k # ks)) X X'' \<and> held X'' g s') (\<lambda>_ _. True) s'"
    if em: "emptied k False X' g UNINIT_TASK s'" for s'
  proof -
    obtain x where x: "slot_ok x" "\<not> sl_polling x" "sl_memory x = None" "sl_flag x = FLAG_UNINIT" "held (X'[k := x]) g s'"
      using em by (auto simp: emptied_def stage_def)
    have "vacated (insert k A) X (X'[k := x])" using Cons.prems x by (intro vacated_step) auto
    from Cons.IH [OF this x(5)] Cons.prems show ?thesis by simp
  qed
  then show ?case
    by (simp only: dispose_loop.simps wpx_catch) (intro wpx_mono [OF sf_cleanup_emptied [OF Cons.prems(2) k]], simp_all)
qed auto

lemma sw_drop_vacates:
  assumes "good n g s" and "sw_drop p code s = (Inr u, s')" and "st_unfinished_count s \<noteq> 0"
    and "t \<in> set (st_registry s')"
  shows "sf_memory t = None \<and> sf_init_flag t = FLAG_UNINIT \<and> \<not> sf_polling t"
proof -
  obtain X where X: "length X = n" "\<forall>x \<in> set X. slot_ok x \<and> \<not> sl_polling x" "held X g s" using assms(1) by (auto simp: good_def)
  let ?ks = "[0..<length (st_registry s)]"
  have "vacated {} X X" using X by (simp add: vacated_def)
  from dispose_loop_vacates [OF this X(3), of ?ks p code] held_length [OF X(3)]
  have loop: "wpx (dispose_loop p code ?ks) (\<lambda>_ s'. \<exists>X''. vacated {0..<n} X X'' \<and> held X'' g s') (\<lambda>_ _. True) s"
    by (simp add: X(1))
  obtain r s1 where run: "dispose_loop p code ?ks s = (r, s1)" by fastforce
  then have s': "s' = s1\<lparr>st_generation := wrapping_add (st_generation s1) 1, st_lock := False\<rparr>" "r = Inr u"
    using assms(2,3) by (auto simp: sw_drop_def st_dispose_def guard_exec_def bind_exec_def gets_exec_def)
  with loop run obtain X'' where X'': "vacated {0..<n} X X''" "held X'' g s1" by (auto simp: wpx_def)
  obtain j where j: "j < length (st_registry s1)" "t = st_registry s1 ! j" using assms(4) s'(1) by (auto simp: in_set_conv_nth)
  have "j < n" "X'' ! j = slot_of t" using j held_length [OF X''(2)] held_nth [OF X''(2), of j] X''(1) X(1)
    by (auto simp: vacated_def)
  moreover have "\<not> sl_polling (X'' ! j)" using X''(1) X(1) \<open>j < n\<close> by (auto simp: vacated_def)
  ultimately show ?thesis using X''(1) X(1) by (auto simp: vacated_def slot_of_def)
qed

text \<open>What \<open>init\<close> makes of a task that has no future.\<close>

definition fresh_task :: "'f static_future \<Rightarrow> 'f static_future" where
  "fresh_task t = t\<lparr>sf_init_flag := FLAG_UNINIT, sf_flags := Some True,
     sf_stop_reason := (if sf_start_suspended t then StSuspended else StNone)\<rparr>"

definition no_future :: "bool \<Rightarrow> 'f static_future \<Rightarrow> bool" where
  "no_future first t \<longleftrightarrow> (sf_flags t = None) = first \<and> sf_memory t = None \<and> \<not> sf_polling t
     \<and> (sf_init_flag t = FLAG_UNINIT \<or> sf_init_flag t = FLAG_DROPPED) \<and> (first \<longrightarrow> sf_init_flag t = FLAG_UNINIT)"

lemma init_task_eq:
  assumes "k < length (st_registry s)" and "no_future first (st_registry s ! k)"
  shows "bind_exec (if first then sf_init k else sf_cancel p code k usize_MAX True) (\<lambda>_. bind_exec (sf_reset k True) f) s
       = f (sf_start_suspended (st_registry s ! k)) (st_set k fresh_task s)"
proof (cases first)
  case True
  then show ?thesis
    using assms
    by (cases "st_registry s ! k") (simp add: no_future_def sf_init_def sf_reset_def sf_set_runnable_def get_flags_def set_reason_def slot_gets_def exec_defs
        st_set_def fresh_task_def)
next
  case False
  then show ?thesis
    using assms
    by (cases "st_registry s ! k") (auto simp: no_future_def sf_cancel_def poll_protected_def handle_task_def drop_anyways_def flag_defs set_flag_def
        sf_reset_def sf_set_runnable_def get_flags_def set_reason_def slot_gets_def exec_defs st_set_def fresh_task_def)
qed

lemma fresh_start [simp]: "sf_start_suspended (fresh_task t) = sf_start_suspended t"
  by (simp add: fresh_task_def)

lemma init_loop_eq:
  assumes "length ys = n" and "\<forall>t \<in> set ys. no_future first t" and "st_registry s = xs @ ys"
  shows "init_loop p code first [length xs..<length xs + n] m s
    = (Inr (m + length (filter sf_start_suspended ys)), s\<lparr>st_registry := xs @ map fresh_task ys\<rparr>)"
  using assms
proof (induction n arbitrary: xs ys m s)
  case 0
  then show ?case by (simp add: return_exec_def)
next
  case (Suc n)
  then obtain y ys' where ys: "ys = y # ys'" by (cases ys) auto
  let ?k = "length xs" and ?s = "st_set (length xs) fresh_task s"
  have at: "?k < length (st_registry s)" "st_registry s ! ?k = y" using Suc.prems ys by simp_all
  have reg: "st_registry ?s = (xs @ [fresh_task y]) @ ys'" using Suc.prems ys by (simp add: st_set_def)
  have upt: "[?k..<?k + Suc n] = ?k # [Suc ?k..<Suc ?k + n]" by (simp add: upt_conv_Cons del: upt_Suc)
  have "no_future first (st_registry s ! ?k)" using Suc.prems(2) at ys by simp
  from init_task_eq [OF at(1) this] have "init_loop p code first [?k..<?k + Suc n] m s
      = init_loop p code first [Suc ?k..<Suc ?k + n] (if sf_start_suspended y then m + 1 else m) ?s"
    unfolding upt init_loop.simps by (simp only: at(2))
  also have "\<dots> = (Inr ((if sf_start_suspended y then m + 1 else m) + length (filter sf_start_suspended ys')),
      ?s\<lparr>st_registry := (xs @ [fresh_task y]) @ map fresh_task ys'\<rparr>)"
    using Suc.IH [OF _ _ reg, of "if sf_start_suspended y then m + 1 else m"] Suc.prems ys by simp
  finally show ?case using ys by (simp add: st_set_def)
qed

lemma sw_try_lock_fresh:
  assumes "\<not> st_lock s" and "\<forall>t \<in> set (st_registry s). no_future (st_unfinished_count s = usize_MAX) t"
  shows "sw_try_lock p code s =
    (Inr True, s\<lparr>st_lock := True, st_registry := map fresh_task (st_registry s),
       st_suspended_count := length (filter sf_start_suspended (st_registry s)),
       st_unfinished_count := length (st_registry s)\<rparr>)"
  using assms init_loop_eq [of "st_registry s" _ "st_unfinished_count s = usize_MAX" "s\<lparr>st_lock := True\<rparr>" "[]" p code 0]
  by (simp add: sw_try_lock_def st_init_def exec_defs)

subsection \<open>An example wheel\<close>

text \<open>One task, whose polls are pending without a wake; the wheel just locked, and after a poll.\<close>

definition idle_code :: "(unit, unit) static_code" where
  "idle_code = \<lparr>sc_init = (\<lambda>k gen u. SReturn () u), sc_poll = (\<lambda>k f u. SReturn (False, f) u),
     sc_drop = (\<lambda>k f u. SReturn () u)\<rparr>"

definition one_locked :: "profile \<Rightarrow> (unit, unit) static_alg" where
  "one_locked p = snd (sw_try_lock p idle_code (from_raw_config (map static_future_new [stp_new]) () []))"

definition one_polled :: "(unit, unit) static_alg" where
  "one_polled = snd (the (sw_poll Debug idle_code 7 3 (one_locked Debug)))"

lemmas one_defs = one_polled_def one_locked_def idle_code_def

lemma one_locked_run: "static_run Debug idle_code [stp_new] None (one_locked Debug)"
proof -
  have "sw_try_lock Debug idle_code (from_raw_config (map static_future_new [stp_new]) () []) = (Inr True, one_locked Debug)"
    by (simp add: one_locked_def) (simp add: run idle_code_def cong: run_cong)
  from static_run.try_lock [OF static_run.config this] show ?thesis by (simp add: panic_of_def)
qed

lemma one_polled_run: "static_run Debug idle_code [stp_new] None one_polled"
proof -
  have "sw_poll Debug idle_code 7 3 (one_locked Debug) = Some (Inr Pending, one_polled)"
    by (simp add: one_polled_def) (simp add: run one_locked_def idle_code_def cong: run_cong)
  moreover have "st_lock (one_locked Debug)" by (simp add: run one_locked_def idle_code_def cong: run_cong)
  ultimately show ?thesis
    using static_run.poll [OF one_locked_run] by (fastforce simp: panic_of_def)
qed

subsection \<open>Properties\<close>

text \<open>
  C4. The memory of a task is used safely in every run of a static wheel, whatever the tasks' code
  does and wherever it panics, in the expression that makes a future, in a poll or in a destructor:
  futures are created in memory that holds none, polled and dropped only while they are there,
  and dropped once. No operation ends in undefined behaviour or finds a task being polled already.
\<close>

theorem static_memory_safe:
  assumes "static_run p code config e s" and "t \<in> set (st_registry s)"
  shows "life_state (sf_life t) = Some (sf_memory t \<noteq> None) \<and> (sf_init_flag t = FLAG_CREATED \<longleftrightarrow> sf_memory t \<noteq> None)
    \<and> \<not> sf_polling t \<and> e \<noteq> Some undefined_behaviour \<and> e \<noteq> Some recursive_call"
proof -
  obtain gen l where "good (length config) (gen, l) s" and e: "\<forall>e'. e = Some e' \<longrightarrow> static_panic e'"
    using static_run_good [OF assms(1)] by blast
  then have "slot_ok (slot_of t) \<and> \<not> sl_polling (slot_of t)" using assms(2) by (auto simp: good_def held_def)
  then show ?thesis using e by (auto simp: slot_ok_def slot_of_def)
qed

theorem static_memory_safe_witness:
  "sf_life (st_registry one_polled ! 0) = [Created, Polled] \<and> sf_memory (st_registry one_polled ! 0) = Some ()
    \<and> life_state (sf_life (st_registry one_polled ! 0)) = Some True"
proof -
  have l: "sf_life (st_registry one_polled ! 0) = [Created, Polled]" "sf_memory (st_registry one_polled ! 0) = Some ()"
    "length (st_registry one_polled) = 1"
    by (simp_all add: run one_defs cong: run_cong)
  then show ?thesis using static_memory_safe [OF one_polled_run, of "st_registry one_polled ! 0"] by simp
qed

text \<open>
  C19. If a static wheel, in any state of a run in which its count of unfinished tasks is not zero, is dropped, the drop does
  not panic, the count is not then \<open>usize::MAX\<close> (the mark of a scheduler that was never initialised) and every task has its wake
  flag (which it has since the first lock), then the definition can be locked again, and the new wheel is a new start: no task
  has a future, every task is runnable or, if it starts suspended, suspended, and both counts are right. In a release build
  \<open>static_cancel_breaks\<close> of \<open>Static_Failures\<close> reaches the excluded count.
\<close>

theorem drop_then_lock:
  assumes "static_run p code config e s" and "st_unfinished_count s \<noteq> 0"
    and "sw_drop p code s = (Inr u, s')" and "st_unfinished_count s' \<noteq> usize_MAX" and "\<forall>t \<in> set (st_registry s'). sf_flags t \<noteq> None"
  shows "\<not> st_lock s' \<and> sw_try_lock p code s' =
    (Inr True, s'\<lparr>st_lock := True, st_registry := map fresh_task (st_registry s'),
       st_suspended_count := length (filter sf_start_suspended (st_registry s')),
       st_unfinished_count := length (st_registry s')\<rparr>)
    \<and> (\<forall>t \<in> set (st_registry s'). sf_memory t = None)"
proof -
  obtain gen l where g: "good (length config) (gen, l) s" using static_run_good [OF assms(1)] by blast
  have lock: "\<not> st_lock s'" using sw_drop_ok [OF g, of p code] assms(3) by (auto simp: wpx_def good_def held_def)
  have empty: "sf_memory t = None \<and> sf_init_flag t = FLAG_UNINIT \<and> \<not> sf_polling t" if "t \<in> set (st_registry s')" for t
    by (rule sw_drop_vacates [OF g assms(3,2) that])
  then have "\<forall>t \<in> set (st_registry s'). no_future (st_unfinished_count s' = usize_MAX) t"
    using assms(4,5) by (simp add: no_future_def)
  from sw_try_lock_fresh [OF lock this] lock empty show ?thesis by blast
qed

theorem drop_then_lock_witness:
  "\<exists>s'. sw_drop Debug idle_code one_polled = (Inr (), s') \<and> fst (sw_try_lock Debug idle_code s') = Inr True"
proof -
  obtain s' where d: "sw_drop Debug idle_code one_polled = (Inr (), s')" "st_unfinished_count s' \<noteq> usize_MAX"
      "\<forall>t \<in> set (st_registry s'). sf_flags t \<noteq> None"
    by (simp add: run one_defs ex_bool_eq cong: run_cong)
  have "st_unfinished_count one_polled \<noteq> 0" by (simp add: run one_defs cong: run_cong)
  from drop_then_lock [OF one_polled_run this d] d(1) show ?thesis by simp
qed

text \<open>
  Handles end with their wheel: after a drop, with a panic or without, the handles made before are
  invalid, their operations answer with the default and change nothing, and \<open>get_id_by_index\<close> panics.
\<close>

theorem drop_invalidates_handles:
  assumes "static_run p code config e s" and "sw_drop p code s = (r, s')"
  shows "\<not> sh_is_valid (sw_handle s) s' \<and> \<not> st_lock s'
    \<and> sh_cancel p (sw_handle s) i s' = (Inr False, s') \<and> sh_suspend p (sw_handle s) i s' = (Inr False, s')
    \<and> sh_resume p (sw_handle s) i s' = (Inr False, s') \<and> sh_restart p (sw_handle s) i s' = (Inr False, s')
    \<and> sh_current p (sw_handle s) s' = (Inr None, s') \<and> sh_get_by_name p (sw_handle s) name s' = (Inr None, s')
    \<and> sh_registered_count (sw_handle s) s' = (Inr 0, s')
    \<and> sh_get_id_by_index p (sw_handle s) i s' = (Inl (Panic ''Handle is invalid.''), s')"
proof -
  obtain gen l where max: "gen \<le> usize_MAX" and g: "good (length config) (gen, l) s"
    using static_run_good [OF assms(1)] by blast
  then have gen: "gen = st_generation s" by (auto simp: good_def held_def)
  have "st_generation s' = wrapping_add gen 1 \<and> \<not> st_lock s'"
    using sw_drop_ok [OF g, of p code] assms(2) by (auto simp: wpx_def good_def held_def split: sum.splits)
  moreover have "wrapping_add gen 1 \<noteq> gen" using max by (cases "gen = usize_MAX") (auto simp: wrapping_add_def usize_MAX_def)
  ultimately have inv: "\<not> sh_is_valid (sw_handle s) s'" "\<not> st_lock s'" by (auto simp: sh_is_valid_def sw_handle_def gen)
  then have "sh_when_valid (sw_handle s) ret m s' = (Inr ret, s')" for ret :: 'x and m
    by (simp add: sh_when_valid_def exec_defs)
  then show ?thesis
    using inv by (simp add: sh_cancel_def sh_suspend_def sh_resume_def sh_restart_def sh_current_def sh_get_by_name_def
        sh_registered_count_def sh_get_id_by_index_def sh_when_valid_def exec_defs)
qed

theorem drop_invalidates_handles_witness:
  "\<exists>s'. sw_drop Debug idle_code one_polled = (Inr (), s') \<and> sh_cancel Debug (sw_handle one_polled) 1 s' = (Inr False, s')"
proof -
  obtain s' where d: "sw_drop Debug idle_code one_polled = (Inr (), s')"
    by (simp add: run one_defs cong: run_cong)
  from drop_invalidates_handles [OF one_polled_run d] d show ?thesis by blast
qed

end
