(* ===== verification/Static_Counts.thy ===== *)
theory Static_Counts
  imports Static_Correct
begin

text \<open>
  The counts of the static scheduler. Its two counters are right as long as the code of the tasks keeps away from
  the calls that break them: \<open>exact\<close> ties them to the stop reasons of the tasks, and every step of a poll keeps it.
\<close>

subsection \<open>Code that the counts survive\<close>

text \<open>
  The calls that the code of task \<open>k\<close> may make: no cancellation; suspensions, of the other tasks only, in code without
  restarts (\<open>b\<close>), and restarts in code without suspensions. What the excluded calls do to the counts is the subject of
  \<open>static_cancel_breaks\<close>, \<open>restart_suspend_lost\<close> and \<open>static_suspended_leak\<close>.
\<close>

fun tame_call :: "bool \<Rightarrow> nat \<Rightarrow> scall \<Rightarrow> bool" where
  "tame_call b k (SCancel gen i) = False"
| "tame_call b k (SSuspend gen i) = (b \<and> id_to_usize i \<noteq> k)"
| "tame_call b k (SRestart gen i) = (\<not> b)"
| "tame_call b k c = True"

primrec prog_ok :: "(scall \<Rightarrow> bool) \<Rightarrow> ('x, 'u) sprog \<Rightarrow> bool" where
  "prog_ok ok (SReturn x u) = True"
| "prog_ok ok (SPanic u) = True"
| "prog_ok ok (SCall c f) = (ok c \<and> (\<forall>r. prog_ok ok (f r)))"

definition task_ok :: "(scall \<Rightarrow> bool) \<Rightarrow> ('f, 'u) static_code \<Rightarrow> nat \<Rightarrow> bool" where
  "task_ok ok code k \<longleftrightarrow> (\<forall>gen f u. prog_ok ok (sc_init code k gen u) \<and> prog_ok ok (sc_poll code k f u)
     \<and> prog_ok ok (sc_drop code k f u))"

definition tame_code :: "bool \<Rightarrow> ('f, 'u) static_code \<Rightarrow> bool" where
  "tame_code b code \<longleftrightarrow> (\<forall>k. task_ok (tame_call b k) code k)"

lemma prog_ok_all [simp]: "prog_ok (\<lambda>_. True) pr" "task_ok (\<lambda>_. True) code k"
proof -
  show *: "prog_ok (\<lambda>_. True) pr" for pr :: "('x, 'u) sprog" by (induction pr) auto
  show "task_ok (\<lambda>_. True) code k" by (simp add: task_ok_def *)
qed

text \<open>
  An invariant that the calls of a task keep, and that does not depend on the memory of the tasks or on the user's state,
  is kept by everything that runs the code of the task.
\<close>

locale task_invariant =
  fixes ok :: "scall \<Rightarrow> bool" and inv :: "('f, 'u) static_alg \<Rightarrow> bool" and may :: "panic \<Rightarrow> bool"
  assumes call_kept: "ok c \<Longrightarrow> keeps inv may (exec_scall p c)"
    and slot_kept: "(\<And>t. sf_stop_reason (f t) = sf_stop_reason t \<and> sf_flags (f t) = sf_flags t) \<Longrightarrow> inv s \<Longrightarrow> inv (st_set k f s)"
    and user_kept: "inv s \<Longrightarrow> inv (s\<lparr>st_user := u\<rparr>)"
    and may_panic: "may UserPanic" "may undefined_behaviour" "may recursive_call" "may (Panic ''assertion failed: status'')"
      "may (Panic ''assertion failed: `(left == right)`'')" "may (Panic ''assertion failed: res.is_ready()'')"
begin

lemma prog_kept: "prog_ok ok pr \<Longrightarrow> keeps inv may (run_sprog p pr)"
  by (induction pr; simp only: run_sprog.simps prog_ok.simps; intro keeps keeps_modify call_kept; simp add: user_kept may_panic)

lemma modify_kept:
  "(\<And>t. sf_stop_reason (f t) = sf_stop_reason t \<and> sf_flags (f t) = sf_flags t) \<Longrightarrow> keeps inv may (modify_exec (st_set k f))"
  by (rule keeps_modify) (rule slot_kept)

lemma memory_kept:
  assumes "task_ok ok code k"
  shows "keeps inv may (drop_in_place p code k)" "keeps inv may (create_task p code k gen)"
    "keeps inv may (poll_memory p code k)" "keeps inv may (set_flag k v)"
  using assms unfolding drop_in_place_def create_task_def poll_memory_def set_flag_def task_ok_def
  by (intro keeps modify_kept prog_kept; simp add: may_panic)+

lemma handle_kept: "task_ok ok code k \<Longrightarrow> keeps inv may (handle_task p code k gen status)"
  unfolding handle_task_def drop_anyways_def poll_created_def by (intro keeps memory_kept; simp add: may_panic)

lemma protected_kept: "task_ok ok code k \<Longrightarrow> keeps inv may (poll_protected p code k gen status)"
  unfolding poll_protected_def by (intro keeps keeps_guard modify_kept handle_kept slot_kept; simp add: may_panic)

lemma cancel_kept: "task_ok ok code k \<Longrightarrow> keeps inv may (sf_cancel p code k gen uninit)"
  unfolding sf_cancel_def by (intro keeps protected_kept; simp add: may_panic)

end

subsection \<open>Exact counts\<close>

definition reasons :: "('f, 'u) static_alg \<Rightarrow> st_reason list" where
  "reasons s = map sf_stop_reason (st_registry s)"

definition finished_at :: "('f, 'u) static_alg \<Rightarrow> bool list" where
  "finished_at s = map (\<lambda>r. r = StFinished) (reasons s)"

definition tame_reasons :: "bool \<Rightarrow> st_reason set" where
  "tame_reasons b = (if b then {StNone, StSuspended, StFinished} else {StNone, StSuspended, StFinished, StRestart})"

definition how_many :: "('a \<Rightarrow> bool) \<Rightarrow> 'a list \<Rightarrow> nat" where
  "how_many P xs = length (filter P xs)"

definition exact :: "bool \<Rightarrow> nat \<Rightarrow> ('f, 'u) static_alg \<Rightarrow> bool" where
  "exact b n s \<longleftrightarrow> length (st_registry s) = n \<and> n \<le> usize_MAX \<and> set (reasons s) \<subseteq> tame_reasons b
     \<and> st_suspended_count s = how_many (\<lambda>r. r = StSuspended) (reasons s)
     \<and> st_unfinished_count s = how_many (\<lambda>r. r \<noteq> StFinished) (reasons s)
     \<and> (\<forall>t \<in> set (st_registry s). sf_flags t \<noteq> None) \<and> (\<forall>c. st_current s = Some c \<longrightarrow> c < n)"

text \<open>While task \<open>k\<close> runs it is neither suspended nor finished.\<close>

definition running :: "bool \<Rightarrow> nat \<Rightarrow> nat \<Rightarrow> ('f, 'u) static_alg \<Rightarrow> bool" where
  "running b n k s \<longleftrightarrow> exact b n s \<and> k < n \<and> reasons s ! k \<noteq> StSuspended \<and> reasons s ! k \<noteq> StFinished"

text \<open>The panics of tame code: its own, and those of \<open>get_id_by_index\<close>; the counters never overflow.\<close>

definition tame_panic :: "panic \<Rightarrow> bool" where
  "tame_panic e \<longleftrightarrow> e \<notin> {ArithOverflow, process_abort, Panic ''StaticFuture init error'',
     Panic ''called `Option::unwrap()` on a `None` value''}"

lemma tame_panics [simp]:
  "tame_panic UserPanic" "tame_panic (Panic ''Handle is invalid.'')" "tame_panic (Panic ''Error: Index out of bounds.'')"
  "tame_panic undefined_behaviour" "tame_panic recursive_call" "tame_panic (Panic ''assertion failed: status'')"
  "tame_panic (Panic ''assertion failed: `(left == right)`'')" "tame_panic (Panic ''assertion failed: res.is_ready()'')"
  "\<not> tame_panic ArithOverflow" "\<not> tame_panic (Panic ''StaticFuture init error'')"
  by (simp_all add: tame_panic_def undefined_behaviour_def recursive_call_def process_abort_def)

lemma how_many_update:
  "k < length xs \<Longrightarrow> how_many P (xs[k := y]) + (if P (xs ! k) then 1 else 0) = how_many P xs + (if P y then 1 else 0)"
  unfolding how_many_def by (rule length_filter_update)

lemma how_many_le: "how_many P xs \<le> length xs"
  by (simp add: how_many_def)

lemma how_many_pos: "k < length xs \<Longrightarrow> P (xs ! k) \<Longrightarrow> 0 < how_many P xs"
  by (auto simp: how_many_def filter_empty_conv intro: bexI [OF _ nth_mem])

lemma how_many_strict:
  assumes "k < length xs" and "\<not> P (xs ! k)"
  shows "how_many P xs < length xs"
  unfolding how_many_def using assms by (intro length_filter_less [of "xs ! k"]) simp_all

lemma how_many_0: "how_many P xs = 0 \<longleftrightarrow> (\<forall>x \<in> set xs. \<not> P x)"
  by (simp add: how_many_def filter_empty_conv)

lemma how_many_eq:
  assumes "how_many P xs = how_many Q xs" and "\<And>x. P x \<Longrightarrow> Q x" and "x \<in> set xs" and "Q x"
  shows "P x"
  using assms
proof (induction xs)
  case (Cons y xs)
  have "how_many P xs \<le> how_many Q xs" unfolding how_many_def
    using Cons.prems(2) by (induction xs) auto
  with Cons show ?case by (auto simp: how_many_def split: if_splits)
qed simp

lemma reasons_fields [simp]:
  "reasons (s\<lparr>st_suspended_count := m\<rparr>) = reasons s" "reasons (s\<lparr>st_unfinished_count := m\<rparr>) = reasons s"
  "reasons (s\<lparr>st_user := u\<rparr>) = reasons s" "reasons (s\<lparr>st_current := c\<rparr>) = reasons s"
  "reasons (s\<lparr>st_polled := ks\<rparr>) = reasons s" "reasons (s\<lparr>st_last_waker := w\<rparr>) = reasons s"
  "reasons (s\<lparr>st_external := ws\<rparr>) = reasons s" "reasons (s\<lparr>st_woken := vs\<rparr>) = reasons s"
  by (simp_all add: reasons_def)

lemma reasons_nth: "k < length (st_registry s) \<Longrightarrow> reasons s ! k = sf_stop_reason (st_registry s ! k)"
  by (simp add: reasons_def)

lemma length_reasons [simp]: "length (reasons s) = length (st_registry s)"
  by (simp add: reasons_def)

lemma finished_nth: "k < length (st_registry s) \<Longrightarrow> finished_at s ! k \<longleftrightarrow> reasons s ! k = StFinished"
  by (simp add: finished_at_def)

lemma reasons_set_same: "(\<And>t. sf_stop_reason (f t) = sf_stop_reason t) \<Longrightarrow> reasons (st_set k f s) = reasons s"
  by (cases "k < length (st_registry s)") (simp_all add: reasons_def st_set_def map_update list_update_beyond list_update_same_conv)

lemma reasons_set: "reasons (st_set k (\<lambda>t. t\<lparr>sf_stop_reason := r\<rparr>) s) = (reasons s)[k := r]"
  by (simp add: reasons_def st_set_def map_update)

lemma st_set_rest [simp]:
  "st_suspended_count (st_set k f s) = st_suspended_count s" "st_unfinished_count (st_set k f s) = st_unfinished_count s"
  "st_current (st_set k f s) = st_current s" "st_last_waker (st_set k f s) = st_last_waker s"
  "st_woken (st_set k f s) = st_woken s" "st_external (st_set k f s) = st_external s" "st_polled (st_set k f s) = st_polled s"
  by (simp_all add: st_set_def)

lemma flags_set:
  "(\<And>t. sf_flags t \<noteq> None \<Longrightarrow> sf_flags (f t) \<noteq> None) \<Longrightarrow> \<forall>t \<in> set (st_registry s). sf_flags t \<noteq> None \<Longrightarrow>
   \<forall>t \<in> set (st_registry (st_set k f s)). sf_flags t \<noteq> None"
  by (cases "k < length (st_registry s)")
     (auto simp: st_set_def list_update_beyond dest!: set_update_subset_insert [THEN subsetD])

lemma exact_set:
  "(\<And>t. sf_stop_reason (f t) = sf_stop_reason t) \<Longrightarrow> (\<And>t. sf_flags t \<noteq> None \<Longrightarrow> sf_flags (f t) \<noteq> None) \<Longrightarrow>
   exact b n s \<Longrightarrow> exact b n (st_set k f s)"
  using flags_set [of f s k] by (simp add: exact_def reasons_set_same)

lemma running_set:
  "(\<And>t. sf_stop_reason (f t) = sf_stop_reason t) \<Longrightarrow> (\<And>t. sf_flags t \<noteq> None \<Longrightarrow> sf_flags (f t) \<noteq> None) \<Longrightarrow>
   running b n k s \<Longrightarrow> running b n k (st_set j f s)"
  using exact_set [of f b n s j] by (simp add: running_def reasons_set_same)

lemma exact_fields [simp]:
  "exact b n (s\<lparr>st_user := u\<rparr>) = exact b n s" "exact b n (s\<lparr>st_polled := ks\<rparr>) = exact b n s"
  "exact b n (s\<lparr>st_last_waker := w\<rparr>) = exact b n s" "exact b n (s\<lparr>st_external := ws\<rparr>) = exact b n s"
  "exact b n (s\<lparr>st_woken := vs\<rparr>) = exact b n s"
  by (simp_all add: exact_def)

lemma running_fields [simp]:
  "running b n k (s\<lparr>st_user := u\<rparr>) = running b n k s" "running b n k (s\<lparr>st_polled := ks\<rparr>) = running b n k s"
  by (simp_all add: running_def)

lemma exact_wake [simp]: "exact b n s \<Longrightarrow> exact b n (st_wake k s)"
  unfolding st_wake_def st_notify_wake_def by (rule exact_set) simp_all

lemma reasons_wake [simp]: "reasons (st_wake k s) = reasons s" "finished_at (st_wake k s) = finished_at s"
  by (simp_all add: st_wake_def st_notify_wake_def reasons_set_same finished_at_def)

lemma running_wake [simp]: "running b n k s \<Longrightarrow> running b n k (st_wake j s)"
  by (simp add: running_def)

lemma wakes_exact:
  "exact b n s \<Longrightarrow> exact b n (fold st_wake ws s)" "reasons (fold st_wake ws s) = reasons s"
  by (induction ws arbitrary: s) simp_all

lemma exact_deliver [simp]: "exact b n s \<Longrightarrow> exact b n (st_deliver s)"
  by (simp add: st_deliver_def wakes_exact split: list.split)

lemma reasons_deliver [simp]: "reasons (st_deliver s) = reasons s"
  by (simp add: st_deliver_def wakes_exact split: list.split)


subsection \<open>The calls\<close>

text \<open>A change of the reason of one task, with the counters brought along.\<close>

definition recount :: "st_reason \<Rightarrow> st_reason \<Rightarrow> ('f, 'u) static_alg \<Rightarrow> ('f, 'u) static_alg \<Rightarrow> bool" where
  "recount r r' s s' \<longleftrightarrow>
     st_suspended_count s' + (if r = StSuspended then 1 else 0) = st_suspended_count s + (if r' = StSuspended then 1 else 0)
     \<and> st_unfinished_count s' + (if r = StFinished then 0 else 1) = st_unfinished_count s + (if r' = StFinished then 0 else 1)"

lemma exact_move:
  assumes "exact b n s" and "k < n" and "r' \<in> tame_reasons b" and "recount (reasons s ! k) r' s s'"
    and "st_registry s' = st_registry (st_set k (\<lambda>t. t\<lparr>sf_stop_reason := r'\<rparr>) s)" and "st_current s' = st_current s"
  shows "exact b n s'"
proof -
  have rs: "reasons s' = (reasons s)[k := r']" using assms(5) by (simp add: reasons_def st_set_def map_update)
  have k: "k < length (reasons s)" using assms(1,2) by (simp add: exact_def)
  have "set (reasons s') \<subseteq> tame_reasons b"
    using assms(1,3) set_update_subset_insert [of "reasons s" k r'] by (auto simp: rs exact_def)
  moreover have "\<forall>t \<in> set (st_registry s'). sf_flags t \<noteq> None"
    using assms(1) unfolding assms(5) by (intro flags_set) (simp_all add: exact_def)
  moreover have "length (st_registry s') = n" using assms(1) unfolding assms(5) by (simp add: exact_def)
  ultimately show ?thesis
    using assms(1,4,6) how_many_update [OF k, of "\<lambda>r. r = StSuspended" r'] how_many_update [OF k, of "\<lambda>r. r \<noteq> StFinished" r']
    by (auto simp: exact_def recount_def rs split: if_splits)
qed

lemma counts_bounded:
  assumes "exact b n s" and "k < n"
  shows "reasons s ! k \<noteq> StSuspended \<Longrightarrow> Suc (st_suspended_count s) \<le> usize_MAX"
    and "reasons s ! k = StSuspended \<Longrightarrow> 1 \<le> st_suspended_count s"
    and "reasons s ! k = StFinished \<Longrightarrow> Suc (st_unfinished_count s) \<le> usize_MAX"
    and "reasons s ! k \<noteq> StFinished \<Longrightarrow> 1 \<le> st_unfinished_count s"
  using assms how_many_strict [of k "reasons s" "\<lambda>r. r = StSuspended"] how_many_strict [of k "reasons s" "\<lambda>r. r \<noteq> StFinished"]
    how_many_pos [of k "reasons s" "\<lambda>r. r = StSuspended"] how_many_pos [of k "reasons s" "\<lambda>r. r \<noteq> StFinished"]
  by (auto simp: exact_def)

lemma wpx_set_reason [simp]: "wpx (set_reason k r) Q E s = Q () (st_set k (\<lambda>t. t\<lparr>sf_stop_reason := r\<rparr>) s)"
  by (simp add: set_reason_def)

lemma wpx_counts:
  "Suc (st_suspended_count s) \<le> usize_MAX \<Longrightarrow>
     wpx (st_add_suspended p) Q E s = Q () (s\<lparr>st_suspended_count := Suc (st_suspended_count s)\<rparr>)"
  "1 \<le> st_suspended_count s \<Longrightarrow> wpx (st_sub_suspended p) Q E s = Q () (s\<lparr>st_suspended_count := st_suspended_count s - 1\<rparr>)"
  "Suc (st_unfinished_count s) \<le> usize_MAX \<Longrightarrow>
     wpx (inc_unfinished p) Q E s = Q () (s\<lparr>st_unfinished_count := Suc (st_unfinished_count s)\<rparr>)"
  "1 \<le> st_unfinished_count s \<Longrightarrow> wpx (dec_unfinished p) Q E s = Q () (s\<lparr>st_unfinished_count := st_unfinished_count s - 1\<rparr>)"
  by (simp_all add: st_add_suspended_def st_sub_suspended_def inc_unfinished_def dec_unfinished_def)

text \<open>
  The three calls that move a task, from a state with exact counts: the answer, and exact counts after it. \<open>j\<close> is the task
  that makes the call, and stays as it is unless the call restarts it.
\<close>

definition moved :: "bool \<Rightarrow> nat \<Rightarrow> ('f, 'u) static_alg \<Rightarrow> nat \<Rightarrow> st_reason \<Rightarrow> ('f, 'u) static_alg \<Rightarrow> bool" where
  "moved b n s k r s' \<longleftrightarrow> exact b n s' \<and> reasons s' = (reasons s)[k := r]"

lemma movedI:
  assumes "exact b n s" and "k < n" and "r' \<in> tame_reasons b" and "recount (reasons s ! k) r' s s'"
    and "st_registry s' = st_registry (st_set k (\<lambda>t. t\<lparr>sf_stop_reason := r'\<rparr>) s)" and "st_current s' = st_current s"
  shows "moved b n s k r' s'"
  using exact_move [OF assms] assms(5) by (simp add: moved_def reasons_def st_set_def map_update)

lemma exact_at:
  assumes "exact b n s"
  shows "st_get k s = (if k < n then Some (st_registry s ! k) else None)"
    and "k < n \<Longrightarrow> sf_stop_reason (st_registry s ! k) = reasons s ! k" and "k < n \<Longrightarrow> reasons s ! k \<in> tame_reasons b"
  using assms by (auto simp: st_get_def exact_def reasons_def)

lemma st_resume_exact:
  assumes s: "exact b n s"
  shows "wpx (st_resume p k) (\<lambda>r s'. if k < n \<and> reasons s ! k = StSuspended then r \<and> moved b n s k StNone s' else \<not> r \<and> s' = s)
    (\<lambda>_ _. False) s"
proof (cases "k < n \<and> reasons s ! k = StSuspended")
  case True
  then show ?thesis
    using counts_bounded [OF s, of k] exact_at [OF s, of k]
    by (auto simp: st_resume_def wpx_counts tame_reasons_def recount_def intro!: movedI [OF s])
next
  case False
  then show ?thesis using exact_at [OF s, of k] by (auto simp: st_resume_def)
qed

lemma st_suspend_exact:
  assumes s: "exact True n s"
  shows "wpx (st_suspend p k) (\<lambda>r s'. if k < n \<and> reasons s ! k = StNone then r \<and> moved True n s k StSuspended s' else \<not> r \<and> s' = s)
    (\<lambda>_ _. False) s"
proof (cases "k < n \<and> reasons s ! k = StNone")
  case True
  then show ?thesis
    using counts_bounded [OF s, of k] exact_at [OF s, of k]
    by (auto simp: st_suspend_def wpx_counts tame_reasons_def recount_def intro!: movedI [OF s])
next
  case False
  then show ?thesis
    using exact_at [OF s, of k] by (auto simp: st_suspend_def tame_reasons_def)
qed

lemma st_restart_exact:
  assumes s: "exact False n s"
  shows "wpx (st_restart p k) (\<lambda>r s'. if k < n then r \<and> moved False n s k StRestart s' else \<not> r \<and> s' = s) (\<lambda>_ _. False) s"
proof (cases "k < n \<and> reasons s ! k \<noteq> StRestart")
  case True
  then have "reasons s ! k \<in> {StNone, StSuspended, StFinished}" using exact_at(3) [OF s, of k] by (auto simp: tame_reasons_def)
  then show ?thesis
    using True counts_bounded [OF s, of k] exact_at [OF s, of k]
    by (auto simp: st_restart_def wpx_counts tame_reasons_def recount_def st_set_def intro!: movedI [OF s])
next
  case False
  then show ?thesis
    using exact_at [OF s, of k] s list_update_id [of "reasons s" k] by (auto simp: st_restart_def moved_def simp del: list_update_id)
qed


lemma moved_running:
  assumes "moved b n s k r s'" and "running b n j s" and "j = k \<longrightarrow> r \<noteq> StSuspended \<and> r \<noteq> StFinished"
  shows "running b n j s'"
proof -
  have "j < length (reasons s)" using assms(2) by (simp add: running_def exact_def)
  then show ?thesis using assms by (cases "j = k") (simp_all add: moved_def running_def)
qed

lemma moved_finished:
  "moved b n s k r s' \<Longrightarrow> reasons s ! k \<noteq> StFinished \<Longrightarrow> r \<noteq> StFinished \<Longrightarrow> finished_at s' = finished_at s"
  by (cases "k < length (reasons s)")
     (auto simp: moved_def finished_at_def map_update list_update_beyond list_update_same_conv)

lemma position_less: "position P xs = Some k \<Longrightarrow> k < length xs"
  by (induction xs arbitrary: k) (auto split: if_splits)

lemma id_from_usize_ok: "k < n \<Longrightarrow> n \<le> usize_MAX \<Longrightarrow> id_from_usize p k = Inr (Suc k)"
  by (simp add: id_from_usize_def)

lemma exec_scall_exact:
  assumes s: "exact b n s" and c: "tame_call b j c"
  shows "wpx (exec_scall p c) (\<lambda>_ s'. exact b n s' \<and> (running b n j s \<longrightarrow> running b n j s') \<and> (b \<longrightarrow> finished_at s' = finished_at s)) (\<lambda>e s'. tame_panic e \<and> s' = s) s"
proof (cases c)
  case (SSuspend gen i)
  then have b: "b" "id_to_usize i \<noteq> j" using c by auto
  have "wpx (st_suspend p (id_to_usize i)) (\<lambda>_ s'. exact b n s' \<and> (running b n j s \<longrightarrow> running b n j s') \<and> (b \<longrightarrow> finished_at s' = finished_at s)) (\<lambda>e s'. tame_panic e \<and> s' = s) s"
    by (rule wpx_mono [OF st_suspend_exact]) (use s b in \<open>auto simp: moved_def intro: moved_running moved_finished split: if_splits\<close>)
  then show ?thesis using SSuspend s by (simp add: sh_suspend_def sh_when_valid_def)
next
  case (SResume gen i)
  have "wpx (st_resume p (id_to_usize i)) (\<lambda>_ s'. exact b n s' \<and> (running b n j s \<longrightarrow> running b n j s') \<and> (b \<longrightarrow> finished_at s' = finished_at s)) (\<lambda>e s'. tame_panic e \<and> s' = s) s"
    by (rule wpx_mono [OF st_resume_exact [OF s]]) (use s in \<open>auto simp: moved_def intro: moved_running moved_finished split: if_splits\<close>)
  then show ?thesis using SResume s by (simp add: sh_resume_def sh_when_valid_def)
next
  case (SRestart gen i)
  then have b: "\<not> b" using c by simp
  have "wpx (st_restart p (id_to_usize i)) (\<lambda>_ s'. exact b n s' \<and> (running b n j s \<longrightarrow> running b n j s') \<and> (b \<longrightarrow> finished_at s' = finished_at s)) (\<lambda>e s'. tame_panic e \<and> s' = s) s"
    by (rule wpx_mono [OF st_restart_exact]) (use s b in \<open>auto simp: moved_def intro: moved_running moved_finished split: if_splits\<close>)
  then show ?thesis using SRestart s by (simp add: sh_restart_def sh_when_valid_def)
next
  case (SCurrent gen)
  then show ?thesis
    using s by (auto simp: sh_current_def sh_when_valid_def st_to_id_def exact_def id_from_usize_ok split: option.split)
next
  case (SGetByName gen nm)
  then show ?thesis
    using s by (auto simp: sh_get_by_name_def sh_when_valid_def st_to_id_def st_get_by_name_def exact_def
        id_from_usize_ok [of _ "length (st_registry s)"] dest!: position_less split: option.split)
next
  case (SIdByIndex gen m)
  then show ?thesis
    using s by (auto simp: sh_get_id_by_index_def sh_registered_count_def sh_when_valid_def st_registered_count_def exact_def not_le
        id_from_usize_ok [of _ "length (st_registry s)"])
qed (use s c in \<open>simp_all add: sh_get_current_name_def sh_get_name_def sh_registered_count_def sh_when_valid_def\<close>)

lemma exec_scall_running [keeps]: "tame_call b k c \<Longrightarrow> keeps (running b n k) tame_panic (exec_scall p c)"
  by (rule keepsI, rule wpx_mono [OF exec_scall_exact]) (auto simp: running_def)

interpretation runs: task_invariant "tame_call b k" "running b n k" tame_panic
  by unfold_locales (auto intro: exec_scall_running running_set)

lemma protected_running [keeps]:
  "tame_code b code \<Longrightarrow> keeps (running b n k) tame_panic (poll_protected p code k gen status)"
  "tame_code b code \<Longrightarrow> keeps (running b n k) tame_panic (sf_cancel p code k gen uninit)"
  by (simp_all add: tame_code_def runs.protected_kept runs.cancel_kept)

subsection \<open>A poll\<close>

text \<open>\<open>get_state\<close> answers \<open>Runnable\<close>.\<close>

definition st_runnable :: "nat \<Rightarrow> ('f, 'u) static_alg \<Rightarrow> bool" where
  "st_runnable k s \<longleftrightarrow> fst (st_get_state k s) = Inr Runnable"

lemma st_runnable_iff:
  "exact b n s \<Longrightarrow> k < n \<Longrightarrow>
   st_runnable k s \<longleftrightarrow> reasons s ! k = StRestart \<or> reasons s ! k = StNone \<and> sf_flags (st_registry s ! k) = Some True"
  by (auto simp: st_runnable_def st_get_state_def exec_defs st_get_def exact_def reasons_nth get_flags_def
      split: st_reason.split option.splits dest!: bspec [OF _ nth_mem])

lemma exact_flags: "exact b n s \<Longrightarrow> k < n \<Longrightarrow> \<exists>v. sf_flags (st_registry s ! k) = Some v"
  by (auto simp: exact_def)

lemma wpx_set_runnable:
  assumes "exact b n s" and "k < n"
  shows "wpx (sf_set_runnable k v) Q E s = Q () (st_set k (\<lambda>t. t\<lparr>sf_flags := Some v\<rparr>) s)"
  using exact_flags [OF assms] by (auto simp: sf_set_runnable_def get_flags_def)

lemma running_none:
  assumes "running b n k s"
  shows "running b n k (st_set k (\<lambda>t. t\<lparr>sf_stop_reason := StNone\<rparr>) s)"
proof -
  let ?s = "st_set k (\<lambda>t. t\<lparr>sf_stop_reason := StNone\<rparr>) s"
  have s: "exact b n s" "k < n" and r: "reasons s ! k \<noteq> StSuspended" "reasons s ! k \<noteq> StFinished" using assms by (auto simp: running_def)
  have "exact b n ?s" by (rule exact_move [OF s]) (use r in \<open>auto simp: tame_reasons_def recount_def\<close>)
  then show ?thesis using s by (simp add: running_def reasons_set exact_def)
qed

lemma sf_reset_running:
  assumes "running b n k s"
  shows "wpx (sf_reset k False) (\<lambda>_ s'. running b n k s' \<and> sf_flags (st_registry s' ! k) = Some True) E s"
proof -
  let ?s = "st_set k (\<lambda>t. t\<lparr>sf_stop_reason := StNone\<rparr>) s"
  have r: "running b n k ?s" by (rule running_none [OF assms])
  then have e: "exact b n ?s" "k < n" by (auto simp: running_def)
  have "running b n k (st_set k (\<lambda>t. t\<lparr>sf_flags := Some True\<rparr>) ?s)" by (rule running_set [OF _ _ r]) simp_all
  moreover have "k < length (st_registry s)" using e by (simp add: exact_def)
  then have "sf_flags (st_registry (st_set k (\<lambda>t. t\<lparr>sf_flags := Some True\<rparr>) ?s) ! k) = Some True" by (simp add: st_set_def)
  ultimately show ?thesis by (simp add: sf_reset_def wpx_set_runnable [OF e])
qed

lemma exact_current [simp]: "exact b n s \<Longrightarrow> exact b n (s\<lparr>st_current := None\<rparr>)"
  by (simp add: exact_def)

lemma running_current: "running b n k s \<Longrightarrow> running b n k (s\<lparr>st_current := Some k, st_polled := ks\<rparr>)"
  by (simp add: running_def exact_def)

lemma sf_poll_local_running [keeps]:
  assumes "tame_code b code"
  shows "keeps (running b n k) tame_panic (sf_poll_local p code k gen restart)"
proof (rule keepsI)
  fix s :: "('a, 'b) static_alg"
  assume s: "running b n k s"
  then have e: "exact b n s" "k < n" by (auto simp: running_def)
  have "running b n k (st_set k (\<lambda>t. t\<lparr>sf_flags := Some False\<rparr>) s)" by (rule running_set [OF _ _ s]) simp_all
  from keepsD [OF protected_running(1) [OF assms] this]
  show "wpx (sf_poll_local p code k gen restart) (\<lambda>_. running b n k) (\<lambda>e s'. tame_panic e \<and> running b n k s') s"
    by (simp add: sf_poll_local_def wpx_set_runnable [OF e])
qed

lemma finish_exact:
  assumes "running b n k s"
  shows "wpx (bind_exec (set_reason k StFinished) (\<lambda>_. dec_unfinished p)) (\<lambda>_. exact b n) E s"
proof -
  have s: "exact b n s" "k < n" and r: "reasons s ! k \<noteq> StSuspended" "reasons s ! k \<noteq> StFinished"
    using assms by (auto simp: running_def)
  have one: "1 \<le> st_unfinished_count s" using counts_bounded(4) [OF s r(2)] .
  show ?thesis
    using one by (auto simp: wpx_counts tame_reasons_def recount_def r intro!: exact_move [OF s, where r' = StFinished])
qed

lemma st_poll_task_exact:
  assumes s: "running b n k s" and code: "tame_code b code"
  shows "wpx (st_poll_task p code gen k restart) (\<lambda>r s'. r \<and> exact b n s') (\<lambda>e s'. tame_panic e \<and> exact b n s') s"
proof -
  have "wpx (set_reason k StFinished) (\<lambda>_. wpx (dec_unfinished p) (\<lambda>_. exact b n) E) E (s'\<lparr>st_current := None\<rparr>)"
    if "running b n k s'" for s' E
    using that finish_exact [of b n k "s'\<lparr>st_current := None\<rparr>" p E] by (simp add: running_def)
  then have "wpx (sf_poll_local p code k gen restart)
      (\<lambda>res s'. wpx (if res = Ready () then bind_exec (set_reason k StFinished) (\<lambda>_. bind_exec (dec_unfinished p) (\<lambda>_. return_exec True)) else return_exec True)
         (\<lambda>r s'. r \<and> exact b n s') (\<lambda>e s'. tame_panic e \<and> exact b n s') (s'\<lparr>st_current := None\<rparr>))
      (\<lambda>e s'. tame_panic e \<and> exact b n (s'\<lparr>st_current := None\<rparr>)) (s\<lparr>st_current := Some k, st_polled := st_polled s @ [k]\<rparr>)"
    by (intro wpx_mono [OF keepsD [OF sf_poll_local_running [OF code] running_current [OF s]]]) (auto simp: running_def)
  then show ?thesis by (simp add: st_poll_task_def)
qed

text \<open>
  The visit of a slot. If it reports no poll, then it has only let the wakes of other threads arrive, and the
  task could not run.
\<close>

definition visited :: "bool \<Rightarrow> nat \<Rightarrow> nat \<Rightarrow> bool \<Rightarrow> ('f, 'u) static_alg \<Rightarrow> bool \<Rightarrow> ('f, 'u) static_alg \<Rightarrow> bool" where
  "visited b n k any s r s' \<longleftrightarrow> exact b n s' \<and> (\<not> r \<longrightarrow> \<not> any \<and> s' = st_deliver s \<and> \<not> st_runnable k s')"


lemma st_beat_slot_exact:
  assumes s: "exact b n s" and k: "k < n" and code: "tame_code b code"
  shows "wpx (st_beat_slot p code gen k any) (visited b n k any s) (\<lambda>e s'. tame_panic e \<and> exact b n s') s"
proof -
  let ?s = "st_deliver s" and ?E = "\<lambda>e s'. tame_panic e \<and> exact b n s'"
  have d: "exact b n ?s" using s by simp
  have at: "reasons ?s ! k = sf_stop_reason (st_registry ?s ! k)" using exact_at(2) [OF d k] by simp
  have polled: "wpx (st_poll_task p code gen k restart) (visited b n k any s) ?E s'" if "running b n k s'" for s' restart
    by (rule wpx_mono [OF st_poll_task_exact [OF that code]]) (auto simp: visited_def)
  consider "reasons ?s ! k = StNone" | "reasons ?s ! k = StSuspended \<or> reasons ?s ! k = StFinished" | "reasons ?s ! k = StRestart"
    using exact_at(3) [OF d k] by (auto simp: tame_reasons_def split: if_splits)
  then show ?thesis
  proof cases
    case 1
    then have r: "running b n k ?s" using d k by (simp add: running_def)
    obtain v where v: "sf_flags (st_registry ?s ! k) = Some v" using exact_flags [OF d k] by blast
    then show ?thesis
      using 1 at polled [OF r] d st_runnable_iff [OF d k]
      by (cases v) (simp_all add: st_beat_slot_def get_flags_def visited_def Let_def)
  next
    case 2
    then show ?thesis
      using at d st_runnable_iff [OF d k] by (auto simp: st_beat_slot_def visited_def Let_def)
  next
    case 3
    have r: "running b n k (st_set k (\<lambda>t. t\<lparr>sf_stop_reason := StNone\<rparr>) ?s)"
      by (rule running_none) (use 3 d k in \<open>simp add: running_def\<close>)
    have "wpx (sf_reset k False)
        (\<lambda>_ s'. wpx (get_flags (st_registry s' ! k)) (\<lambda>v. wpx (if \<not> v then return_exec any else st_poll_task p code gen k True) (visited b n k any s) ?E) ?E s') ?E s'"
      if "running b n k s'" for s'
      by (rule wpx_mono [OF sf_reset_running [OF that]]) (use polled in \<open>auto simp: get_flags_def\<close>)
    then have "wpx (sf_cancel p code k usize_MAX True)
        (\<lambda>_. wpx (sf_reset k False)
          (\<lambda>_ s'. wpx (get_flags (st_registry s' ! k)) (\<lambda>v. wpx (if \<not> v then return_exec any else st_poll_task p code gen k True) (visited b n k any s) ?E) ?E s') ?E)
        ?E (st_set k (\<lambda>t. t\<lparr>sf_stop_reason := StNone\<rparr>) ?s)"
      by (intro wpx_mono [OF keepsD [OF protected_running(2) [OF code] r]]) (auto simp: running_def)
    then show ?thesis using 3 at by (simp add: st_beat_slot_def Let_def)
  qed
qed

end
