(* ===== verification/Static_Poll.thy ===== *)
theory Static_Poll
  imports Static_Counts
begin

text \<open>
  Whole polls of the static scheduler, for tasks whose code is tame (\<open>Static_Counts\<close>): what a poll returns says how
  the tasks stand, no wake is lost, and it ends when the tasks have a bounded number of polls left.
\<close>

subsection \<open>Wake-ups are only added\<close>

definition grown :: "nat \<Rightarrow> ('f, 'u) static_alg \<Rightarrow> bool" where
  "grown m s \<longleftrightarrow> m \<le> length (st_woken s)"

lemma grown_fields [simp]:
  "grown m (s\<lparr>st_suspended_count := c\<rparr>) = grown m s" "grown m (s\<lparr>st_unfinished_count := c\<rparr>) = grown m s"
  "grown m (s\<lparr>st_user := u\<rparr>) = grown m s" "grown m (s\<lparr>st_current := k\<rparr>) = grown m s" "grown m (s\<lparr>st_polled := ks\<rparr>) = grown m s"
  "grown m (s\<lparr>st_last_waker := w\<rparr>) = grown m s" "grown m (s\<lparr>st_external := ws\<rparr>) = grown m s" "grown m (st_set j f s) = grown m s"
  by (simp_all add: grown_def)

lemma grown_wake [simp]: "grown m s \<Longrightarrow> grown m (st_wake k s)"
  by (simp add: st_wake_def st_notify_wake_def grown_def)

lemma grown_wakes: "grown m s \<Longrightarrow> grown m (fold st_wake ks s)"
  by (induction ks arbitrary: s) simp_all

lemma grown_deliver [simp]: "grown m s \<Longrightarrow> grown m (st_deliver s)"
  by (simp add: st_deliver_def grown_wakes split: list.split)

abbreviation grows :: "nat \<Rightarrow> (('f, 'u) static_alg, 'a) exec \<Rightarrow> bool" where
  "grows m \<equiv> keeps (grown m) (\<lambda>_. True)"

lemma grows_modify [keeps]: "(\<And>s. grown m s \<Longrightarrow> grown m (f s)) \<Longrightarrow> grows m (modify_exec f)"
  by (rule keeps_modify)

lemma grows_counts [keeps]:
  "grows m (st_add_suspended p)" "grows m (st_sub_suspended p)" "grows m (inc_unfinished p)" "grows m (dec_unfinished p)"
  "grows m (set_reason k r)" "grows m (set_flag k v)" "grows m (st_to_id p i)" "grows m (get_flags t)"
  unfolding st_add_suspended_def st_sub_suspended_def inc_unfinished_def dec_unfinished_def set_reason_def set_flag_def
    st_to_id_def get_flags_def
  by (intro keeps; simp)+

lemma grows_scall [keeps]: "grows m (exec_scall p c)"
  by (cases c; simp only: exec_scall.simps handle_ops; intro keeps; simp)

interpretation grow: task_invariant "\<lambda>_. True" "grown m" "\<lambda>_. True"
  by unfold_locales (simp_all add: grows_scall)

lemma grows_protected [keeps]: "grows m (poll_protected p code k gen status)"
  by (simp add: grow.protected_kept)

lemma grows_slot [keeps]: "grows m (st_beat_slot p code gen k any)"
  unfolding st_beat_slot_def st_poll_task_def sf_poll_local_def sf_cancel_def sf_reset_def sf_set_runnable_def
  by (intro keeps keeps_guard; simp)

lemma grows_loop [keeps]: "grows m (st_beat_loop p code gen ks any)"
  by (induction ks arbitrary: any; simp only: st_beat_loop.simps; intro keeps; simp)

lemma grows_beat [keeps]: "grows m (st_beat_once p code)"
  unfolding st_beat_once_def by (intro keeps)

lemma grows_iter [keeps]: "grows m (st_poll_iter p code w)"
  unfolding st_poll_iter_def st_register_waker_def st_clear_waker_def by (intro keeps; simp)

subsection \<open>The outer waker\<close>

text \<open>
  The outer waker \<open>w\<close> was registered when \<open>m\<close> wake-ups had been delivered. It is still there and no task of \<open>D\<close> is
  runnable, or it has been woken since.
\<close>

definition st_armed :: "nat \<Rightarrow> nat \<Rightarrow> nat set \<Rightarrow> ('f, 'u) static_alg \<Rightarrow> bool" where
  "st_armed w m D s \<longleftrightarrow>
     st_last_waker s = Some w \<and> length (st_woken s) = m \<and> (\<forall>k \<in> D. \<not> st_runnable k s)
     \<or> m < length (st_woken s) \<and> st_woken s ! m = w"

lemma st_wake_armed: "st_armed w m D s \<Longrightarrow> st_armed w m D (st_wake k s)"
  by (auto simp: st_armed_def st_wake_def st_notify_wake_def nth_append split: option.split)

lemma st_wakes_armed: "st_armed w m D s \<Longrightarrow> st_armed w m D (fold st_wake ks s)"
  by (induction ks arbitrary: s) (simp_all add: st_wake_armed)

lemma st_runnable_external [simp]: "st_runnable k (s\<lparr>st_external := ws\<rparr>) = st_runnable k s"
  by (auto simp: st_runnable_def st_get_state_def exec_defs st_get_def get_flags_def split: st_reason.split option.split)

lemma st_deliver_armed: "st_armed w m D s \<Longrightarrow> st_armed w m D (st_deliver s)"
  by (cases "st_external s")
     (simp_all add: st_deliver_def st_wakes_armed st_armed_def [of w m D s] st_armed_def [of w m D "s\<lparr>st_external := _\<rparr>"])

lemma st_beat_loop_exact:
  assumes "exact b n s" and "\<forall>k \<in> set ks. k < n" and "tame_code b code"
  shows "wpx (st_beat_loop p code gen ks any)
    (\<lambda>r s'. exact b n s' \<and> (\<not> r \<longrightarrow> \<not> any \<and> reasons s' = reasons s \<and> (\<forall>D w m. st_armed w m D s \<longrightarrow> st_armed w m (D \<union> set ks) s')))
    (\<lambda>e s'. tame_panic e \<and> exact b n s') s"
  using assms
proof (induction ks arbitrary: s any)
  case (Cons k ks)
  have arm: "st_armed w m (insert k D) s1" if "s1 = st_deliver s" "\<not> st_runnable k s1" "st_armed w m D s" for w m D s1
    using st_deliver_armed [OF that(3)] that(1,2) by (auto simp: st_armed_def)
  have "wpx (st_beat_loop p code gen ks r)
      (\<lambda>r s'. exact b n s' \<and> (\<not> r \<longrightarrow> \<not> any \<and> reasons s' = reasons s \<and> (\<forall>D w m. st_armed w m D s \<longrightarrow> st_armed w m (D \<union> set (k # ks)) s')))
      (\<lambda>e s'. tame_panic e \<and> exact b n s') s1" if v: "visited b n k any s r s1" for r s1
  proof (rule wpx_mono [OF Cons.IH [of s1 r]], goal_cases)
    case (4 r' s')
    have "st_armed w m (D \<union> set (k # ks)) s'" if "\<not> r'" "st_armed w m D s" for w m D
    proof -
      have "st_armed w m (insert k D) s1" using 4 that v by (intro arm) (auto simp: visited_def)
      then have "st_armed w m (insert k D \<union> set ks) s'" using 4 that by blast
      then show ?thesis by simp
    qed
    then show ?case using 4 v by (auto simp: visited_def)
  qed (use v Cons.prems in \<open>auto simp: visited_def\<close>)
  then show ?case
    unfolding st_beat_loop.simps wpx_bind
    by (intro wpx_mono [OF st_beat_slot_exact [OF Cons.prems(1) _ Cons.prems(3)]]) (use Cons.prems in auto)
qed simp


subsection \<open>What a poll returns\<close>

definition st_outcome :: "nat \<Rightarrow> nat \<Rightarrow> bool poll \<Rightarrow> ('f, 'u) static_alg \<Rightarrow> bool" where
  "st_outcome w m r s \<longleftrightarrow> (case r of
       Ready True \<Rightarrow> set (reasons s) \<subseteq> {StFinished} \<and> st_last_waker s = None
     | Ready False \<Rightarrow> StSuspended \<in> set (reasons s) \<and> set (reasons s) \<subseteq> {StFinished, StSuspended} \<and> st_last_waker s = None
     | Pending \<Rightarrow> \<not> set (reasons s) \<subseteq> {StFinished, StSuspended} \<and> (\<exists>m' \<ge> m. st_armed w m' {..<length (st_registry s)} s))"

lemma st_beat_once_exact:
  assumes "exact b n s" and "tame_code b code"
  shows "wpx (st_beat_once p code)
    (\<lambda>r s'. exact b n s' \<and> (\<not> r \<longrightarrow> reasons s' = reasons s \<and> (\<forall>w m. st_armed w m {} s \<longrightarrow> st_armed w m {..<n} s')))
    (\<lambda>e s'. tame_panic e \<and> exact b n s') s"
proof -
  have n: "length (st_registry s) = n" using assms(1) by (simp add: exact_def)
  have "wpx (st_beat_loop p code (st_generation s) [0..<n] False)
    (\<lambda>r s'. exact b n s' \<and> (\<not> r \<longrightarrow> reasons s' = reasons s \<and> (\<forall>w m. st_armed w m {} s \<longrightarrow> st_armed w m {..<n} s')))
    (\<lambda>e s'. tame_panic e \<and> exact b n s') s"
    by (rule wpx_mono [OF st_beat_loop_exact [OF assms(1) _ assms(2)]]) (auto simp: atLeast0LessThan dest: spec [of _ "{}"])
  then show ?thesis by (simp add: st_beat_once_def n)
qed

lemma exact_counts:
  assumes "exact b n s"
  shows "st_unfinished_count s = 0 \<longleftrightarrow> set (reasons s) \<subseteq> {StFinished}"
    and "st_unfinished_count s = st_suspended_count s \<longleftrightarrow> set (reasons s) \<subseteq> {StFinished, StSuspended}"
proof -
  let ?S = "how_many (\<lambda>r. r = StSuspended) (reasons s)" and ?U = "how_many (\<lambda>r. r \<noteq> StFinished) (reasons s)"
  have c: "st_suspended_count s = ?S" "st_unfinished_count s = ?U" using assms by (simp_all add: exact_def)
  show "st_unfinished_count s = 0 \<longleftrightarrow> set (reasons s) \<subseteq> {StFinished}" by (auto simp: c how_many_0)
  have "?S = ?U" if "set (reasons s) \<subseteq> {StFinished, StSuspended}"
    unfolding how_many_def using that by (intro arg_cong [where f = length] filter_cong) auto
  moreover have "r = StSuspended" if "?S = ?U" "r \<in> set (reasons s)" "r \<noteq> StFinished" for r
    by (rule how_many_eq [OF that(1) _ that(2)]) (use that(3) in auto)
  ultimately show "st_unfinished_count s = st_suspended_count s \<longleftrightarrow> set (reasons s) \<subseteq> {StFinished, StSuspended}"
    unfolding c by (metis insertCI singletonI subsetI)
qed

text \<open>What the scheduler returns when its second round found nothing to do.\<close>

definition st_verdict :: "('f, 'u) static_alg \<Rightarrow> bool poll \<times> ('f, 'u) static_alg" where
  "st_verdict s = (if st_unfinished_count s = 0 \<or> st_unfinished_count s = st_suspended_count s
     then (Ready (st_unfinished_count s = 0), st_clear_waker s) else (Pending, s))"

lemma verdict_outcome:
  assumes "exact b n s" and "m \<le> m'" and "st_armed w m' {..<n} s"
  shows "exact b n (snd (st_verdict s)) \<and> st_outcome w m (fst (st_verdict s)) (snd (st_verdict s))"
proof -
  have n: "length (st_registry s) = n" using assms(1) by (simp add: exact_def)
  have some: "StSuspended \<in> set (reasons s)" if "set (reasons s) \<subseteq> {StFinished, StSuspended}" "\<not> set (reasons s) \<subseteq> {StFinished}"
    using that by auto
  show ?thesis
    using assms exact_counts [OF assms(1)] some n
    by (cases "set (reasons s) \<subseteq> {StFinished}"; cases "set (reasons s) \<subseteq> {StFinished, StSuspended}")
       (auto simp: st_verdict_def st_outcome_def st_clear_waker_def)
qed

lemma wpx_iter:
  "wpx (st_poll_iter p code w) Q E s =
     wpx (st_beat_once p code) (\<lambda>any s1. if any then Q None s1 else
       wpx (st_beat_once p code) (\<lambda>any' s2. if any' then Q None (st_clear_waker (st_deliver s2))
           else Q (Some (fst (st_verdict (st_deliver s2)))) (snd (st_verdict (st_deliver s2))))
         E (st_register_waker w (st_deliver s1))) E s"
  by (simp add: st_poll_iter_def st_verdict_def wpx_if if_distrib [of fst] if_distrib [of snd] if_distrib [of "\<lambda>x. Q x _"] cong: if_cong)
    (simp add: conj_commute)

lemma st_poll_iter_exact:
  assumes s: "exact b n s" "grown m s" and code: "tame_code b code"
  shows "wpx (st_poll_iter p code w) (\<lambda>x s'. exact b n s' \<and> (\<forall>r. x = Some r \<longrightarrow> st_outcome w m r s')) (\<lambda>e s'. tame_panic e \<and> exact b n s') s"
proof -
  let ?E = "\<lambda>e s'. tame_panic e \<and> exact b n s'" and ?Q = "\<lambda>x s'. exact b n s' \<and> (\<forall>r. x = Some r \<longrightarrow> st_outcome w m r s')"
  let ?reg = "\<lambda>s. st_register_waker w (st_deliver s)" and ?v = "\<lambda>s. st_verdict (st_deliver s)"
  have second: "wpx (st_beat_once p code) (\<lambda>any' s2. if any' then ?Q None (st_clear_waker (st_deliver s2)) else ?Q (Some (fst (?v s2))) (snd (?v s2)))
      ?E (?reg s1)" if e: "exact b n s1" and g: "grown m s1" for s1
  proof -
    let ?m = "length (st_woken (?reg s1))"
    have m: "m \<le> ?m" using grown_deliver [OF g] by (simp add: grown_def st_register_waker_def)
    have a: "st_armed w ?m {} (?reg s1)" "exact b n (?reg s1)" using e by (simp_all add: st_armed_def st_register_waker_def)
    have "exact b n (snd (?v s2)) \<and> st_outcome w m (fst (?v s2)) (snd (?v s2))" if "exact b n s2" "st_armed w ?m {..<n} s2" for s2
      using that by (intro verdict_outcome [OF _ m] st_deliver_armed) simp_all
    then show ?thesis
      using a(1) by (intro wpx_mono [OF st_beat_once_exact [OF a(2) code]]) (auto simp: st_clear_waker_def)
  qed
  show ?thesis
    unfolding wpx_iter
    by (rule wpx_mono [OF wpx_conj [OF st_beat_once_exact [OF s(1) code] keepsD [OF grows_beat s(2)]]]) (use second in auto)
qed

lemma st_poll_loop_exact:
  assumes "exact b n s" and "grown m s" and "tame_code b code" and "st_poll_loop p code w i s = Some (x, s')"
  shows "exact b n s' \<and> (case x of Inl e \<Rightarrow> tame_panic e | Inr r \<Rightarrow> st_outcome w m r s')"
  using assms(1,2,4)
proof (induction i arbitrary: s)
  case (Suc i)
  have "wpx (st_poll_iter p code w) (\<lambda>x s'. (exact b n s' \<and> (\<forall>r. x = Some r \<longrightarrow> st_outcome w m r s')) \<and> grown m s')
      (\<lambda>e s'. (tame_panic e \<and> exact b n s') \<and> (True \<and> grown m s')) s"
    by (rule wpx_conj [OF st_poll_iter_exact [OF Suc.prems(1,2) assms(3)] keepsD [OF grows_iter Suc.prems(2)]])
  then show ?case
    using Suc by (auto simp: wpx_def split: prod.splits sum.splits option.splits)
qed simp

end
