(* ===== verification/Static_Weight.thy ===== *)
theory Static_Weight
  imports Static_Poll
begin

text \<open>
  Polls of the static scheduler that end. The futures of a configuration have weights, bounded when they are made, that
  sink whenever a poll of them is pending; every round that polls a task then lowers the potential of the scheduler.
\<close>

subsection \<open>Code with a bounded number of polls\<close>

primrec sprog_all :: "('x \<Rightarrow> bool) \<Rightarrow> ('x, 'u) sprog \<Rightarrow> bool" where
  "sprog_all P (SReturn x u) = P x"
| "sprog_all P (SPanic u) = True"
| "sprog_all P (SCall c f) = (\<forall>r. sprog_all P (f r))"

definition sinking :: "('f \<Rightarrow> nat) \<Rightarrow> nat \<Rightarrow> ('f, 'u) static_code \<Rightarrow> bool" where
  "sinking weigh cap code \<longleftrightarrow> (\<forall>k gen f u. sprog_all (\<lambda>f. weigh f \<le> cap) (sc_init code k gen u)
     \<and> sprog_all (\<lambda>(ready, f'). \<not> ready \<longrightarrow> weigh f' < weigh f) (sc_poll code k f u))"

lemma run_sprog_all:
  fixes s :: "('f, 'u) static_alg"
  shows "sprog_all P pr \<Longrightarrow> wpx (run_sprog p pr) (\<lambda>x _. P x) (\<lambda>_ _. True) s"
proof (induction pr arbitrary: s)
  case (SCall c f)
  have "wpx (run_sprog p (f r)) (\<lambda>x _. P x) (\<lambda>_ _. True) s'" for r and s' :: "('f, 'u) static_alg" using SCall by auto
  then show ?case by (simp add: wpx_def [of "exec_scall p c"] split: prod.split sum.split)
qed simp_all

text \<open>The polls that a memory has left; a task without a future has those of the future it will get.\<close>

definition slot_weight :: "('f \<Rightarrow> nat) \<Rightarrow> nat \<Rightarrow> 'f slot \<Rightarrow> nat" where
  "slot_weight weigh cap x = (case sl_memory x of None \<Rightarrow> Suc (Suc cap) | Some f \<Rightarrow> Suc (weigh f))"

lemma slot_weight_pos [simp]: "0 < slot_weight weigh cap x"
  by (simp add: slot_weight_def split: option.split)

lemma create_task_weight:
  assumes "stage k x X g s" and "sinking weigh cap code"
  shows "wpx (create_task p code k gen)
    (\<lambda>_ s'. \<exists>f. weigh f \<le> cap \<and> stage k (x\<lparr>sl_memory := Some f, sl_life := sl_life x @ [Created], sl_flag := FLAG_CREATED\<rparr>) X g s')
    (\<lambda>_ _. True) s"
  unfolding create_task_def
  by (simp, rule wpx_mono [OF wpx_conj [OF run_sprog_stage [OF assms(1)] run_sprog_all [where P = "\<lambda>f. weigh f \<le> cap"]]])
     (use assms(2) in \<open>auto simp: sinking_def intro: stage_created\<close>)

text \<open>A step of the memory of task \<open>k\<close> after which it is a consistent one, of less weight if the poll was pending.\<close>

definition lighter :: "('f \<Rightarrow> nat) \<Rightarrow> nat \<Rightarrow> nat \<Rightarrow> nat \<Rightarrow> 'f slot list \<Rightarrow> nat \<times> bool \<Rightarrow> unit poll \<Rightarrow> ('f, 'u) static_alg \<Rightarrow> bool" where
  "lighter weigh cap m k X g r s \<longleftrightarrow> (\<exists>x. stage k x X g s \<and> (r = Pending \<longrightarrow> slot_weight weigh cap x < m))"

lemma poll_created_weight:
  assumes st: "stage k x X g s" and f: "sl_memory x = Some f" and code: "sinking weigh cap code"
  shows "wpx (poll_created p code k) (lighter weigh cap (Suc (weigh f)) k X g) (\<lambda>_ _. True) s"
proof -
  let ?x = "x\<lparr>sl_life := sl_life x @ [Polled]\<rparr>"
  have sink: "sprog_all (\<lambda>(ready, f'). \<not> ready \<longrightarrow> weigh f' < weigh f) (sc_poll code k f u)" for u
    using code by (auto simp: sinking_def)
  have ready: "wpx (drop_in_place p code k) (\<lambda>_. lighter weigh cap (Suc (weigh f)) k X g (Ready ())) (\<lambda>_ _. True)
      (st_set k (\<lambda>t. t\<lparr>sf_init_flag := FLAG_DROPPED\<rparr>) s')" if "stage k (?x\<lparr>sl_memory := Some f'\<rparr>) X g s'" for f' s'
    by (rule wpx_mono [OF drop_in_place_ok [OF stage_flag [OF that], where f = f' and p = p and code = code, OF _ refl]])
       (auto simp: lighter_def)
  have memory: "wpx (poll_memory p code k)
      (\<lambda>ready s'. \<exists>f'. stage k (?x\<lparr>sl_memory := Some f'\<rparr>) X g s' \<and> (\<not> ready \<longrightarrow> weigh f' < weigh f)) (\<lambda>_ _. True) s"
    using f stage_at [OF st] unfolding poll_memory_def
    by (simp, intro wpx_mono [OF wpx_conj [OF run_sprog_stage [OF stage_polled [OF st]] run_sprog_all [OF sink]]])
       (auto dest: stage_memory split: prod.split)
  have pending: "lighter weigh cap (Suc (weigh f)) k X g Pending s'" if "stage k (?x\<lparr>sl_memory := Some f'\<rparr>) X g s'" "weigh f' < weigh f" for f' s'
    unfolding lighter_def using that by (intro exI [of _ "?x\<lparr>sl_memory := Some f'\<rparr>"]) (simp add: slot_weight_def)
  show ?thesis
    unfolding poll_created_def
    by (simp, intro impI conjI wpx_mono [OF memory]) (use ready pending in auto)
qed

lemma handle_task_weight:
  assumes st: "stage k x X g s" and ok: "slot_ok x" and code: "sinking weigh cap code"
  shows "wpx (handle_task p code k gen 0) (lighter weigh cap (slot_weight weigh cap x) k X g) (\<lambda>_ _. True) s"
proof -
  have fresh: "wpx (create_task p code k gen) (\<lambda>_. wpx (poll_created p code k) (lighter weigh cap (Suc (Suc cap)) k X g) (\<lambda>_ _. True)) (\<lambda>_ _. True) s"
  proof -
    have "wpx (poll_created p code k) (lighter weigh cap (Suc (Suc cap)) k X g) (\<lambda>_ _. True) s'"
      if f: "weigh f \<le> cap" "stage k (x\<lparr>sl_memory := Some f, sl_life := sl_life x @ [Created], sl_flag := FLAG_CREATED\<rparr>) X g s'" for f s'
      by (rule wpx_mono [OF poll_created_weight [OF f(2) _ code, of f]]) (use f(1) in \<open>auto simp: lighter_def\<close>)
    then show ?thesis by (intro wpx_mono [OF create_task_weight [OF st code]]) auto
  qed
  consider "sl_flag x = FLAG_UNINIT" "sl_memory x = None" | "sl_flag x = FLAG_DROPPED" | f where "sl_flag x = FLAG_CREATED" "sl_memory x = Some f"
    using ok by (auto simp: slot_ok_def flag_defs)
  then show ?thesis
  proof cases
    case 1
    then show ?thesis using fresh stage_at [OF st] by (simp add: handle_task_def slot_weight_def)
  next
    case 2
    then show ?thesis using st stage_at [OF st] by (auto simp: handle_task_def flag_defs lighter_def)
  next
    case (3 f)
    then show ?thesis
      using poll_created_weight [OF st 3(2) code] stage_at [OF st] by (simp add: handle_task_def flag_defs slot_weight_def)
  qed
qed


subsection \<open>The potential of the scheduler\<close>

definition potential :: "('f \<Rightarrow> nat) \<Rightarrow> nat \<Rightarrow> bool list \<Rightarrow> 'f slot list \<Rightarrow> nat" where
  "potential weigh cap F X = (\<Sum>k < length X. if F ! k then 0 else slot_weight weigh cap (X ! k))"

definition st_weight :: "('f \<Rightarrow> nat) \<Rightarrow> nat \<Rightarrow> ('f, 'u) static_alg \<Rightarrow> nat" where
  "st_weight weigh cap s = potential weigh cap (finished_at s) (map slot_of (st_registry s))"

lemma potential_less:
  assumes "k < length X" and "length F = length X" and "\<not> F ! k" and "v \<or> slot_weight weigh cap x < slot_weight weigh cap (X ! k)"
  shows "potential weigh cap (F[k := v]) (X[k := x]) < potential weigh cap F X"
proof -
  have rest: "(\<Sum>j \<in> {..<length X} - {k}. if F[k := v] ! j then 0 else slot_weight weigh cap (X[k := x] ! j))
      = (\<Sum>j \<in> {..<length X} - {k}. if F ! j then 0 else slot_weight weigh cap (X ! j))"
    by (rule sum.cong) auto
  show ?thesis
    unfolding potential_def using assms rest
    by (simp add: sum.remove [of "{..<length X}" k]) auto
qed

lemma finished_fields [simp]:
  "finished_at (s\<lparr>st_user := u\<rparr>) = finished_at s" "finished_at (s\<lparr>st_current := c\<rparr>) = finished_at s"
  "finished_at (s\<lparr>st_polled := ks\<rparr>) = finished_at s" "finished_at (s\<lparr>st_last_waker := w\<rparr>) = finished_at s"
  "finished_at (s\<lparr>st_unfinished_count := m\<rparr>) = finished_at s" "finished_at (st_deliver s) = finished_at s"
  by (simp_all add: finished_at_def)

definition at_work :: "nat \<Rightarrow> nat \<Rightarrow> bool list \<Rightarrow> ('f, 'u) static_alg \<Rightarrow> bool" where
  "at_work n k F s \<longleftrightarrow> running True n k s \<and> finished_at s = F"

lemma finished_set_same: "(\<And>t. sf_stop_reason (f t) = sf_stop_reason t) \<Longrightarrow> finished_at (st_set k f s) = finished_at s"
  by (simp add: finished_at_def reasons_set_same)

lemma exec_scall_at_work: "tame_call True k c \<Longrightarrow> keeps (at_work n k F) tame_panic (exec_scall p c)"
  by (rule keepsI, rule wpx_mono [OF exec_scall_exact]) (auto simp: at_work_def running_def)

interpretation works: task_invariant "tame_call True k" "at_work n k F" tame_panic
  by unfold_locales (auto simp: at_work_def finished_set_same intro: exec_scall_at_work running_set)


lemma at_work_length: "at_work n k F s \<Longrightarrow> length F = n \<and> k < n \<and> \<not> F ! k"
  by (auto simp: at_work_def running_def finished_at_def exact_def)

lemma weight_held: "held X g s \<Longrightarrow> st_weight weigh cap s = potential weigh cap (finished_at s) X"
  by (simp add: st_weight_def held_def)

lemma poll_protected_weight:
  assumes X: "held X g s" "k < length X" "slot_ok (X ! k)" "\<not> sl_polling (X ! k)" and code: "sinking weigh cap code"
  shows "wpx (poll_protected p code k gen 0) (lighter weigh cap (slot_weight weigh cap (X ! k)) k X g) (\<lambda>_ _. True) s"
proof -
  let ?x = "(X ! k)\<lparr>sl_polling := True\<rparr>"
  have st: "stage k ?x X g (st_set k (\<lambda>t. t\<lparr>sf_polling := True\<rparr>) s)" by (rule stage_polling [OF stage_held [OF X(1,2)]])
  have same: "slot_weight weigh cap (x\<lparr>sl_polling := v\<rparr>) = slot_weight weigh cap x" for x v by (simp add: slot_weight_def)
  have "lighter weigh cap (slot_weight weigh cap (X ! k)) k X g r (st_set k (\<lambda>t. t\<lparr>sf_polling := False\<rparr>) s')"
    if l: "lighter weigh cap (slot_weight weigh cap ?x) k X g r s'" for r and s' :: "('a, 'c) static_alg"
  proof -
    from l obtain x where "stage k x X g s'" "r = Pending \<longrightarrow> slot_weight weigh cap x < slot_weight weigh cap (X ! k)"
      by (auto simp: lighter_def same)
    then show ?thesis
      unfolding lighter_def by (intro exI [of _ "x\<lparr>sl_polling := False\<rparr>"]) (simp add: same stage_polling)
  qed
  then have "wpx (handle_task p code k gen 0)
      (\<lambda>r s'. lighter weigh cap (slot_weight weigh cap (X ! k)) k X g r (st_set k (\<lambda>t. t\<lparr>sf_polling := False\<rparr>) s')) (\<lambda>_ _. True)
      (st_set k (\<lambda>t. t\<lparr>sf_polling := True\<rparr>) s)"
    using X(3) by (intro wpx_mono [OF handle_task_weight [OF st _ code]]) auto
  then show ?thesis
    using X(4) stage_at(4) [OF stage_held [OF X(1,2)]] by (simp add: poll_protected_def)
qed

text \<open>The poll of a task: the state it starts from, and what is left when it is finished; the count does not matter here.\<close>

definition st_started :: "nat \<Rightarrow> ('f, 'u) static_alg \<Rightarrow> ('f, 'u) static_alg" where
  "st_started k s = st_set k (\<lambda>t. t\<lparr>sf_flags := Some False\<rparr>) (s\<lparr>st_current := Some k, st_polled := st_polled s @ [k]\<rparr>)"

definition st_completed :: "nat \<Rightarrow> nat \<Rightarrow> ('f, 'u) static_alg \<Rightarrow> ('f, 'u) static_alg" where
  "st_completed k m s = (st_set k (\<lambda>t. t\<lparr>sf_stop_reason := StFinished\<rparr>) (s\<lparr>st_current := None\<rparr>))\<lparr>st_unfinished_count := m\<rparr>"

lemma st_started_work: "running True n k s \<Longrightarrow> at_work n k (finished_at s) (st_started k s)"
  unfolding at_work_def st_started_def by (simp add: finished_set_same) (rule running_set [OF _ _ running_current], simp_all)

lemma st_completed_finished: "at_work n k F s \<Longrightarrow> finished_at (st_completed k m s) = F[k := True]"
  by (auto simp: st_completed_def finished_at_def reasons_set map_update at_work_def)

lemma st_poll_task_rule:
  assumes s: "running b n k s" and poll: "wpx (poll_protected p code k gen 0) R (\<lambda>_ _. True) (st_started k s)"
    and pending: "\<And>s'. R Pending s' \<Longrightarrow> Q (s'\<lparr>st_current := None\<rparr>)" and ready: "\<And>s' m. R (Ready ()) s' \<Longrightarrow> Q (st_completed k m s')"
  shows "wpx (st_poll_task p code gen k False) (\<lambda>_. Q) (\<lambda>_ _. True) s"
proof -
  have "exact b n (s\<lparr>st_current := Some k, st_polled := st_polled s @ [k]\<rparr>)" "k < n"
    using running_current [OF s] by (auto simp: running_def)
  note runnable = wpx_set_runnable [OF this]
  have dec: "wpx (dec_unfinished p) (\<lambda>_. Q) (\<lambda>_ _. True) s'" if "\<And>m. Q (s'\<lparr>st_unfinished_count := m\<rparr>)" for s'
    using that by (simp add: dec_unfinished_def split: sum.split)
  have "wpx (poll_protected p code k gen 0)
      (\<lambda>r s'. wpx (if r = Ready () then bind_exec (set_reason k StFinished) (\<lambda>_. bind_exec (dec_unfinished p) (\<lambda>_. return_exec True)) else return_exec True)
        (\<lambda>_. Q) (\<lambda>_ _. True) (s'\<lparr>st_current := None\<rparr>)) (\<lambda>_ _. True) (st_started k s)"
  proof (rule wpx_mono [OF poll])
    fix r s'
    assume "R r s'"
    then show "wpx (if r = Ready () then bind_exec (set_reason k StFinished) (\<lambda>_. bind_exec (dec_unfinished p) (\<lambda>_. return_exec True)) else return_exec True)
        (\<lambda>_. Q) (\<lambda>_ _. True) (s'\<lparr>st_current := None\<rparr>)"
      using pending ready by (cases r) (auto simp: st_completed_def intro!: dec)
  qed simp
  then show ?thesis by (simp add: st_poll_task_def sf_poll_local_def runnable st_started_def)
qed

text \<open>Polling a task lowers the potential: the poll is pending, and its future is lighter, or the task is finished.\<close>

lemma lighter_less:
  assumes "lighter weigh cap (slot_weight weigh cap (X ! k)) k X g r s'" and "at_work n k F s'" and "length X = n"
    and "map slot_of (st_registry s'') = map slot_of (st_registry s')" and "finished_at s'' = F[k := (r = Ready ())]"
  shows "st_weight weigh cap s'' < potential weigh cap F X"
proof -
  from assms(1) obtain x where x: "held (X[k := x]) g s'" "r = Pending \<longrightarrow> slot_weight weigh cap x < slot_weight weigh cap (X ! k)"
    by (auto simp: lighter_def stage_def)
  then have "st_weight weigh cap s'' = potential weigh cap (F[k := (r = Ready ())]) (X[k := x])"
    using assms(4,5) by (simp add: st_weight_def held_def)
  then show ?thesis
    using potential_less [of k X F "r = Ready ()" weigh cap x] at_work_length [OF assms(2)] assms(3) x(2) by (cases r) auto
qed

lemma st_poll_task_weight:
  assumes inv: "running True n k s" "good n g s" and code: "tame_code True code" "sinking weigh cap code"
  shows "wpx (st_poll_task p code gen k False) (\<lambda>_ s'. st_weight weigh cap s' < st_weight weigh cap s) (\<lambda>_ _. True) s"
proof -
  obtain X where X: "length X = n" "\<forall>x \<in> set X. slot_ok x \<and> \<not> sl_polling x" "held X g s" using inv(2) by (auto simp: good_def)
  let ?F = "finished_at s"
  have w1: "at_work n k ?F (st_started k s)" by (rule st_started_work [OF inv(1)])
  have h1: "held X g (st_started k s)" using X(3) by (simp add: st_started_def held_set_same slot_of_def)
  have k: "k < length X" "slot_ok (X ! k)" "\<not> sl_polling (X ! k)" using X at_work_length [OF w1] by auto
  have "wpx (poll_protected p code k gen 0) (\<lambda>_. at_work n k ?F) (\<lambda>e s'. tame_panic e \<and> at_work n k ?F s') (st_started k s)"
    using keepsD [OF works.protected_kept w1] code(1) by (simp add: tame_code_def)
  note both = wpx_conj [OF poll_protected_weight [OF h1 k code(2), of p gen] this]
  show ?thesis
    unfolding weight_held [OF X(3)]
  proof (rule st_poll_task_rule [OF inv(1) wpx_mono [OF both]])
    fix s'
    assume l: "lighter weigh cap (slot_weight weigh cap (X ! k)) k X g Pending s' \<and> at_work n k ?F s'"
    then have "?F[k := False] = ?F" using at_work_length by (fastforce simp: list_update_same_conv)
    then show "st_weight weigh cap (s'\<lparr>st_current := None\<rparr>) < potential weigh cap ?F X"
      using l X(1) by (intro lighter_less [of _ _ _ _ g Pending s']) (auto simp: at_work_def)
  next
    fix s' m
    assume l: "lighter weigh cap (slot_weight weigh cap (X ! k)) k X g (Ready ()) s' \<and> at_work n k ?F s'"
    have "map slot_of (st_registry (st_completed k m s')) = map slot_of (st_registry s')"
      using slots_set [of "\<lambda>t. t\<lparr>sf_stop_reason := StFinished\<rparr>" "\<lambda>x. x" k "s'\<lparr>st_current := None\<rparr>"]
      by (simp add: st_completed_def slot_of_def)
    then show "st_weight weigh cap (st_completed k m s') < potential weigh cap ?F X"
      using l X(1) st_completed_finished by (intro lighter_less [of _ _ _ _ g "Ready ()" s']) auto
  qed simp_all
qed

subsection \<open>Rounds and polls\<close>

lemma weight_fields [simp]:
  "st_weight weigh cap (s\<lparr>st_last_waker := w\<rparr>) = st_weight weigh cap s" "st_weight weigh cap (st_deliver s) = st_weight weigh cap s"
proof -
  show "st_weight weigh cap (s\<lparr>st_last_waker := w\<rparr>) = st_weight weigh cap s" by (simp add: st_weight_def)
  have "map slot_of (st_registry (st_deliver s)) = map slot_of (st_registry s)"
    using held_deliver [of "map slot_of (st_registry s)" "(st_generation s, st_lock s)" s] by (simp add: held_def)
  then show "st_weight weigh cap (st_deliver s) = st_weight weigh cap s" by (simp add: st_weight_def)
qed

text \<open>A step that polls lowers the potential by one at least, and no step raises it.\<close>

definition sunk :: "('f \<Rightarrow> nat) \<Rightarrow> nat \<Rightarrow> bool \<Rightarrow> ('f, 'u) static_alg \<Rightarrow> bool \<Rightarrow> ('f, 'u) static_alg \<Rightarrow> bool" where
  "sunk weigh cap any s r s' \<longleftrightarrow> st_weight weigh cap s' + (if r \<and> \<not> any then 1 else 0) \<le> st_weight weigh cap s"

lemma st_beat_slot_weight:
  assumes inv: "exact True n s" "good n g s" and k: "k < n" and code: "tame_code True code" "sinking weigh cap code"
  shows "wpx (st_beat_slot p code gen k any) (sunk weigh cap any s) (\<lambda>_ _. True) s"
proof -
  let ?s = "st_deliver s"
  have d: "exact True n ?s" "good n g ?s" using inv by simp_all
  have at: "reasons ?s ! k = sf_stop_reason (st_registry ?s ! k)" using exact_at(2) [OF d(1) k] by simp
  have quiet: "sunk weigh cap any s any ?s" by (simp add: sunk_def)
  obtain v where v: "sf_flags (st_registry ?s ! k) = Some v" using exact_flags [OF d(1) k] by blast
  consider "reasons ?s ! k = StNone" | "reasons ?s ! k = StSuspended \<or> reasons ?s ! k = StFinished"
    using exact_at(3) [OF d(1) k] by (auto simp: tame_reasons_def)
  then show ?thesis
  proof cases
    case 1
    then have "running True n k ?s" using d k by (simp add: running_def)
    then have "wpx (st_poll_task p code gen k False) (sunk weigh cap any s) (\<lambda>_ _. True) ?s"
      by (intro wpx_mono [OF st_poll_task_weight [OF _ d(2) code]]) (auto simp: sunk_def)
    then show ?thesis using 1 at quiet v by (cases v) (simp_all add: st_beat_slot_def get_flags_def Let_def)
  next
    case 2
    then show ?thesis using at quiet by (auto simp: st_beat_slot_def Let_def)
  qed
qed

lemma st_beat_loop_weight:
  assumes "exact True n s" and "good n g s" and "\<forall>k \<in> set ks. k < n" and code: "tame_code True code" "sinking weigh cap code"
  shows "wpx (st_beat_loop p code gen ks any) (sunk weigh cap any s) (\<lambda>_ _. True) s"
  using assms(1-3)
proof (induction ks arbitrary: s any)
  case (Cons k ks)
  have k: "k < n" using Cons.prems by simp
  have go: "wpx (st_beat_loop p code gen ks r) (sunk weigh cap any s) (\<lambda>_ _. True) s1"
    if "exact True n s1" "good n g s1" "sunk weigh cap any s r s1" for r s1
    by (rule wpx_mono [OF Cons.IH [OF that(1,2)]]) (use Cons.prems that(3) in \<open>auto simp: sunk_def split: if_splits\<close>)
  show ?case
    unfolding st_beat_loop.simps wpx_bind
    by (rule wpx_mono [OF wpx_conj [OF wpx_conj [OF st_beat_slot_exact [OF Cons.prems(1) k code(1)] st_beat_slot_weight [OF Cons.prems(1,2) k code]]
            keepsD [OF st_beat_slot_good [OF k] Cons.prems(2)]]])
       (auto intro: go simp: visited_def)
qed (simp add: sunk_def)

lemma st_beat_once_weight:
  assumes "exact True n s" and "good n g s" and code: "tame_code True code" "sinking weigh cap code"
  shows "wpx (st_beat_once p code) (sunk weigh cap False s) (\<lambda>_ _. True) s"
  using st_beat_loop_weight [OF assms(1,2) _ code, of "[0..<n]"] good_length [OF assms(2)] by (simp add: st_beat_once_def)

lemma st_poll_iter_weight:
  assumes inv: "exact True n s" "good n g s" and code: "tame_code True code" "sinking weigh cap code"
  shows "wpx (st_poll_iter p code w) (\<lambda>x s'. x = None \<longrightarrow> st_weight weigh cap s' < st_weight weigh cap s) (\<lambda>_ _. True) s"
proof -
  have second: "wpx (st_beat_once p code) (\<lambda>any' s2. any' \<longrightarrow> st_weight weigh cap (st_clear_waker (st_deliver s2)) < st_weight weigh cap s)
      (\<lambda>_ _. True) (st_register_waker w (st_deliver s1))" if "exact True n s1" "good n g s1" "sunk weigh cap False s False s1" for s1
    by (rule wpx_mono [OF st_beat_once_weight [where n = n and g = g, OF _ _ code]])
       (use that in \<open>auto simp: st_register_waker_def st_clear_waker_def sunk_def\<close>)
  show ?thesis
    unfolding wpx_iter
    by (rule wpx_mono [OF wpx_conj [OF wpx_conj [OF st_beat_once_exact [OF inv(1) code(1)] st_beat_once_weight [OF inv code]]
            keepsD [OF st_beat_once_good inv(2)]]])
       (use second in \<open>auto simp: sunk_def\<close>)
qed

lemma st_poll_loop_terminates:
  assumes "exact True n s" and "good n g s" and code: "tame_code True code" "sinking weigh cap code" and "st_weight weigh cap s < m"
  shows "\<exists>res. st_poll_loop p code w m s = Some res"
  using assms(1,2,5)
proof (induction m arbitrary: s)
  case (Suc m)
  have "grown 0 s" by (simp add: grown_def)
  from wpx_conj [OF wpx_conj [OF st_poll_iter_exact [OF Suc.prems(1) this code(1)] st_poll_iter_weight [OF Suc.prems(1,2) code]]
      keepsD [OF st_poll_iter_good Suc.prems(2)], of p w]
  show ?case
    using Suc by (auto simp: wpx_def split: prod.splits sum.splits option.splits)
qed simp

end
