(* ===== verification/Static_Yield.thy ===== *)
theory Static_Yield
  imports Static_Weight
begin

text \<open>
  Static tasks that wake themselves whenever they are pending: every task that is not finished stays runnable, so that a
  round that polls nothing finds only finished and suspended ones.
\<close>

subsection \<open>Flags that stay set\<close>

text \<open>The tasks of \<open>B\<close> have their runnable flag set. No call unsets it; only the poll of the task itself does.\<close>

definition lit :: "nat set \<Rightarrow> ('f, 'u) static_alg \<Rightarrow> bool" where
  "lit B s \<longleftrightarrow> (\<forall>k \<in> B. k < length (st_registry s) \<longrightarrow> sf_flags (st_registry s ! k) = Some True)"

lemma lit_fields [simp]:
  "lit B (s\<lparr>st_suspended_count := c\<rparr>) = lit B s" "lit B (s\<lparr>st_unfinished_count := c\<rparr>) = lit B s"
  "lit B (s\<lparr>st_user := u\<rparr>) = lit B s" "lit B (s\<lparr>st_current := k\<rparr>) = lit B s" "lit B (s\<lparr>st_polled := ks\<rparr>) = lit B s"
  "lit B (s\<lparr>st_last_waker := w\<rparr>) = lit B s" "lit B (s\<lparr>st_external := ws\<rparr>) = lit B s" "lit B (s\<lparr>st_woken := vs\<rparr>) = lit B s"
  by (simp_all add: lit_def)

lemma lit_set:
  assumes "\<And>t. sf_flags t = Some True \<Longrightarrow> sf_flags (f t) = Some True" and "lit B s"
  shows "lit B (st_set k f s)"
  using assms by (cases "k < length (st_registry s)") (auto simp: lit_def st_set_def nth_list_update list_update_beyond)

lemma lit_wake [simp]: "lit B s \<Longrightarrow> lit B (st_wake k s)"
  unfolding st_wake_def st_notify_wake_def by (rule lit_set) simp_all

lemma lit_wakes: "lit B s \<Longrightarrow> lit B (fold st_wake ks s)"
  by (induction ks arbitrary: s) simp_all

lemma lit_deliver [simp]: "lit B s \<Longrightarrow> lit B (st_deliver s)"
  by (simp add: st_deliver_def lit_wakes split: list.split)

abbreviation lights :: "nat set \<Rightarrow> (('f, 'u) static_alg, 'a) exec \<Rightarrow> bool" where
  "lights B \<equiv> keeps (lit B) (\<lambda>_. True)"

lemma lights_modify [keeps]: "(\<And>s. lit B s \<Longrightarrow> lit B (f s)) \<Longrightarrow> lights B (modify_exec f)"
  by (rule keeps_modify)

lemma lights_counts [keeps]:
  "lights B (st_add_suspended p)" "lights B (st_sub_suspended p)" "lights B (inc_unfinished p)" "lights B (dec_unfinished p)"
  "lights B (set_reason k r)" "lights B (st_to_id p i)"
  unfolding st_add_suspended_def st_sub_suspended_def inc_unfinished_def dec_unfinished_def set_reason_def st_to_id_def
  by (intro keeps lit_set; simp)+

lemma lights_scall [keeps]: "lights B (exec_scall p c)"
  by (cases c; simp only: exec_scall.simps handle_ops; intro keeps; simp)

interpretation light: task_invariant "\<lambda>_. True" "lit B" "\<lambda>_. True"
  by unfold_locales (auto intro: lights_scall lit_set)

subsection \<open>Tasks that wake themselves\<close>

text \<open>On every path of the code on which the future is pending, the waker of task \<open>k\<close> was woken.\<close>

primrec wakes_self :: "nat \<Rightarrow> bool \<Rightarrow> (bool \<times> 'f, 'u) sprog \<Rightarrow> bool" where
  "wakes_self k v (SReturn x u) = (fst x \<or> v)"
| "wakes_self k v (SPanic u) = True"
| "wakes_self k v (SCall c f) = (\<forall>r. wakes_self k (v \<or> c = SWake k) (f r))"

definition self_waking_code :: "('f, 'u) static_code \<Rightarrow> bool" where
  "self_waking_code code \<longleftrightarrow> (\<forall>k f u. wakes_self k False (sc_poll code k f u))"

text \<open>The poll of task \<open>k\<close> is pending only with its flag set.\<close>

definition relit :: "nat \<Rightarrow> unit poll \<Rightarrow> ('f, 'u) static_alg \<Rightarrow> bool" where
  "relit k r s \<longleftrightarrow> (r = Pending \<longrightarrow> lit {k} s)"

lemma wake_lit: "exact b n s \<Longrightarrow> k < n \<Longrightarrow> lit {k} (st_wake k s)"
  using exact_flags [of b n s k] by (auto simp: lit_def st_wake_def st_notify_wake_def st_set_def exact_def)

lemma run_wakes_self:
  fixes s :: "('f, 'u) static_alg"
  assumes "prog_ok (tame_call b k) pr" and "wakes_self k v pr" and "running b n k s" and "v \<longrightarrow> lit {k} s"
  shows "wpx (run_sprog p pr) (\<lambda>x s'. \<not> fst x \<longrightarrow> lit {k} s') (\<lambda>_ _. True) s"
  using assms
proof (induction pr arbitrary: s v)
  case (SCall c f)
  have step: "running b n k s1" "v \<or> c = SWake k \<longrightarrow> lit {k} s1" if "exec_scall p c s = (Inr r, s1)" for r s1
  proof -
    show run: "running b n k s1"
      using keepsD [OF exec_scall_running SCall.prems(3), of c p] SCall.prems(1) that by (simp add: wpx_def)
    have "lit {k} s1" if "v" using keepsD [OF lights_scall, of "{k}" s p c] SCall.prems(4) that \<open>exec_scall p c s = (Inr r, s1)\<close> by (simp add: wpx_def)
    moreover have "lit {k} s1" if "c = SWake k"
      using wake_lit [of b n s k] SCall.prems(3) that \<open>exec_scall p c s = (Inr r, s1)\<close> by (auto simp: running_def exec_defs)
    ultimately show "v \<or> c = SWake k \<longrightarrow> lit {k} s1" by blast
  qed
  have "wpx (run_sprog p (f r)) (\<lambda>x s'. \<not> fst x \<longrightarrow> lit {k} s') (\<lambda>_ _. True) s1" if "exec_scall p c s = (Inr r, s1)" for r s1
    using SCall.IH [of "f r" "v \<or> c = SWake k" s1] SCall.prems(1,2) step [OF that] by auto
  then show ?case by (simp add: wpx_def [of "exec_scall p c"] split: prod.split sum.split)
qed auto

lemma poll_created_relit:
  assumes s: "running b n k s" and code: "tame_code b code" "self_waking_code code"
  shows "wpx (poll_created p code k) (relit k) (\<lambda>_ _. True) s"
proof -
  have ok: "prog_ok (tame_call b k) (sc_poll code k f u)" "wakes_self k False (sc_poll code k f u)" for f u
    using code by (auto simp: tame_code_def task_ok_def self_waking_code_def)
  have r: "running b n k (st_set k (\<lambda>t. t\<lparr>sf_life := sf_life t @ [Polled]\<rparr>) s)" by (rule running_set [OF _ _ s]) simp_all
  have "wpx (poll_memory p code k) (\<lambda>ready s'. \<not> ready \<longrightarrow> lit {k} s') (\<lambda>_ _. True) s"
    unfolding poll_memory_def
    by (auto split: option.split intro!: wpx_mono [OF run_wakes_self [OF ok r]] lit_set)
  then have "wpx (poll_memory p code k)
      (\<lambda>ready. wpx (if ready then bind_exec (set_flag k FLAG_DROPPED) (\<lambda>_. bind_exec (drop_in_place p code k) (\<lambda>_. return_exec (Ready ())))
        else return_exec Pending) (relit k) (\<lambda>_ _. True)) (\<lambda>_ _. True) s"
    by (rule wpx_mono) (auto simp: relit_def)
  then show ?thesis by (simp add: poll_created_def)
qed

lemma poll_protected_relit:
  assumes s: "running b n k s" and code: "tame_code b code" "self_waking_code code"
  shows "wpx (poll_protected p code k gen 0) (relit k) (\<lambda>_ _. True) s"
proof -
  have h: "wpx (handle_task p code k gen 0) (relit k) (\<lambda>_ _. True) s1" if "running b n k s1" for s1
  proof -
    have "keeps (running b n k) tame_panic (create_task p code k gen)"
      using code(1) by (intro runs.memory_kept) (simp add: tame_code_def)
    from keepsD [OF this that] have "wpx (create_task p code k gen) (\<lambda>_. wpx (poll_created p code k) (relit k) (\<lambda>_ _. True)) (\<lambda>_ _. True) s1"
      by (rule wpx_mono) (auto intro: poll_created_relit [OF _ code])
    then show ?thesis using poll_created_relit [OF that code] by (simp add: handle_task_def relit_def [of k "Ready ()"])
  qed
  have r: "running b n k (st_set k (\<lambda>t. t\<lparr>sf_polling := True\<rparr>) s)" by (rule running_set [OF _ _ s]) simp_all
  have "relit k x (st_set k (\<lambda>t. t\<lparr>sf_polling := False\<rparr>) s1)" if "relit k x s1" for x and s1 :: "('a, 'b) static_alg"
    using that by (auto simp: relit_def intro: lit_set)
  then show ?thesis by (auto simp: poll_protected_def intro: wpx_mono [OF h [OF r]])
qed


subsection \<open>Polls of a wheel of such tasks\<close>

text \<open>Every task that is not finished is runnable or suspended.\<close>

definition unfinished_lit :: "nat \<Rightarrow> ('f, 'u) static_alg \<Rightarrow> bool" where
  "unfinished_lit n s \<longleftrightarrow> lit {k. k < n \<and> \<not> finished_at s ! k} s"

lemma lit_Un: "lit A s \<Longrightarrow> lit B s \<Longrightarrow> lit (A \<union> B) s"
  by (auto simp: lit_def)

lemma lit_mono: "lit A s \<Longrightarrow> B \<subseteq> A \<Longrightarrow> lit B s"
  by (auto simp: lit_def)

lemma st_poll_task_lit:
  assumes inv: "running True n k s" "unfinished_lit n s" and code: "tame_code True code" "self_waking_code code"
  shows "wpx (st_poll_task p code gen k False) (\<lambda>_. unfinished_lit n) (\<lambda>_ _. True) s"
proof -
  let ?F = "finished_at s" and ?B = "{j. j < n \<and> \<not> finished_at s ! j} - {k}"
  have w1: "at_work n k ?F (st_started k s)" by (rule st_started_work [OF inv(1)])
  then have r1: "running True n k (st_started k s)" by (simp add: at_work_def)
  have l1: "lit ?B (st_started k s)" using inv(2) by (auto simp: st_started_def unfinished_lit_def lit_def st_set_def)
  have "wpx (poll_protected p code k gen 0) (\<lambda>_. at_work n k ?F) (\<lambda>e s'. tame_panic e \<and> at_work n k ?F s') (st_started k s)"
    using keepsD [OF works.protected_kept w1] code(1) by (simp add: tame_code_def)
  note all = wpx_conj [OF wpx_conj [OF poll_protected_relit [OF r1 code] this] keepsD [OF light.protected_kept [OF prog_ok_all(2)] l1]]
  show ?thesis
  proof (rule st_poll_task_rule [OF inv(1) wpx_mono [OF all]])
    fix s'
    assume l: "(relit k Pending s' \<and> at_work n k ?F s') \<and> lit ?B s'"
    then have "lit ({k} \<union> ?B) s'" by (intro lit_Un) (simp_all add: relit_def)
    then show "unfinished_lit n (s'\<lparr>st_current := None\<rparr>)" using l by (auto simp: unfinished_lit_def at_work_def elim: lit_mono)
  next
    fix s' m
    assume l: "(relit k (Ready ()) s' \<and> at_work n k ?F s') \<and> lit ?B s'"
    then have "lit ?B (st_completed k m s')" by (auto simp: st_completed_def intro: lit_set)
    then show "unfinished_lit n (st_completed k m s')"
      using l at_work_length [of n k ?F s'] st_completed_finished [of n k ?F s' m]
      by (auto simp: unfinished_lit_def nth_list_update elim!: lit_mono)
  qed simp_all
qed


lemma unfinished_lit_fields [simp]:
  "unfinished_lit n (s\<lparr>st_last_waker := w\<rparr>) = unfinished_lit n s" "unfinished_lit n s \<Longrightarrow> unfinished_lit n (st_deliver s)"
  by (simp_all add: unfinished_lit_def)

lemma st_beat_slot_lit:
  assumes inv: "exact True n s" "unfinished_lit n s" and k: "k < n" and code: "tame_code True code" "self_waking_code code"
  shows "wpx (st_beat_slot p code gen k any) (\<lambda>r s'. unfinished_lit n s' \<and> (\<not> r \<longrightarrow> reasons s ! k \<noteq> StNone)) (\<lambda>_ _. True) s"
proof -
  let ?s = "st_deliver s"
  have d: "exact True n ?s" "unfinished_lit n ?s" using inv by simp_all
  have at: "reasons ?s ! k = sf_stop_reason (st_registry ?s ! k)" using exact_at(2) [OF d(1) k] by simp
  consider "reasons ?s ! k = StNone" | "reasons ?s ! k = StSuspended \<or> reasons ?s ! k = StFinished"
    using exact_at(3) [OF d(1) k] by (auto simp: tame_reasons_def)
  then show ?thesis
  proof cases
    case 1
    then have r: "running True n k ?s" using d k by (simp add: running_def)
    have "sf_flags (st_registry ?s ! k) = Some True"
      using d 1 k finished_nth [of k ?s] by (simp add: unfinished_lit_def lit_def exact_def)
    moreover have "wpx (st_poll_task p code gen k False) (\<lambda>r s'. unfinished_lit n s' \<and> r) (\<lambda>_ _. True) ?s"
      by (rule wpx_mono [OF wpx_conj [OF st_poll_task_lit [OF r d(2) code] st_poll_task_exact [OF r code(1)]]]) auto
    ultimately show ?thesis
      using 1 at by (simp add: st_beat_slot_def get_flags_def Let_def conj_commute)
  next
    case 2
    then show ?thesis using at d by (auto simp: st_beat_slot_def Let_def)
  qed
qed

lemma st_beat_loop_lit:
  assumes "exact True n s" and "unfinished_lit n s" and "\<forall>k \<in> set ks. k < n" and code: "tame_code True code" "self_waking_code code"
  shows "wpx (st_beat_loop p code gen ks any)
    (\<lambda>r s'. unfinished_lit n s' \<and> (\<not> r \<longrightarrow> \<not> any \<and> reasons s' = reasons s \<and> (\<forall>k \<in> set ks. reasons s ! k \<noteq> StNone))) (\<lambda>_ _. True) s"
  using assms(1-3)
proof (induction ks arbitrary: s any)
  case (Cons k ks)
  have k: "k < n" using Cons.prems by simp
  have go: "wpx (st_beat_loop p code gen ks r)
      (\<lambda>r' s'. unfinished_lit n s' \<and> (\<not> r' \<longrightarrow> \<not> any \<and> reasons s' = reasons s \<and> (\<forall>k \<in> set (k # ks). reasons s ! k \<noteq> StNone))) (\<lambda>_ _. True) s1"
    if "visited True n k any s r s1" "unfinished_lit n s1" "\<not> r \<longrightarrow> reasons s ! k \<noteq> StNone" for r s1
    by (rule wpx_mono [OF Cons.IH [of s1 r]]) (use Cons.prems that in \<open>auto simp: visited_def\<close>)
  show ?case
    unfolding st_beat_loop.simps wpx_bind
    by (rule wpx_mono [OF wpx_conj [OF st_beat_slot_exact [OF Cons.prems(1) k code(1)] st_beat_slot_lit [OF Cons.prems(1,2) k code]]])
       (blast intro: go)+
qed simp

lemma st_beat_once_lit:
  assumes "exact True n s" and "unfinished_lit n s" and code: "tame_code True code" "self_waking_code code"
  shows "wpx (st_beat_once p code)
    (\<lambda>r s'. unfinished_lit n s' \<and> (\<not> r \<longrightarrow> reasons s' = reasons s \<and> (\<forall>k < n. reasons s ! k \<noteq> StNone))) (\<lambda>_ _. True) s"
proof -
  have n: "length (st_registry s) = n" using assms(1) by (simp add: exact_def)
  have "wpx (st_beat_loop p code (st_generation s) [0..<n] False)
    (\<lambda>r s'. unfinished_lit n s' \<and> (\<not> r \<longrightarrow> reasons s' = reasons s \<and> (\<forall>k < n. reasons s ! k \<noteq> StNone))) (\<lambda>_ _. True) s"
    by (rule wpx_mono [OF st_beat_loop_lit [OF assms(1,2) _ code]]) auto
  then show ?thesis by (simp add: st_beat_once_def n)
qed

lemma verdict_ready:
  assumes "exact True n s" and "\<forall>k < n. reasons s ! k \<noteq> StNone"
  shows "fst (st_verdict s) \<noteq> Pending"
proof -
  have "set (reasons s) \<subseteq> {StFinished, StSuspended}"
  proof
    fix r
    assume "r \<in> set (reasons s)"
    then obtain k where "k < length (reasons s)" "r = reasons s ! k" by (auto simp: in_set_conv_nth)
    moreover have "length (reasons s) = n" using assms(1) by (simp add: exact_def)
    ultimately show "r \<in> {StFinished, StSuspended}" using exact_at(3) [OF assms(1), of k] assms(2) by (auto simp: tame_reasons_def)
  qed
  then show ?thesis using exact_counts(2) [OF assms(1)] by (simp add: st_verdict_def)
qed

lemma st_poll_iter_lit:
  assumes inv: "exact True n s" "unfinished_lit n s" and code: "tame_code True code" "self_waking_code code"
  shows "wpx (st_poll_iter p code w) (\<lambda>x s'. (x = None \<longrightarrow> unfinished_lit n s') \<and> x \<noteq> Some Pending) (\<lambda>_ _. True) s"
proof -
  have second: "wpx (st_beat_once p code) (\<lambda>any' s2. (any' \<longrightarrow> unfinished_lit n (st_clear_waker (st_deliver s2))) \<and> (\<not> any' \<longrightarrow> fst (st_verdict (st_deliver s2)) \<noteq> Pending))
      (\<lambda>_ _. True) (st_register_waker w (st_deliver s1))" if s1: "exact True n s1" "unfinished_lit n s1" for s1
  proof -
    let ?s = "st_register_waker w (st_deliver s1)"
    have s: "exact True n ?s" "unfinished_lit n ?s" using s1 by (simp_all add: st_register_waker_def)
    have v: "fst (st_verdict (st_deliver s2)) \<noteq> Pending" if "exact True n s2" "\<forall>k < n. reasons s2 ! k \<noteq> StNone" for s2 :: "('a, 'b) static_alg"
      by (rule verdict_ready [of n]) (use that in simp_all)
    show ?thesis
      by (rule wpx_mono [OF wpx_conj [OF st_beat_once_exact [OF s(1) code(1)] st_beat_once_lit [OF s code]]])
         (use v in \<open>auto simp: st_clear_waker_def\<close>)
  qed
  show ?thesis
    unfolding wpx_iter
    by (rule wpx_mono [OF wpx_conj [OF st_beat_once_exact [OF inv(1) code(1)] st_beat_once_lit [OF inv code]]])
       (use second in auto)
qed

lemma st_poll_loop_ready:
  assumes "exact True n s" and "unfinished_lit n s" and code: "tame_code True code" "self_waking_code code"
  shows "st_poll_loop p code w m s \<noteq> Some (Inr Pending, s')"
  using assms(1,2)
proof (induction m arbitrary: s)
  case (Suc m)
  have "grown 0 s" by (simp add: grown_def)
  from wpx_conj [OF st_poll_iter_exact [OF Suc.prems(1) this code(1)] st_poll_iter_lit [OF Suc.prems code], of p w]
  show ?case
    using Suc by (auto simp: wpx_def split: prod.splits sum.splits option.splits)
qed simp

end
