(* ===== verification/Static_Invariants.thy ===== *)
theory Static_Invariants
  imports Static_Counts
begin

text \<open>
  Invariants of a static wheel through all of its operations. The locale \<open>wheel_invariant\<close> lists the steps that an
  invariant has to survive; locking, polling, dropping and using a wheel then keep it, and so it holds in every run. It is
  interpreted on two invariants: outside of a poll no task is current, and every number fits its machine type.
\<close>

subsection \<open>The steps of the operations\<close>

locale wheel_invariant = task_invariant "\<lambda>_. True" inv "\<lambda>_. True"
  for inv :: "('f, 'u) static_alg \<Rightarrow> bool" +
  fixes len :: nat
  assumes length_kept: "inv s \<Longrightarrow> length (st_registry s) = len"
    and reason_kept: "inv s \<Longrightarrow> inv (st_set k (\<lambda>t. t\<lparr>sf_stop_reason := r\<rparr>) s)"
    and flags_kept: "inv s \<Longrightarrow> inv (st_set k (\<lambda>t. t\<lparr>sf_flags := Some v\<rparr>) s)"
    and waker_kept: "inv s \<Longrightarrow> inv (s\<lparr>st_last_waker := w\<rparr>)"
    and deliver_kept: "inv s \<Longrightarrow> inv (st_deliver s)"
    and counts_kept: "inv s \<Longrightarrow> a \<le> len \<Longrightarrow> inv (s\<lparr>st_suspended_count := a, st_unfinished_count := len\<rparr>)"
    and finished_kept: "keeps inv (\<lambda>_. True) (dec_unfinished p)"
    and poll_kept: "keeps inv (\<lambda>_. True) (st_poll_task p code gen k restart)"
    and lock_kept: "inv s \<Longrightarrow> inv (s\<lparr>st_lock := l\<rparr>)"
    and generation_kept: "inv s \<Longrightarrow> inv (s\<lparr>st_generation := wrapping_add (st_generation s) 1\<rparr>)"
begin

lemma future_kept:
  "keeps inv (\<lambda>_. True) (set_reason k r)" "keeps inv (\<lambda>_. True) (sf_init k)" "keeps inv (\<lambda>_. True) (sf_reset k d)"
  "keeps inv (\<lambda>_. True) (sf_cancel p code k gen uninit)" "keeps inv (\<lambda>_. True) (get_flags t)"
proof -
  show r: "keeps inv (\<lambda>_. True) (set_reason k r)" for r unfolding set_reason_def by (rule keeps_modify) (rule reason_kept)
  show g: "keeps inv (\<lambda>_. True) (get_flags t)" for t unfolding get_flags_def by (intro keeps) simp
  show "keeps inv (\<lambda>_. True) (sf_init k)" unfolding sf_init_def by (intro keeps keeps_modify flags_kept; simp)
  show "keeps inv (\<lambda>_. True) (sf_reset k d)"
    unfolding sf_reset_def sf_set_runnable_def by (intro keeps keeps_modify flags_kept r g; simp)
  show "keeps inv (\<lambda>_. True) (sf_cancel p code k gen uninit)" by (rule cancel_kept) simp
qed

lemma slot_visit_kept: "keeps inv (\<lambda>_. True) (st_beat_slot p code gen k any)"
  unfolding st_beat_slot_def by (intro keeps keeps_modify deliver_kept future_kept finished_kept poll_kept; simp)

lemma beat_kept: "keeps inv (\<lambda>_. True) (st_beat_once p code)"
proof -
  have "keeps inv (\<lambda>_. True) (st_beat_loop p code gen ks any)" for gen ks any
    by (induction ks arbitrary: any; simp only: st_beat_loop.simps; intro keeps slot_visit_kept; simp)
  then show ?thesis unfolding st_beat_once_def by (intro keeps)
qed

lemma iter_kept: "keeps inv (\<lambda>_. True) (st_poll_iter p code w)"
  unfolding st_poll_iter_def st_register_waker_def st_clear_waker_def
  by (intro keeps keeps_modify beat_kept waker_kept deliver_kept; simp)

lemma poll_loop_kept: "inv s \<Longrightarrow> st_poll_loop p code w m s = Some (r, s') \<Longrightarrow> inv s'"
proof (induction m arbitrary: s)
  case (Suc m)
  then show ?case
    using keepsD [OF iter_kept Suc.prems(1), of p code w] by (auto simp: wpx_def split: prod.splits sum.splits option.splits)
qed simp

lemma init_loop_kept:
  "inv s \<Longrightarrow> wpx (init_loop p code fresh ks m) (\<lambda>n s'. inv s' \<and> n \<le> m + length ks) (\<lambda>_ s'. inv s') s"
proof (induction ks arbitrary: s m)
  case (Cons k ks)
  have reset: "wpx (sf_reset k True) (\<lambda>start. wpx (init_loop p code fresh ks (if start then m + 1 else m))
      (\<lambda>n s'. inv s' \<and> n \<le> m + length (k # ks)) (\<lambda>_ s'. inv s')) (\<lambda>_ s'. inv s') s1" if "inv s1" for s1
    by (rule wpx_mono [OF keepsD [OF future_kept(3) that]]) (auto intro!: wpx_mono [OF Cons.IH])
  have "keeps inv (\<lambda>_. True) (if fresh then sf_init k else sf_cancel p code k usize_MAX True)" by (intro keeps future_kept)
  from keepsD [OF this Cons.prems] show ?case
    by (simp only: init_loop.simps wpx_bind) (erule wpx_mono, erule reset, simp)
qed simp

lemma init_kept: "keeps inv (\<lambda>_. True) (st_init p code)"
proof (rule keepsI)
  fix s
  assume s: "inv s"
  have "wpx (init_loop p code fresh [0..<len] 0) (\<lambda>n s'. inv (s'\<lparr>st_suspended_count := n, st_unfinished_count := len\<rparr>)) (\<lambda>_ s'. inv s') s" for fresh
    by (rule wpx_mono [OF init_loop_kept [OF s]]) (auto intro: counts_kept)
  then show "wpx (st_init p code) (\<lambda>_. inv) (\<lambda>e s'. True \<and> inv s') s"
    by (simp add: st_init_def length_kept [OF s])
qed

lemma cleanup_kept: "keeps inv (\<lambda>_. True) (sf_cleanup p code k gen)"
  unfolding sf_cleanup_def by (intro keeps_guard future_kept reason_kept)

lemma drop_kept: "keeps inv (\<lambda>_. True) (sw_drop p code)"
proof -
  have e: "keeps inv (\<lambda>_. True) (emergency_cleanup p code ks)" for ks
    by (induction ks; simp only: emergency_cleanup.simps; intro keeps cleanup_kept; simp)
  have "keeps inv (\<lambda>_. True) (dispose_loop p code ks)" for ks
    by (induction ks; simp only: dispose_loop.simps; intro keeps cleanup_kept e; simp)
  then show ?thesis
    unfolding sw_drop_def st_dispose_def by (intro keeps keeps_guard lock_kept generation_kept; simp)
qed

lemma try_lock_kept: "keeps inv (\<lambda>_. True) (sw_try_lock p code)"
  unfolding sw_try_lock_def by (intro keeps keeps_modify init_kept drop_kept lock_kept; simp)

lemma run_kept:
  assumes "static_run p code config e s" and "\<And>u ext. inv (from_raw_config (map static_future_new config) u ext)"
  shows "inv s"
  using assms(1)
proof (induction rule: static_run.induct)
  case (poll e s w m r s')
  then have "st_poll_loop p code w m (st_clear_waker s) = Some (r, s')" "inv (st_clear_waker s)"
    by (simp_all add: sw_poll_def st_poll_internal_def st_clear_waker_def waker_kept)
  from poll_loop_kept [OF this(2,1)] show ?case .
qed (fact assms(2), blast intro: keeps_run [OF try_lock_kept], blast intro: keeps_run [OF drop_kept], blast intro: keeps_run [OF call_kept])

end

subsection \<open>The current task\<close>

text \<open>Outside of a poll no task is current: the guard that clears it runs when a poll returns and when it unwinds.\<close>

definition idle :: "nat \<Rightarrow> ('f, 'u) static_alg \<Rightarrow> bool" where
  "idle n s \<longleftrightarrow> length (st_registry s) = n \<and> st_current s = None"

text \<open>The fields that no step but the named ones changes.\<close>

lemma wakes_rest [simp]:
  "length (st_registry (fold st_wake ks s)) = length (st_registry s)" "st_current (fold st_wake ks s) = st_current s"
  "st_suspended_count (fold st_wake ks s) = st_suspended_count s" "st_unfinished_count (fold st_wake ks s) = st_unfinished_count s"
  "st_generation (fold st_wake ks s) = st_generation s"
  by (induction ks arbitrary: s) (simp_all add: st_wake_def st_notify_wake_def)

lemma deliver_rest [simp]:
  "length (st_registry (st_deliver s)) = length (st_registry s)" "st_current (st_deliver s) = st_current s"
  "st_suspended_count (st_deliver s) = st_suspended_count s" "st_unfinished_count (st_deliver s) = st_unfinished_count s"
  "st_generation (st_deliver s) = st_generation s"
  by (simp_all add: st_deliver_def split: list.split)

lemma wake_rest [simp]:
  "length (st_registry (st_wake k s)) = length (st_registry s)" "st_current (st_wake k s) = st_current s"
  "st_suspended_count (st_wake k s) = st_suspended_count s" "st_unfinished_count (st_wake k s) = st_unfinished_count s"
  "st_generation (st_wake k s) = st_generation s"
  by (simp_all add: st_wake_def st_notify_wake_def)

lemma idle_ops [keeps]:
  "keeps (idle n) (\<lambda>_. True) (st_add_suspended p)" "keeps (idle n) (\<lambda>_. True) (st_sub_suspended p)"
  "keeps (idle n) (\<lambda>_. True) (inc_unfinished p)" "keeps (idle n) (\<lambda>_. True) (dec_unfinished p)"
  "keeps (idle n) (\<lambda>_. True) (set_reason k r)" "keeps (idle n) (\<lambda>_. True) (st_to_id p i)"
  unfolding st_add_suspended_def st_sub_suspended_def inc_unfinished_def dec_unfinished_def set_reason_def st_to_id_def
  by (intro keeps keeps_modify; simp add: idle_def)+

lemma idle_scall: "keeps (idle n) (\<lambda>_. True) (exec_scall p c)"
  by (cases c; simp only: exec_scall.simps handle_ops; intro keeps keeps_modify; simp add: idle_def)

definition sized :: "nat \<Rightarrow> ('f, 'u) static_alg \<Rightarrow> bool" where
  "sized n s \<longleftrightarrow> length (st_registry s) = n"

lemma sized_scall: "keeps (sized n) (\<lambda>_. True) (exec_scall p c)"
proof -
  have [keeps]: "keeps (sized n) (\<lambda>_. True) (st_add_suspended p)" "keeps (sized n) (\<lambda>_. True) (st_sub_suspended p)"
    "keeps (sized n) (\<lambda>_. True) (inc_unfinished p)" "keeps (sized n) (\<lambda>_. True) (set_reason k r)"
    "keeps (sized n) (\<lambda>_. True) (st_to_id p i)" for k r i
    unfolding st_add_suspended_def st_sub_suspended_def inc_unfinished_def set_reason_def st_to_id_def
    by (intro keeps keeps_modify; simp add: sized_def)+
  show ?thesis by (cases c; simp only: exec_scall.simps handle_ops; intro keeps keeps_modify; simp add: sized_def)
qed

interpretation size: task_invariant "\<lambda>_. True" "sized n" "\<lambda>_. True"
  by unfold_locales (auto simp: sized_scall sized_def)

lemma idle_poll: "keeps (idle n) (\<lambda>_. True) (st_poll_task p code gen k restart)"
proof (rule keepsI)
  fix s :: "('a, 'b) static_alg"
  assume s: "idle n s"
  let ?tail = "\<lambda>r. if r = Ready () then bind_exec (set_reason k StFinished) (\<lambda>_. bind_exec (dec_unfinished p) (\<lambda>_. return_exec True)) else return_exec True"
  have "keeps (sized n) (\<lambda>_. True) (sf_poll_local p code k gen restart)"
    unfolding sf_poll_local_def sf_set_runnable_def get_flags_def
    by (intro keeps keeps_modify size.protected_kept; simp add: sized_def)
  from keepsD [OF this, of "s\<lparr>st_current := Some k, st_polled := st_polled s @ [k]\<rparr>"]
  have poll: "wpx (sf_poll_local p code k gen restart) (\<lambda>_. sized n) (\<lambda>e s'. True \<and> sized n s') (s\<lparr>st_current := Some k, st_polled := st_polled s @ [k]\<rparr>)"
    using s by (simp add: sized_def idle_def)
  have "keeps (idle n) (\<lambda>_. True) (?tail r)" for r by (intro keeps)
  note tail = keepsD [OF this]
  have "wpx (sf_poll_local p code k gen restart) (\<lambda>r s'. wpx (?tail r) (\<lambda>_. idle n) (\<lambda>e s'. True \<and> idle n s') (s'\<lparr>st_current := None\<rparr>))
      (\<lambda>e s'. True \<and> idle n (s'\<lparr>st_current := None\<rparr>)) (s\<lparr>st_current := Some k, st_polled := st_polled s @ [k]\<rparr>)"
    by (rule wpx_mono [OF poll]) (rule tail, auto simp: idle_def sized_def)
  then show "wpx (st_poll_task p code gen k restart) (\<lambda>_. idle n) (\<lambda>e s'. True \<and> idle n s') s"
    unfolding st_poll_task_def by (subst wpx_bind, subst wpx_modify, subst wpx_bind, subst wpx_guard)
qed

interpretation idle: wheel_invariant "idle n" n
  by unfold_locales (auto simp: idle_scall idle_ops idle_poll idle_def)

lemma static_run_current: "static_run p code config e s \<Longrightarrow> st_current s = None"
  using idle.run_kept [of p code config e s "length config"] by (simp add: idle_def from_raw_config_def)

subsection \<open>Machine integers\<close>

text \<open>The counts and the generation are \<open>usize\<close> fields.\<close>

definition fits :: "nat \<Rightarrow> ('f, 'u) static_alg \<Rightarrow> bool" where
  "fits n s \<longleftrightarrow> length (st_registry s) = n \<and> n \<le> usize_MAX \<and> st_suspended_count s \<le> usize_MAX
     \<and> st_unfinished_count s \<le> usize_MAX \<and> st_generation s \<le> usize_MAX"

lemma usize_range: "usize_add p a b = Inr c \<Longrightarrow> c \<le> usize_MAX" "a \<le> usize_MAX \<Longrightarrow> usize_sub p a b = Inr c \<Longrightarrow> c \<le> usize_MAX"
  by (auto simp: usize_add_def usize_sub_def usize_MAX_def split: if_splits profile.splits)

lemma fits_counts [keeps]:
  "keeps (fits n) (\<lambda>_. True) (st_add_suspended p)" "keeps (fits n) (\<lambda>_. True) (st_sub_suspended p)"
  "keeps (fits n) (\<lambda>_. True) (inc_unfinished p)" "keeps (fits n) (\<lambda>_. True) (dec_unfinished p)"
  by (rule keepsI, force simp: st_add_suspended_def st_sub_suspended_def inc_unfinished_def dec_unfinished_def fits_def
      split: sum.split dest: usize_range)+

lemma fits_rest [keeps]:
  "keeps (fits n) (\<lambda>_. True) (set_reason k r)" "keeps (fits n) (\<lambda>_. True) (st_to_id p i)" "keeps (fits n) (\<lambda>_. True) (sf_set_runnable k v)"
  unfolding set_reason_def st_to_id_def sf_set_runnable_def get_flags_def
  by (intro keeps keeps_modify; simp add: fits_def)+

lemma fits_scall: "keeps (fits n) (\<lambda>_. True) (exec_scall p c)"
  by (cases c; simp only: exec_scall.simps handle_ops; intro keeps keeps_modify; simp add: fits_def)

interpretation fit: task_invariant "\<lambda>_. True" "fits n" "\<lambda>_. True"
  by unfold_locales (auto simp: fits_scall fits_def)

lemma fits_poll: "keeps (fits n) (\<lambda>_. True) (st_poll_task p code gen k restart)"
  unfolding st_poll_task_def sf_poll_local_def
  by (intro keeps keeps_guard keeps_modify fit.protected_kept; simp add: fits_def)

interpretation fit: wheel_invariant "fits n" n
  by unfold_locales (auto simp: fits_counts fits_poll fits_def wrapping_add_max)

subsection \<open>Properties\<close>

text \<open>
  C23. In every run of a static wheel, whatever the code of the tasks does and wherever it panics, the fields of the
  scheduler stay values of their machine types: both counts and the generation fit a \<open>usize\<close>, the flag of every task is
  one of the three states that \<open>handle_task\<close> knows, and between two operations no task is current.
\<close>

theorem static_fields_typed:
  assumes "static_run p code config e s" and "length config \<le> usize_MAX"
  shows "st_suspended_count s \<le> usize_MAX \<and> st_unfinished_count s \<le> usize_MAX \<and> st_generation s \<le> usize_MAX
    \<and> st_current s = None \<and> (\<forall>t \<in> set (st_registry s). sf_init_flag t \<in> {FLAG_UNINIT, FLAG_CREATED, FLAG_DROPPED})"
proof -
  have "fits (length config) s"
    using fit.run_kept [OF assms(1), of "length config"] assms(2) by (simp add: fits_def from_raw_config_def)
  moreover obtain gen l where "good (length config) (gen, l) s" using static_run_good [OF assms(1)] by blast
  then have "slot_ok (slot_of t)" if "t \<in> set (st_registry s)" for t using that by (auto simp: good_def held_def)
  then have "\<forall>t \<in> set (st_registry s). sf_init_flag t \<in> {FLAG_UNINIT, FLAG_CREATED, FLAG_DROPPED}"
    by (auto simp: slot_ok_def slot_of_def)
  ultimately show ?thesis using static_run_current [OF assms(1)] by (simp add: fits_def)
qed

theorem static_fields_typed_witness:
  "st_unfinished_count one_polled = 1 \<and> st_unfinished_count one_polled \<le> usize_MAX \<and> st_current one_polled = None
    \<and> sf_init_flag (st_registry one_polled ! 0) \<in> {FLAG_UNINIT, FLAG_CREATED, FLAG_DROPPED}"
proof -
  have "st_unfinished_count one_polled = 1" "length (st_registry one_polled) = 1" by (simp_all add: run one_defs cong: run_cong)
  then show ?thesis using static_fields_typed [OF one_polled_run] by (simp add: usize_MAX_def)
qed

end
