(* ===== verification/Static_Outcome.thy ===== *)
theory Static_Outcome
  imports Static_Yield Static_Invariants
begin

text \<open>
  The properties of polling a static wheel: its counts are exact in every run with tame tasks, and so a poll returns what
  it should; it returns when the tasks have a bounded number of polls left; and a third failure of the counts.
\<close>

subsection \<open>Runs with tame tasks\<close>

text \<open>
  A definition whose tasks have no futures is locked; then the wheel is polled, and its handles are used from outside.
  No task makes the calls from outside, so that they may suspend any of the tasks.
\<close>

inductive tame_run ::
  "bool \<Rightarrow> profile \<Rightarrow> ('f, 'u) static_code \<Rightarrow> static_params list \<Rightarrow> ('f, 'u) static_alg \<Rightarrow> bool"
  for b p code config where
  locked: "static_run p code config e s \<Longrightarrow> \<forall>t \<in> set (st_registry s). no_future (st_unfinished_count s = usize_MAX) t \<Longrightarrow>
    sw_try_lock p code s = (Inr True, s') \<Longrightarrow> tame_run b p code config s'"
| polled: "tame_run b p code config s \<Longrightarrow> sw_poll p code w m s = Some (r, s') \<Longrightarrow> tame_run b p code config s'"
| called: "tame_run b p code config s \<Longrightarrow> length config \<le> j \<Longrightarrow> tame_call b j c \<Longrightarrow> exec_scall p c s = (r, s') \<Longrightarrow>
    tame_run b p code config s'"

lemma how_many_map: "how_many P (map f xs) = how_many (\<lambda>x. P (f x)) xs"
  by (simp add: how_many_def filter_map comp_def)

lemma lock_exact:
  assumes "\<not> st_lock s" and "\<forall>t \<in> set (st_registry s). no_future (st_unfinished_count s = usize_MAX) t"
    and "sw_try_lock p code s = (Inr True, s')" and "length (st_registry s) \<le> usize_MAX" and "st_current s = None"
  shows "exact b (length (st_registry s)) s'"
proof -
  have s': "s' = s\<lparr>st_lock := True, st_registry := map fresh_task (st_registry s),
       st_suspended_count := length (filter sf_start_suspended (st_registry s)),
       st_unfinished_count := length (st_registry s)\<rparr>"
    using sw_try_lock_fresh [OF assms(1,2)] assms(3) by simp
  have "how_many (\<lambda>t. sf_stop_reason (fresh_task t) = StSuspended) (st_registry s) = length (filter sf_start_suspended (st_registry s))"
    unfolding how_many_def by (intro arg_cong [where f = length] filter_cong) (simp_all add: fresh_task_def)
  moreover have "how_many (\<lambda>t. sf_stop_reason (fresh_task t) \<noteq> StFinished) (st_registry s) = length (st_registry s)"
    by (simp add: how_many_def fresh_task_def)
  ultimately show ?thesis
    using assms(4,5) by (auto simp: s' exact_def reasons_def how_many_map comp_def fresh_task_def tame_reasons_def)
qed


lemma tame_run_exact:
  assumes "tame_run b p code config s" and "length config \<le> usize_MAX" and "tame_code b code"
  shows "exact b (length config) s \<and> (\<exists>gen l. gen \<le> usize_MAX \<and> good (length config) (gen, l) s)"
  using assms(1)
proof (induction rule: tame_run.induct)
  case (locked e s s')
  obtain gen l where g: "good (length config) (gen, l) s" and gen: "gen \<le> usize_MAX" using static_run_good [OF locked(1)] by blast
  have unlocked: "\<not> st_lock s" using locked(3) by (auto simp: sw_try_lock_def exec_defs split: if_splits)
  have "exact b (length config) s'"
    using lock_exact [OF unlocked locked(2,3), of b] static_run_current [OF locked(1)] good_length [OF g] assms(2) by simp
  moreover have "good (length config) (gen, True) s'" using sw_try_lock_ok [OF g, of p code] locked(3) by (auto simp: wpx_def)
  ultimately show ?case using gen by blast
next
  case (polled s w m r s')
  then obtain gen l where s: "exact b (length config) (st_clear_waker s)" "good (length config) (gen, l) (st_clear_waker s)" "gen \<le> usize_MAX"
    by (auto simp: st_clear_waker_def)
  have l: "st_poll_loop p code w m (st_clear_waker s) = Some (r, s')" using polled(2) by (simp add: sw_poll_def st_poll_internal_def)
  have "grown 0 (st_clear_waker s)" by (simp add: grown_def)
  from st_poll_loop_exact [OF s(1) this assms(3) l] st_poll_loop_good [OF s(2) l] s(3) show ?case by blast
next
  case (called s j c r s')
  then obtain gen l where s: "exact b (length config) s" "good (length config) (gen, l) s" "gen \<le> usize_MAX" by blast
  have "exact b (length config) s'"
    using exec_scall_exact [OF s(1) called(3), of p] called(4) s(1) by (auto simp: wpx_def split: sum.splits)
  moreover have "good (length config) (gen, l) s'"
    by (rule keeps_run [OF held_good [OF exec_scall_held] s(2) called(4)])
  ultimately show ?case using s(3) by blast
qed


lemma tame_poll:
  assumes "tame_run b p code config s" and "length config \<le> usize_MAX" and "tame_code b code"
    and "sw_poll p code w m s = Some (x, s')"
  shows "exact b (length config) s' \<and> (case x of
      Inl e \<Rightarrow> e \<in> {UserPanic, Panic ''Handle is invalid.'', Panic ''Error: Index out of bounds.''}
    | Inr r \<Rightarrow> st_outcome w (length (st_woken s)) r s')"
proof -
  obtain g where s: "exact b (length config) (st_clear_waker s)" "good (length config) g (st_clear_waker s)"
    using tame_run_exact [OF assms(1-3)] by (auto simp: st_clear_waker_def)
  have l: "st_poll_loop p code w m (st_clear_waker s) = Some (x, s')" using assms(4) by (simp add: sw_poll_def st_poll_internal_def)
  have "grown (length (st_woken s)) (st_clear_waker s)" by (simp add: grown_def st_clear_waker_def)
  from st_poll_loop_exact [OF s(1) this assms(3) l] st_poll_loop_good [OF s(2) l] show ?thesis
    by (auto simp: static_panic_def tame_panic_def split: sum.splits)
qed

lemma tame_poll_ends:
  assumes "tame_run True p code config s" and "length config \<le> usize_MAX" and "tame_code True code" and "sinking weigh cap code"
  shows "\<exists>x s'. sw_poll p code w (Suc (st_weight weigh cap s)) s = Some (x, s')"
proof -
  obtain g where s: "exact True (length config) (st_clear_waker s)" "good (length config) g (st_clear_waker s)"
    using tame_run_exact [OF assms(1-3)] by (auto simp: st_clear_waker_def)
  from st_poll_loop_terminates [OF s assms(3,4), of "Suc (st_weight weigh cap s)" p w] show ?thesis
    by (simp add: sw_poll_def st_poll_internal_def st_clear_waker_def del: st_poll_loop.simps)
qed

lemma tame_yielding_poll:
  assumes "tame_run True p code config s" and "length config \<le> usize_MAX" and "tame_code True code" and "sinking weigh cap code"
    and "self_waking_code code" and "\<forall>t \<in> set (st_registry s). sf_stop_reason t = StFinished \<or> sf_flags t = Some True"
  shows "\<exists>x s'. sw_poll p code w (Suc (st_weight weigh cap s)) s = Some (x, s') \<and> x \<noteq> Inr Pending"
proof -
  let ?s = "st_clear_waker s"
  obtain x s' where poll: "sw_poll p code w (Suc (st_weight weigh cap s)) s = Some (x, s')" using tame_poll_ends [OF assms(1-4)] by blast
  have e: "exact True (length config) ?s" using tame_run_exact [OF assms(1-3)] by (simp add: st_clear_waker_def)
  have "unfinished_lit (length config) ?s"
    using assms(6) e finished_nth [of _ ?s] reasons_nth [of _ ?s] by (auto simp: unfinished_lit_def lit_def exact_def st_clear_waker_def)
  from st_poll_loop_ready [OF e this assms(3,5)] poll have "x \<noteq> Inr Pending"
    by (auto simp: sw_poll_def st_poll_internal_def simp del: st_poll_loop.simps)
  with poll show ?thesis by blast
qed

subsection \<open>An example wheel of two tasks\<close>

text \<open>Tasks that wake themselves and are pending as often as their future counts; the second starts suspended.\<close>

definition count_code :: "(nat, unit) static_code" where
  "count_code = \<lparr>sc_init = (\<lambda>k gen u. SReturn 1 u),
     sc_poll = (\<lambda>k f u. if f = 0 then SReturn (True, f) u else SCall (SWake k) (\<lambda>_. SReturn (False, f - 1) u)),
     sc_drop = (\<lambda>k f u. SReturn () u)\<rparr>"

definition two_config :: "static_params list" where
  "two_config = [stp_new, stp_suspended_new True]"

definition two_locked :: "(nat, unit) static_alg" where
  "two_locked = snd (sw_try_lock Debug count_code (from_raw_config (map static_future_new two_config) () []))"

lemma count_code_ok: "tame_code b count_code" "sinking id 1 count_code"
  by (simp_all add: tame_code_def task_ok_def sinking_def count_code_def)

lemma two_locked_run: "tame_run b Debug count_code two_config two_locked"
proof (rule tame_run.locked [OF static_run.config])
  show "sw_try_lock Debug count_code (from_raw_config (map static_future_new two_config) () []) = (Inr True, two_locked)"
    by (simp add: two_locked_def) (simp add: run two_config_def count_code_def cong: run_cong)
  show "\<forall>t \<in> set (st_registry (from_raw_config (map static_future_new two_config) () [])).
      no_future (st_unfinished_count (from_raw_config (map static_future_new two_config) () []) = usize_MAX) t"
    by (simp add: from_raw_config_def no_future_def static_future_new_def FLAG_UNINIT_def)
qed

lemma two_locked_poll: "\<exists>s'. sw_poll Debug count_code 7 5 two_locked = Some (Inr (Ready False), s')"
  by (simp add: run two_locked_def two_config_def count_code_def cong: run_cong)

subsection \<open>Properties\<close>

text \<open>
  C5. What a poll of a static wheel returns, for tame tasks, in every run of them: \<open>Ready(true)\<close> when all tasks are
  finished; \<open>Ready(false)\<close> when there are suspended tasks and every other one is finished; \<open>Pending\<close> when some task is
  neither, and then the outer waker is registered and no task is runnable, or it was woken since the poll
  began. It unwinds only with a panic of the tasks' own code: no count overflows.
\<close>

theorem static_poll_outcome:
  assumes "tame_run b p code config s" and "length config \<le> usize_MAX" and "tame_code b code"
    and "sw_poll p code w m s = Some (x, s')"
  shows "case x of
      Inl e \<Rightarrow> e \<in> {UserPanic, Panic ''Handle is invalid.'', Panic ''Error: Index out of bounds.''}
    | Inr (Ready True) \<Rightarrow> set (reasons s') \<subseteq> {StFinished}
    | Inr (Ready False) \<Rightarrow> StSuspended \<in> set (reasons s') \<and> set (reasons s') \<subseteq> {StFinished, StSuspended}
    | Inr Pending \<Rightarrow> \<not> set (reasons s') \<subseteq> {StFinished, StSuspended}
        \<and> (st_last_waker s' = Some w \<and> (\<forall>k < length config. \<not> st_runnable k s')
           \<or> w \<in> set (drop (length (st_woken s)) (st_woken s')))"
proof (cases x)
  case (Inl e)
  then show ?thesis using tame_poll [OF assms] by auto
next
  case (Inr r)
  then have o: "st_outcome w (length (st_woken s)) r s'" and n: "length (st_registry s') = length config"
    using tame_poll [OF assms] by (auto simp: exact_def)
  show ?thesis
  proof (cases r)
    case Pending
    with o n obtain m' where "length (st_woken s) \<le> m'" "st_armed w m' {..<length config} s'" by (auto simp: st_outcome_def)
    then have "st_last_waker s' = Some w \<and> (\<forall>k < length config. \<not> st_runnable k s') \<or> w \<in> set (drop (length (st_woken s)) (st_woken s'))"
      using nth_mem [of "m' - length (st_woken s)" "drop (length (st_woken s)) (st_woken s')"]
        diff_less_mono [of m' "length (st_woken s')" "length (st_woken s)"] by (auto simp: st_armed_def)
    then show ?thesis using o by (simp add: Inr Pending st_outcome_def)
  next
    case (Ready v)
    then show ?thesis using o by (cases v) (simp_all add: Inr st_outcome_def)
  qed
qed

theorem static_poll_outcome_witness:
  "\<exists>s'. sw_poll Debug count_code 7 5 two_locked = Some (Inr (Ready False), s')
    \<and> StSuspended \<in> set (reasons s') \<and> set (reasons s') \<subseteq> {StFinished, StSuspended}"
proof -
  obtain s' where "sw_poll Debug count_code 7 5 two_locked = Some (Inr (Ready False), s')" using two_locked_poll by blast
  moreover from static_poll_outcome [OF two_locked_run [of False] _ count_code_ok(1) this]
  have "StSuspended \<in> set (reasons s') \<and> set (reasons s') \<subseteq> {StFinished, StSuspended}" by (simp add: two_config_def usize_MAX_def)
  ultimately show ?thesis by blast
qed

text \<open>
  C20. A poll of a static wheel ends when the code of the tasks is tame and no call restarts a task: no task cancels or restarts
  a task or suspends itself, no handle is used to cancel or restart one between the polls of the run, and the futures have a
  bounded number of pending polls: \<open>weigh\<close> sinks with every pending poll, and is at most \<open>cap\<close> for a new future. The loop of
  \<open>poll_internal\<close> needs at most one iteration more than the unfinished tasks have polls left.
\<close>

theorem static_poll_terminates:
  assumes "tame_run True p code config s" and "length config \<le> usize_MAX" and "tame_code True code" and "sinking weigh cap code"
  shows "\<exists>res. sw_poll p code w (Suc (st_weight weigh cap s)) s = Some res"
  using tame_poll_ends [OF assms] by blast

theorem static_poll_terminates_witness:
  "\<exists>res. sw_poll Debug count_code 7 (Suc (st_weight id 1 two_locked)) two_locked = Some res"
  by (rule static_poll_terminates [OF two_locked_run _ count_code_ok]) (simp add: two_config_def usize_MAX_def)

text \<open>
  C21. Let the code of the tasks of a static wheel be tame, as above: it and the calls of the run cancel and restart nothing and
  no task suspends itself. Let every future have a bounded number of pending polls (\<open>sinking\<close>) and wake itself whenever it is
  pending, and let the flag of every unfinished task be set when the poll starts. Then a single poll is enough, and never returns
  \<open>Pending\<close>: either the code of a task panics, by itself or by a call with an invalid handle, or every task is finished or was
  suspended by another, and \<open>Ready\<close> says which.
\<close>

theorem static_yielding_completes:
  assumes "tame_run True p code config s" and "length config \<le> usize_MAX" and "tame_code True code" and "sinking weigh cap code"
    and "self_waking_code code" and "\<forall>t \<in> set (st_registry s). sf_stop_reason t = StFinished \<or> sf_flags t = Some True"
  shows "\<exists>x s'. sw_poll p code w (Suc (st_weight weigh cap s)) s = Some (x, s')
    \<and> (case x of
         Inl e \<Rightarrow> e \<in> {UserPanic, Panic ''Handle is invalid.'', Panic ''Error: Index out of bounds.''}
       | Inr r \<Rightarrow> set (reasons s') \<subseteq> {StFinished, StSuspended} \<and> r = Ready (StSuspended \<notin> set (reasons s')))"
proof -
  obtain x s' where poll: "sw_poll p code w (Suc (st_weight weigh cap s)) s = Some (x, s')" "x \<noteq> Inr Pending"
    using tame_yielding_poll [OF assms] by blast
  with tame_poll [OF assms(1-3) poll(1)]
  have "case x of Inl e \<Rightarrow> e \<in> {UserPanic, Panic ''Handle is invalid.'', Panic ''Error: Index out of bounds.''}
       | Inr r \<Rightarrow> set (reasons s') \<subseteq> {StFinished, StSuspended} \<and> r = Ready (StSuspended \<notin> set (reasons s'))"
    by (auto simp: st_outcome_def split: sum.splits poll.splits bool.splits)
  with poll(1) show ?thesis by blast
qed

theorem static_yielding_completes_witness:
  "\<exists>x s'. sw_poll Debug count_code 7 (Suc (st_weight id 1 two_locked)) two_locked = Some (x, s')
    \<and> (case x of
         Inl e \<Rightarrow> e \<in> {UserPanic, Panic ''Handle is invalid.'', Panic ''Error: Index out of bounds.''}
       | Inr r \<Rightarrow> set (reasons s') \<subseteq> {StFinished, StSuspended} \<and> r = Ready (StSuspended \<notin> set (reasons s')))"
proof (rule static_yielding_completes [OF two_locked_run _ count_code_ok])
  show "self_waking_code count_code" by (simp add: self_waking_code_def count_code_def)
  show "\<forall>t \<in> set (st_registry two_locked). sf_stop_reason t = StFinished \<or> sf_flags t = Some True"
    by (simp add: run two_locked_def two_config_def count_code_def cong: run_cong)
qed (simp add: two_config_def usize_MAX_def)

text \<open>
  A static task that suspends itself and then returns leaves the count of suspended tasks one too high: it is marked as
  finished, and nothing counts it down. A poll then reports \<open>Ready(false)\<close>, all tasks suspended, when the one task left
  only waits.
\<close>

definition leaving_code :: "(unit, unit) static_code" where
  "leaving_code = \<lparr>sc_init = (\<lambda>k gen u. SReturn () u),
     sc_poll = (\<lambda>k f u. if k = 0 then SCall (SSuspend 0 1) (\<lambda>_. SReturn (True, f) u) else SReturn (False, f) u),
     sc_drop = (\<lambda>k f u. SReturn () u)\<rparr>"

theorem static_suspended_leak:
  "\<exists>s s'. sw_try_lock Debug leaving_code (from_raw_config (map static_future_new [stp_new, stp_new]) () []) = (Inr True, s)
    \<and> sw_poll Debug leaving_code 7 3 s = Some (Inr (Ready False), s')
    \<and> reasons s' = [StFinished, StNone] \<and> st_suspended_count s' = 1 \<and> st_get_state 1 s' = (Inr Waiting, s')"
  by (simp add: run leaving_code_def reasons_def cong: run_cong)

end
