(* ===== verification/Static_Block.thy ===== *)
theory Static_Block
  imports Static_Outcome Wheel_Handle
begin

text \<open>
  The rest of \<open>src/st/wheel.rs\<close>: blocking on a static wheel. \<open>spin_block\<close> consumes the wheel, polls it until it is
  ready and drops it, which disposes the scheduler and releases the lock of the definition.
\<close>

subsection \<open>Operations\<close>

definition static_def_new :: "'f static_future list \<Rightarrow> 'u \<Rightarrow> nat list list \<Rightarrow> ('f, 'u) static_alg" where
  "static_def_new config u ext = (from_raw_config config u ext)\<lparr>st_lock := False\<rparr>"

definition sw_is_locked :: "('f, 'u) static_alg \<Rightarrow> bool" where
  "sw_is_locked s = st_lock s"

text \<open>The loop of \<open>spin_block_on\<close>, for at most \<open>k\<close> polls of at most \<open>n\<close> iterations.\<close>

primrec sw_spin_loop ::
  "profile \<Rightarrow> ('f, 'u) static_code \<Rightarrow> nat \<Rightarrow> nat \<Rightarrow> nat \<Rightarrow> ('f, 'u) static_alg \<Rightarrow>
   ((panic + bool) \<times> ('f, 'u) static_alg) option" where
  "sw_spin_loop p code w n 0 s = None"
| "sw_spin_loop p code w n (Suc k) s =
     (case sw_poll p code w n s of
        None \<Rightarrow> None
      | Some (Inl e, s') \<Rightarrow> Some (Inl e, s')
      | Some (Inr (Ready v), s') \<Rightarrow> Some (Inr v, s')
      | Some (Inr Pending, s') \<Rightarrow> sw_spin_loop p code w n k s')"

text \<open>The wheel is dropped when the call ends; a panic of the drop while another one unwinds aborts the process.\<close>

definition sw_spin_block ::
  "profile \<Rightarrow> ('f, 'u) static_code \<Rightarrow> nat \<Rightarrow> nat \<Rightarrow> nat \<Rightarrow> ('f, 'u) static_alg \<Rightarrow>
   ((panic + (suspend_error + unit)) \<times> ('f, 'u) static_alg) option" where
  "sw_spin_block p code w n k s =
     map_option (\<lambda>(r, s').
       case (r, sw_drop p code s') of
         (Inl e, (Inl _, s'')) \<Rightarrow> (Inl process_abort, s'')
       | (Inl e, (Inr _, s'')) \<Rightarrow> (Inl e, s'')
       | (Inr v, (Inl e, s'')) \<Rightarrow> (Inl e, s'')
       | (Inr v, (Inr _, s'')) \<Rightarrow> (Inr (if v then Inr () else Inl SuspendError), s''))
     (sw_spin_loop p code w n k s)"

definition sw_spin_block_forever :: "(panic + (suspend_error + unit)) \<Rightarrow> panic" where
  "sw_spin_block_forever r = spin_block_forever ''StaticWheel'' r"

subsection \<open>Properties\<close>

text \<open>
  Blocking on a static wheel whose tasks wake themselves and have a bounded number of pending polls returns after one
  poll: with \<open>Ok\<close> when every task was finished, with the suspend error when some were suspended, or with a panic of the
  code of the tasks. In each case the definition can be locked again, and the handles of the wheel are invalid.
\<close>

theorem static_spin_block_completes:
  assumes run: "tame_run True p code config s" "length config \<le> usize_MAX" and code: "tame_code True code" "sinking weigh cap code" "self_waking_code code"
    and ready: "\<forall>t \<in> set (st_registry s). sf_stop_reason t = StFinished \<or> sf_flags t = Some True"
  shows "\<exists>r s'. sw_spin_block p code w (Suc (st_weight weigh cap s)) 1 s = Some (r, s') \<and> \<not> sw_is_locked s'
    \<and> \<not> sh_is_valid (sw_handle s) s'"
proof -
  let ?n = "Suc (st_weight weigh cap s)"
  obtain x s1 where poll: "sw_poll p code w ?n s = Some (x, s1)" "x \<noteq> Inr Pending"
    using tame_yielding_poll [OF run code ready] by blast
  then obtain r where loop: "sw_spin_loop p code w ?n 1 s = Some (r, s1)" by (cases x; cases "projr x") auto
  obtain gen l where g0: "good (length config) (gen, l) (st_clear_waker s)" and gen: "gen \<le> usize_MAX"
    using tame_run_exact [OF run code(1)] by (auto simp: st_clear_waker_def)
  then have same: "gen = st_generation s" by (auto simp: good_def held_def st_clear_waker_def)
  have g: "good (length config) (gen, l) s1"
    using st_poll_loop_good [OF g0] poll(1) by (simp add: sw_poll_def st_poll_internal_def del: st_poll_loop.simps)
  have "st_generation (snd (sw_drop p code s1)) = wrapping_add gen 1 \<and> \<not> st_lock (snd (sw_drop p code s1))"
    using sw_drop_ok [OF g, of p code] by (auto simp: wpx_def good_def held_def split: prod.splits sum.splits)
  moreover have "wrapping_add gen 1 \<noteq> gen" using gen by (cases "gen = usize_MAX") (auto simp: wrapping_add_def usize_MAX_def)
  ultimately show ?thesis
    using loop same by (auto simp: sw_spin_block_def sw_is_locked_def sh_is_valid_def sw_handle_def split: prod.splits sum.splits)
qed

theorem static_spin_block_completes_witness:
  "\<exists>r s'. sw_spin_block Debug count_code 7 (Suc (st_weight id 1 two_locked)) 1 two_locked = Some (r, s') \<and> \<not> sw_is_locked s'
    \<and> \<not> sh_is_valid (sw_handle two_locked) s'"
proof (rule static_spin_block_completes [OF two_locked_run _ count_code_ok])
  show "self_waking_code count_code" by (simp add: self_waking_code_def count_code_def)
  show "\<forall>t \<in> set (st_registry two_locked). sf_stop_reason t = StFinished \<or> sf_flags t = Some True"
    by (simp add: run two_locked_def two_config_def count_code_def cong: run_cong)
qed (simp add: two_config_def usize_MAX_def)

end
