(* ===== verification/Static_Failures.thy ===== *)
theory Static_Failures
  imports Static_Correct
begin

text \<open>
  Where the static scheduler (\<open>src/st/algorithm.rs\<close>) does not do what it means to: \<open>beat_once\<close> counts a cancelled task
  down on every visit, and a suspension that follows a restart is undone. Both are shown for every state they happen in.
\<close>

subsection \<open>Cancelled tasks at rest\<close>

text \<open>
  A task that needs no polling: finished, suspended, waiting, or cancelled with its future gone. A visit of a cancelled
  one marks its memory as dropped and counts it down.
\<close>

definition at_rest :: "'f static_future \<Rightarrow> bool" where
  "at_rest t \<longleftrightarrow>
     (case sf_stop_reason t of
        StFinished \<Rightarrow> True
      | StSuspended \<Rightarrow> True
      | StNone \<Rightarrow> sf_flags t = Some False
      | StCancelled \<Rightarrow> sf_memory t = None \<and> \<not> sf_polling t \<and> (sf_init_flag t = FLAG_UNINIT \<or> sf_init_flag t = FLAG_DROPPED)
      | _ \<Rightarrow> False)"

definition cancelled :: "'f static_future \<Rightarrow> bool" where
  "cancelled t \<longleftrightarrow> sf_stop_reason t = StCancelled"

definition counted_off :: "'f static_future \<Rightarrow> 'f static_future" where
  "counted_off t = (if cancelled t then t\<lparr>sf_init_flag := FLAG_DROPPED\<rparr> else t)"

lemma counted_off_rest [simp]:
  "at_rest t \<Longrightarrow> at_rest (counted_off t)" "cancelled (counted_off t) = cancelled t"
  "sf_stop_reason (counted_off t) = sf_stop_reason t" "counted_off (counted_off t) = counted_off t"
  by (auto simp: counted_off_def at_rest_def cancelled_def split: st_reason.splits)

text \<open>\<open>n\<close> times \<open>dec_unfinished\<close>.\<close>

primrec count_down :: "profile \<Rightarrow> nat \<Rightarrow> nat \<Rightarrow> panic + nat" where
  "count_down p 0 u = Inr u"
| "count_down p (Suc n) u = (case usize_sub p u 1 of Inl e \<Rightarrow> Inl e | Inr u' \<Rightarrow> count_down p n u')"

lemma count_down_eq: "u \<le> usize_MAX \<Longrightarrow> n \<le> usize_MAX + 1 \<Longrightarrow> count_down p n u = usize_sub p u n"
proof (induction n arbitrary: u)
  case 0
  then show ?case by simp
next
  case (Suc n)
  show ?case
  proof (cases "u = 0")
    case True
    then show ?thesis using Suc.IH [of usize_MAX] Suc.prems by (cases p) (simp_all add: usize_sub_def Suc_diff_le)
  next
    case False
    then show ?thesis using Suc.IH [of "u - 1"] Suc.prems by (cases p) (auto simp: usize_sub_def Suc_le_eq)
  qed
qed

lemma count_down_add:
  "count_down p (m + n) u = (case count_down p m u of Inl e \<Rightarrow> Inl e | Inr u' \<Rightarrow> count_down p n u')"
  by (induction m arbitrary: u) (auto split: sum.split)

lemma rest_slot:
  assumes "k < length (st_registry s)" and "at_rest (st_registry s ! k)" and "st_external s = []"
  shows "st_beat_slot p code gen k any s =
     (if cancelled (st_registry s ! k) then
        (case usize_sub p (st_unfinished_count s) 1 of
           Inl e \<Rightarrow> (Inl e, st_set k counted_off s)
         | Inr u \<Rightarrow> (Inr any, (st_set k counted_off s)\<lparr>st_unfinished_count := u\<rparr>))
      else (Inr any, s))"
proof (cases "sf_stop_reason (st_registry s ! k)")
  case StCancelled
  obtain t where t: "st_registry s ! k = t" by blast
  then show ?thesis
    using assms StCancelled
    by (cases t) (auto simp: st_beat_slot_def st_deliver_def at_rest_def cancelled_def counted_off_def sf_cancel_def poll_protected_def
        handle_task_def drop_anyways_def flag_defs set_flag_def slot_gets_def exec_defs st_set_def dec_unfinished_def Let_def split: sum.splits)
qed (use assms in \<open>auto simp: st_beat_slot_def st_deliver_def at_rest_def cancelled_def slot_gets_def exec_defs get_flags_def Let_def\<close>)

lemma rest_loop:
  assumes "length ys = n" and "\<forall>t \<in> set ys. at_rest t" and "st_registry s = xs @ ys" and "st_external s = []"
  shows "case count_down p (length (filter cancelled ys)) (st_unfinished_count s) of
      Inl e \<Rightarrow> \<exists>s'. st_beat_loop p code gen [length xs..<length xs + n] any s = (Inl e, s')
    | Inr u \<Rightarrow> st_beat_loop p code gen [length xs..<length xs + n] any s
        = (Inr any, s\<lparr>st_registry := xs @ map counted_off ys, st_unfinished_count := u\<rparr>)"
  using assms
proof (induction n arbitrary: xs ys s)
  case 0
  then show ?case by (simp add: return_exec_def)
next
  case (Suc n)
  then obtain y ys' where ys: "ys = y # ys'" by (cases ys) auto
  let ?k = "length xs"
  have at: "?k < length (st_registry s)" "st_registry s ! ?k = y" using Suc.prems ys by simp_all
  have upt: "[?k..<?k + Suc n] = ?k # [Suc ?k..<Suc ?k + n]" by (simp add: upt_conv_Cons del: upt_Suc)
  have rest: "at_rest (st_registry s ! ?k)" using Suc.prems(2) at ys by simp
  note slot = rest_slot [OF at(1) rest Suc.prems(4), of p code gen any, unfolded at(2)]
  show ?case
  proof (cases "cancelled y")
    case True
    show ?thesis
    proof (cases "usize_sub p (st_unfinished_count s) 1")
      case (Inl e)
      then show ?thesis using True ys slot unfolding upt by (simp add: bind_exec_def)
    next
      case (Inr u)
      let ?s = "(st_set ?k counted_off s)\<lparr>st_unfinished_count := u\<rparr>"
      have reg: "st_registry ?s = (xs @ [counted_off y]) @ ys'" using Suc.prems ys by (simp add: st_set_def)
      have step: "st_beat_loop p code gen [?k..<?k + Suc n] any s = st_beat_loop p code gen [Suc ?k..<Suc ?k + n] any ?s"
        unfolding upt using True Inr slot by (simp add: bind_exec_def)
      have "length ys' = n" "\<forall>t \<in> set ys'. at_rest t" "st_external ?s = []" using Suc.prems ys by (simp_all add: st_set_def)
      from Suc.IH [OF this(1,2) reg this(3)] show ?thesis
        using True Inr ys unfolding step by (simp add: st_set_def del: upt_Suc split: sum.splits)
    qed
  next
    case False
    have reg: "st_registry s = (xs @ [y]) @ ys'" using Suc.prems ys by simp
    have step: "st_beat_loop p code gen [?k..<?k + Suc n] any s = st_beat_loop p code gen [Suc ?k..<Suc ?k + n] any s"
      unfolding upt using False slot by (simp add: bind_exec_def)
    have "length ys' = n" "\<forall>t \<in> set ys'. at_rest t" using Suc.prems ys by simp_all
    from Suc.IH [OF this reg Suc.prems(4)] show ?thesis
      using False ys unfolding step by (simp add: counted_off_def [of y] del: upt_Suc split: sum.splits)
  qed
qed

lemma rest_beat:
  assumes "\<forall>t \<in> set (st_registry s). at_rest t" and "st_external s = []"
  shows "case count_down p (length (filter cancelled (st_registry s))) (st_unfinished_count s) of
      Inl e \<Rightarrow> \<exists>s'. st_beat_once p code s = (Inl e, s')
    | Inr u \<Rightarrow> st_beat_once p code s = (Inr False, s\<lparr>st_registry := map counted_off (st_registry s), st_unfinished_count := u\<rparr>)"
  using rest_loop [of "st_registry s" "length (st_registry s)" s "[]" p code "st_generation s" False] assms
  by (simp add: st_beat_once_def exec_defs del: upt_Suc split: sum.splits)

text \<open>Two beats of a wheel at rest, and what the poll then returns.\<close>

definition rest_result :: "nat \<Rightarrow> nat \<Rightarrow> bool poll" where
  "rest_result u sus = (if u = 0 then Ready True else if u = sus then Ready False else Pending)"

lemma rest_iter:
  assumes "\<forall>t \<in> set (st_registry s). at_rest t" and "st_external s = []"
  shows "case count_down p (length (filter cancelled (st_registry s)) + length (filter cancelled (st_registry s))) (st_unfinished_count s) of
      Inl e \<Rightarrow> \<exists>s'. st_poll_iter p code w s = (Inl e, s')
    | Inr u \<Rightarrow> \<exists>s'. st_poll_iter p code w s = (Inr (Some (rest_result u (st_suspended_count s))), s')
        \<and> st_unfinished_count s' = u \<and> st_registry s' = map counted_off (st_registry s)"
proof -
  let ?c = "length (filter cancelled (st_registry s))"
  note b1 = rest_beat [OF assms, of p code]
  show ?thesis
  proof (cases "count_down p ?c (st_unfinished_count s)")
    case (Inl e)
    then show ?thesis using b1 by (auto simp: count_down_add st_poll_iter_def bind_exec_def)
  next
    case (Inr u)
    let ?s1 = "s\<lparr>st_registry := map counted_off (st_registry s), st_unfinished_count := u\<rparr>"
    let ?s2 = "st_register_waker w (st_deliver ?s1)"
    have del: "st_deliver t = t" if "st_external t = []" for t :: "('a, 'b) static_alg" using that by (simp add: st_deliver_def)
    have s2: "\<forall>t \<in> set (st_registry ?s2). at_rest t" "st_external ?s2 = []" "length (filter cancelled (st_registry ?s2)) = ?c"
      "st_unfinished_count ?s2 = u" "map counted_off (st_registry ?s2) = map counted_off (st_registry s)"
      "st_suspended_count ?s2 = st_suspended_count s"
      using assms by (auto simp: del st_register_waker_def filter_map comp_def)
    note b2 = rest_beat [OF s2(1,2), of p code, unfolded s2(3,4,5)]
    have first: "st_beat_once p code s = (Inr False, ?s1)" using b1 Inr by simp
    show ?thesis
    proof (cases "count_down p ?c u")
      case (Inl e)
      then show ?thesis using b2 Inr first
        by (auto simp: count_down_add st_poll_iter_def bind_exec_def modify_exec_def)
    next
      case inr: (Inr u')
      then have "st_beat_once p code ?s2 = (Inr False, ?s2\<lparr>st_registry := map counted_off (st_registry s), st_unfinished_count := u'\<rparr>)"
        using b2 by simp
      then show ?thesis using Inr inr first s2(2,6)
        by (auto simp: count_down_add st_poll_iter_def exec_defs rest_result_def del st_clear_waker_def)
    qed
  qed
qed

lemma rest_poll:
  assumes "\<forall>t \<in> set (st_registry s). at_rest t" and "st_external s = []"
    and "st_unfinished_count s \<le> usize_MAX" and "2 * length (filter cancelled (st_registry s)) \<le> usize_MAX"
  shows "case usize_sub p (st_unfinished_count s) (2 * length (filter cancelled (st_registry s))) of
      Inl e \<Rightarrow> \<exists>s'. sw_poll p code w (Suc n) s = Some (Inl e, s')
    | Inr u \<Rightarrow> \<exists>s'. sw_poll p code w (Suc n) s = Some (Inr (rest_result u (st_suspended_count s)), s')
        \<and> st_unfinished_count s' = u \<and> st_registry s' = map counted_off (st_registry s)"
proof -
  have *: "count_down p (length (filter cancelled (st_registry s)) + length (filter cancelled (st_registry s))) (st_unfinished_count s)
      = usize_sub p (st_unfinished_count s) (2 * length (filter cancelled (st_registry s)))"
    using assms(3,4) by (subst count_down_eq) (simp_all add: mult_2)
  have "\<forall>t \<in> set (st_registry (st_clear_waker s)). at_rest t" "st_external (st_clear_waker s) = []"
    using assms(1,2) by (simp_all add: st_clear_waker_def)
  from rest_iter [OF this, of p code w] show ?thesis
    unfolding sw_poll_def st_poll_internal_def
    by (auto simp: * st_clear_waker_def split: sum.splits)
qed

text \<open>The count that marks a scheduler as never initialised makes \<open>init\<close> panic when the tasks have their flags.\<close>

lemma relock_panics:
  assumes "\<not> st_lock s" and "st_unfinished_count s = usize_MAX" and "st_registry s = t # ts" and "sf_flags t \<noteq> None"
  shows "fst (sw_try_lock p code s) \<in> {Inl (Panic ''called `Option::unwrap()` on a `None` value''), Inl process_abort}"
proof -
  have upt: "[0..<Suc (length ts)] = 0 # [Suc 0..<Suc (length ts)]" by (simp add: upt_conv_Cons del: upt_Suc)
  have "st_init p code (s\<lparr>st_lock := True\<rparr>) = (Inl (Panic ''called `Option::unwrap()` on a `None` value''), s\<lparr>st_lock := True\<rparr>)"
    using assms by (simp add: st_init_def exec_defs upt sf_init_def slot_gets_def del: upt_Suc)
  then show ?thesis
    using assms(1) by (auto simp: sw_try_lock_def exec_defs catch_exec_def split: prod.splits sum.splits)
qed

text \<open>
  C33. Cancelling breaks the count of unfinished tasks: nothing records that a cancelled task was counted down, so every
  poll counts it down twice, once in each of its two beats. This is shown of every wheel at rest (each task finished,
  suspended, waiting, or cancelled with its future gone) without wakes of other threads, with \<open>c > 0\<close> cancelled tasks and
  \<open>u\<close> counted as unfinished. If \<open>2 * c \<le> u\<close> the poll leaves \<open>u - 2 * c\<close>, with the same tasks cancelled, and answers by that
  count; otherwise it panics with an overflow in a debug build, and in a release build the count wraps. Where it wraps to
  \<open>usize::MAX\<close>, the mark of a scheduler that was never initialised, locking the definition again panics.
\<close>

theorem static_cancel_breaks:
  assumes "\<forall>t \<in> set (st_registry s). at_rest t" and "st_external s = []" and "u = st_unfinished_count s" and "u \<le> usize_MAX"
    and "c = length (filter cancelled (st_registry s))" and "0 < c" and "2 * c \<le> usize_MAX"
  shows "(2 * c \<le> u \<longrightarrow> (\<exists>s'. sw_poll p code w (Suc n) s = Some (Inr (rest_result (u - 2 * c) (st_suspended_count s)), s')
        \<and> st_unfinished_count s' = u - 2 * c \<and> length (filter cancelled (st_registry s')) = c))
    \<and> (u < 2 * c \<and> p = Debug \<longrightarrow> (\<exists>s'. sw_poll p code w (Suc n) s = Some (Inl ArithOverflow, s')))
    \<and> (u < 2 * c \<and> p = Release \<longrightarrow> (\<exists>r s'. sw_poll p code w (Suc n) s = Some (Inr r, s')
        \<and> st_unfinished_count s' = usize_MAX + 1 + u - 2 * c \<and> length (filter cancelled (st_registry s')) = c))
    \<and> (\<forall>s' t ts. \<not> st_lock s' \<and> st_unfinished_count s' = usize_MAX \<and> st_registry s' = t # ts \<and> sf_flags t \<noteq> None \<longrightarrow>
        fst (sw_try_lock p code s') \<in> {Inl (Panic ''called `Option::unwrap()` on a `None` value''), Inl process_abort})"
proof -
  note poll = rest_poll [OF assms(1,2) assms(4,7) [unfolded assms(3,5)], of p code w n, folded assms(3,5)]
  have same: "length (filter cancelled (st_registry s')) = c" if "st_registry s' = map counted_off (st_registry s)" for s' :: "('a, 'b) static_alg"
    using that by (simp add: assms(5) filter_map comp_def)
  have "2 * c \<le> u \<longrightarrow> (\<exists>s'. sw_poll p code w (Suc n) s = Some (Inr (rest_result (u - 2 * c) (st_suspended_count s)), s')
        \<and> st_unfinished_count s' = u - 2 * c \<and> length (filter cancelled (st_registry s')) = c)"
    using poll same by (auto simp: usize_sub_def)
  moreover have "u < 2 * c \<and> p = Debug \<longrightarrow> (\<exists>s'. sw_poll p code w (Suc n) s = Some (Inl ArithOverflow, s'))"
    using poll by (auto simp: usize_sub_def)
  moreover have "u < 2 * c \<and> p = Release \<longrightarrow> (\<exists>r s'. sw_poll p code w (Suc n) s = Some (Inr r, s')
        \<and> st_unfinished_count s' = usize_MAX + 1 + u - 2 * c \<and> length (filter cancelled (st_registry s')) = c)"
    using poll same by (auto simp: usize_sub_def)
  ultimately show ?thesis using relock_panics by blast
qed

theorem static_cancel_breaks_witness:
  "\<exists>s'. sw_poll Debug idle_code 7 1 (snd (sh_cancel Debug 0 1 (one_locked Debug))) = Some (Inl ArithOverflow, s')"
proof -
  let ?s = "snd (sh_cancel Debug 0 1 (one_locked Debug))"
  have "\<forall>t \<in> set (st_registry ?s). at_rest t" "st_external ?s = []" "st_unfinished_count ?s = 1"
    "length (filter cancelled (st_registry ?s)) = 1"
    by (simp_all add: run one_defs at_rest_def cancelled_def cong: run_cong)
  then show ?thesis using static_cancel_breaks [of ?s 1 1 Debug idle_code 7 0] by (simp add: usize_MAX_def)
qed

subsection \<open>Suspending a task that restarts\<close>

lemma deliver_reason:
  "sf_stop_reason (st_registry (st_deliver s) ! k) = sf_stop_reason (st_registry s ! k)"
  "length (st_registry (st_deliver s)) = length (st_registry s)"
  "st_suspended_count (st_deliver s) = st_suspended_count s"
proof -
  have w: "length (st_registry (st_wake j s)) = length (st_registry s)
      \<and> sf_stop_reason (st_registry (st_wake j s) ! k) = sf_stop_reason (st_registry s ! k)
      \<and> st_suspended_count (st_wake j s) = st_suspended_count s" for j and s :: "('a, 'b) static_alg"
    by (cases "j = k"; cases "k < length (st_registry s)") (simp_all add: st_wake_def st_notify_wake_def st_set_def not_less list_update_beyond)
  have "length (st_registry (fold st_wake ws s)) = length (st_registry s)
      \<and> sf_stop_reason (st_registry (fold st_wake ws s) ! k) = sf_stop_reason (st_registry s ! k)
      \<and> st_suspended_count (fold st_wake ws s) = st_suspended_count s" for ws and s :: "('a, 'b) static_alg"
    by (induction ws arbitrary: s) (simp_all add: w)
  then show "sf_stop_reason (st_registry (st_deliver s) ! k) = sf_stop_reason (st_registry s ! k)"
    "length (st_registry (st_deliver s)) = length (st_registry s)" "st_suspended_count (st_deliver s) = st_suspended_count s"
    by (simp_all add: st_deliver_def split: list.split)
qed

lemma st_restart_reason:
  assumes "st_restart p k s = (Inr True, s1)"
  shows "k < length (st_registry s1)" "sf_stop_reason (st_registry s1 ! k) = StRestart"
  using assms
  by (auto simp: st_restart_def exec_defs st_get_def set_reason_def st_set_def st_sub_suspended_def inc_unfinished_def
      split: if_splits st_reason.splits sum.splits)

lemma st_suspend_restart:
  assumes "st_suspend p k s = (Inr b, s')" and "k < length (st_registry s)" and "sf_stop_reason (st_registry s ! k) = StRestart"
  shows "b" "sf_stop_reason (st_registry s' ! k) = StRestartSuspended" "k < length (st_registry s')"
    "st_suspended_count s < usize_MAX \<Longrightarrow> st_suspended_count s' = st_suspended_count s + 1"
  using assms
  by (auto simp: st_suspend_def exec_defs st_get_def set_reason_def st_set_def st_add_suspended_def split: sum.splits)

lemma keeps_stop_ops: "keeps (good n g) static_panic (st_restart p k)" "keeps (good n g) static_panic (st_suspend p k)"
proof -
  show "keeps (good n g) static_panic (st_restart p k)"
    by (rule held_good) (auto simp: st_restart_def intro!: keeps split: option.split st_reason.split)
  show "keeps (good n g) static_panic (st_suspend p k)"
    by (rule held_good) (auto simp: st_suspend_def intro!: keeps split: option.split st_reason.split)
qed

lemma reset_reason:
  assumes "sf_reset k False s = (Inr x, s')" and "k < length (st_registry s)"
  shows "sf_stop_reason (st_registry s' ! k) = StNone" "sf_flags (st_registry s' ! k) = Some True" "k < length (st_registry s')"
    "st_suspended_count s' = st_suspended_count s"
  using assms
  by (auto simp: sf_reset_def sf_set_runnable_def get_flags_def set_reason_def slot_gets_def exec_defs st_set_def split: option.splits)

text \<open>The visit of a task that restarts suspended, whatever its destructor does.\<close>

lemma restart_suspended_visit:
  assumes g: "good n g s" and k: "k < n" and r: "sf_stop_reason (st_registry s ! k) = StRestartSuspended"
    and visit: "st_beat_slot p code gen k any s = (Inr any', s')"
  shows "any' = any" "sf_stop_reason (st_registry s' ! k) = StNone" "sf_flags (st_registry s' ! k) = Some True" "k < length (st_registry s')"
    "sf_memory (st_registry s ! k) = None \<Longrightarrow> st_suspended_count s' = st_suspended_count s"
proof -
  let ?s1 = "st_set k (\<lambda>t. t\<lparr>sf_stop_reason := StSuspended\<rparr>) (st_deliver s)"
  have g1: "good n g ?s1" using g by (intro good_set) (simp_all add: slot_of_def)
  have "st_beat_slot p code gen k any s = bind_exec (sf_cancel p code k usize_MAX True) (\<lambda>_.
      bind_exec (sf_reset k False) (\<lambda>_. return_exec any)) ?s1"
    using r by (simp add: st_beat_slot_def exec_defs slot_gets_def deliver_reason(1) set_reason_def)
  then obtain s2 x where c: "sf_cancel p code k usize_MAX True ?s1 = (Inr (), s2)" and z: "sf_reset k False s2 = (Inr x, s')" "any' = any"
    using visit by (auto simp: bind_exec_def return_exec_def split: prod.splits sum.splits)
  have k2: "k < length (st_registry s2)"
    using wpx_InrD [OF keepsD [OF sf_cancel_good [OF k] g1] c] k by (simp add: good_length)
  show "any' = any" by (rule z(2))
  show "sf_stop_reason (st_registry s' ! k) = StNone" "sf_flags (st_registry s' ! k) = Some True" "k < length (st_registry s')"
    using reset_reason [OF z(1) k2] by simp_all
  show "st_suspended_count s' = st_suspended_count s" if m: "sf_memory (st_registry s ! k) = None"
  proof -
    obtain X where X: "length X = n" "\<forall>x \<in> set X. slot_ok x \<and> \<not> sl_polling x" "held X g s" "held X g ?s1"
      using g by (auto simp: good_def held_set_same slot_of_def)
    have kX: "k < length X" using X(1) k by simp
    have "sl_memory (X ! k) = None" using m held_nth [OF X(3) kX, symmetric] by (simp add: slot_of_def)
    then have "sl_flag (X ! k) \<noteq> FLAG_CREATED" "\<not> sl_polling (X ! k)"
      using X(2) nth_mem [OF kX] by (auto simp: slot_ok_def)
    then have t: "sf_init_flag (st_registry ?s1 ! k) \<noteq> FLAG_CREATED" "\<not> sf_polling (st_registry ?s1 ! k)"
      using held_nth [OF X(4) kX, symmetric] by (simp_all add: slot_of_def)
    have "k < length (st_registry ?s1)" using held_length [OF X(4)] X(1) k by simp
    then have "st_suspended_count s2 = st_suspended_count ?s1"
      using c t by (auto simp: sf_cancel_def poll_protected_def handle_task_def drop_anyways_def flag_defs set_flag_def slot_gets_def exec_defs
          st_set_def split: if_splits)
    then show ?thesis using reset_reason(4) [OF z(1) k2] by (simp add: st_set_def deliver_reason(3))
  qed
qed

text \<open>
  C34. A suspension that follows a restart is lost. In every run of a static wheel, for every task and whatever its code
  does: when \<open>restart\<close> answered true, \<open>suspend\<close> answers true as well, and the task shows as suspended; but the visit that
  carries the restart out, if it does not panic, leaves the task runnable, because it resets the stop reason it has just
  set. If the task had no future to drop, the count of suspended tasks keeps counting it.
\<close>

theorem restart_suspend_lost:
  assumes "static_run p code config e s" and "st_restart p k s = (Inr True, s1)" and "st_suspend p k s1 = (Inr b, s2)"
    and "st_beat_slot p code gen k any s2 = (Inr any', s3)"
  shows "b \<and> st_get_state k s2 = (Inr Suspended, s2) \<and> any' = any \<and> st_get_state k s3 = (Inr Runnable, s3)
    \<and> (sf_memory (st_registry s2 ! k) = None \<and> st_suspended_count s1 < usize_MAX \<longrightarrow>
         st_suspended_count s3 = st_suspended_count s1 + 1)"
proof -
  obtain g where g: "good (length config) g s" using static_run_good [OF assms(1)] by blast
  have g1: "good (length config) g s1" by (rule wpx_InrD [OF keepsD [OF keeps_stop_ops(1) g] assms(2)])
  have g2: "good (length config) g s2" by (rule wpx_InrD [OF keepsD [OF keeps_stop_ops(2) g1] assms(3)])
  note r = st_restart_reason [OF assms(2)]
  note u = st_suspend_restart [OF assms(3) r]
  have k: "k < length config" using r(1) good_length [OF g1] by simp
  note v = restart_suspended_visit [OF g2 k u(2) assms(4)]
  show ?thesis
    using u v by (auto simp: st_get_state_def st_get_def exec_defs get_flags_def)
qed

theorem restart_suspend_lost_witness:
  "\<exists>s1 s2 s3. st_restart Debug 0 (one_locked Debug) = (Inr True, s1) \<and> st_suspend Debug 0 s1 = (Inr True, s2)
     \<and> st_beat_slot Debug idle_code 0 0 False s2 = (Inr False, s3) \<and> st_get_state 0 s3 = (Inr Runnable, s3)"
proof -
  obtain s1 where s1: "st_restart Debug 0 (one_locked Debug) = (Inr True, s1)" by (simp add: run one_defs cong: run_cong)
  then have e1: "s1 = snd (st_restart Debug 0 (one_locked Debug))" by simp
  obtain s2 where s2: "st_suspend Debug 0 s1 = (Inr True, s2)" unfolding e1 by (simp add: run one_defs cong: run_cong)
  then have e2: "s2 = snd (st_suspend Debug 0 s1)" by simp
  obtain s3 where s3: "st_beat_slot Debug idle_code 0 0 False s2 = (Inr False, s3)"
    unfolding e2 e1 by (simp add: run one_defs cong: run_cong)
  show ?thesis using restart_suspend_lost [OF one_locked_run s1 s2 s3] s1 s2 s3 by blast
qed

subsection \<open>Example runs\<close>

text \<open>
  An example: with one cancelled task a poll that should
  return \<open>Ready(true)\<close> panics with an overflow in a debug build. In a release build the count wraps
  to \<open>usize::MAX\<close> and the poll returns \<open>Pending\<close>; as that value marks a scheduler that was never
  initialised, locking the definition again after the wheel is dropped panics.
\<close>

lemma static_cancel_jams:
  "(\<exists>s. sw_poll Debug idle_code 7 3 (snd (sh_cancel Debug 0 1 (one_locked Debug))) = Some (Inl ArithOverflow, s))
   \<and> (\<exists>s s' s''. sw_poll Release idle_code 7 3 (snd (sh_cancel Release 0 1 (one_locked Release))) = Some (Inr Pending, s)
        \<and> st_unfinished_count s = usize_MAX \<and> sw_drop Release idle_code s = (Inr (), s')
        \<and> sw_try_lock Release idle_code s' = (Inl (Panic ''called `Option::unwrap()` on a `None` value''), s''))"
proof (rule conjI)
  show "\<exists>s. sw_poll Debug idle_code 7 3 (snd (sh_cancel Debug 0 1 (one_locked Debug))) = Some (Inl ArithOverflow, s)"
    by (simp add: run one_defs cong: run_cong)
  let ?c = "snd (sh_cancel Release 0 1 (one_locked Release))"
  obtain s where p: "sw_poll Release idle_code 7 3 ?c = Some (Inr Pending, s)" by (simp add: run one_defs cong: run_cong)
  then have s: "s = snd (the (sw_poll Release idle_code 7 3 ?c))" by simp
  have "st_unfinished_count s = usize_MAX" unfolding s by (simp add: run one_defs cong: run_cong)
  moreover obtain s' where d: "sw_drop Release idle_code s = (Inr (), s')"
    unfolding s by (simp add: run one_defs cong: run_cong)
  moreover have "s' = snd (sw_drop Release idle_code s)" using d by simp
  then have "\<exists>s''. sw_try_lock Release idle_code s' = (Inl (Panic ''called `Option::unwrap()` on a `None` value''), s'')"
    unfolding s by (simp add: run one_defs ex_bool_eq cong: run_cong)
  ultimately show "\<exists>s s' s''. sw_poll Release idle_code 7 3 ?c = Some (Inr Pending, s)
        \<and> st_unfinished_count s = usize_MAX \<and> sw_drop Release idle_code s = (Inr (), s')
        \<and> sw_try_lock Release idle_code s' = (Inl (Panic ''called `Option::unwrap()` on a `None` value''), s'')"
    using p by blast
qed

text \<open>
  An example of the other: here \<open>suspend\<close> answers true and counts the task, but the
  round that carries out the restart resets the task to runnable, so that it runs although it was
  suspended, and the poll then returns \<open>Ready(false)\<close> for a task that only waits.
\<close>

lemma restart_suspend_waits:
  "\<exists>s s'. sh_suspend Debug 0 1 (snd (sh_restart Debug 0 1 (one_locked Debug))) = (Inr True, s)
    \<and> sw_poll Debug idle_code 7 3 s = Some (Inr (Ready False), s')
    \<and> st_polled s' = [0] \<and> st_get_state 0 s' = (Inr Waiting, s') \<and> st_suspended_count s' = 1"
  by (simp add: run one_defs cong: run_cong)

end
