(* ===== verification/Critical_Section.thy ===== *)
theory Critical_Section
  imports Juggle_Prelude
begin

text \<open>
  Threads that guard a section by a shared mark. The operations on \<open>AtomicMarkerOption\<close>
  (\<open>src/st/atomic_marker.rs\<close>) and \<open>IrqSignal\<close> (\<open>src/utils/signal.rs\<close>) have this form: a thread enters its
  section from a free mark, and what the others do to the mark meanwhile leaves it in the set of marks that
  belong to the section.
\<close>

locale critical_section =
  fixes mark :: "'s \<Rightarrow> 'm" and pc :: "'s \<Rightarrow> nat \<Rightarrow> 'p"
    and holds :: "'p \<Rightarrow> 'm set" and free :: "'m set"
  assumes free_outside: "m \<in> free \<Longrightarrow> m \<notin> holds p"
begin

definition exclusive :: "'s \<Rightarrow> bool" where
  "exclusive s \<longleftrightarrow> (\<forall>t. holds (pc s t) \<noteq> {} \<longrightarrow> mark s \<in> holds (pc s t))
     \<and> (\<forall>t t'. holds (pc s t) \<noteq> {} \<longrightarrow> holds (pc s t') \<noteq> {} \<longrightarrow> t = t')"

lemma exclusive_initially: "(\<And>t. holds (pc s t) = {}) \<Longrightarrow> exclusive s"
  by (simp add: exclusive_def)

lemma inside_mark: "exclusive s \<Longrightarrow> pc s t = p \<Longrightarrow> holds p \<noteq> {} \<Longrightarrow> mark s \<in> holds p"
  by (auto simp: exclusive_def)

lemma inside_once: "exclusive s \<Longrightarrow> holds (pc s t) \<noteq> {} \<Longrightarrow> holds (pc s t') \<noteq> {} \<Longrightarrow> t = t'"
  by (simp add: exclusive_def)

lemma alone_inside: "exclusive s \<Longrightarrow> holds (pc s t) \<noteq> {} \<Longrightarrow> t' \<noteq> t \<Longrightarrow> holds (pc s t') = {}"
  by (auto simp: exclusive_def)

lemma alone_free: "exclusive s \<Longrightarrow> mark s \<in> free \<Longrightarrow> holds (pc s t) = {}"
  using free_outside by (auto simp: exclusive_def)

text \<open>
  A step of thread \<open>t\<close>: from a free mark or from inside it may change the mark as its next
  section asks; from outside it may only change it within the sections of the others.
\<close>

lemma exclusive_move:
  assumes "exclusive s" and "pc s' = (pc s)(t := p)" and "holds p \<noteq> {} \<Longrightarrow> mark s' \<in> holds p"
    and "mark s \<in> free \<or> holds (pc s t) \<noteq> {}
      \<or> holds p = {} \<and> (\<forall>q. mark s \<in> holds q \<longrightarrow> mark s' \<in> holds q)"
  shows "exclusive s'"
proof -
  have "(\<forall>t'. t' \<noteq> t \<longrightarrow> holds (pc s t') = {}) \<or> holds p = {} \<and> (\<forall>q. mark s \<in> holds q \<longrightarrow> mark s' \<in> holds q)"
    using assms(4) alone_free [OF assms(1)] alone_inside [OF assms(1), of t] by blast
  with assms(1-3) show ?thesis unfolding exclusive_def by (auto split: if_splits)
qed

end

end
