(* ===== verification/Atomic_Marker.thy ===== *)
theory Atomic_Marker
  imports Critical_Section
begin

text \<open>
  \<open>src/st/atomic_marker.rs\<close>: \<open>AtomicMarkerOption\<close>, an optional value guarded by two bits. Threads run \<open>put\<close>,
  \<open>clear\<close>, \<open>try_put\<close> and \<open>take\<close> in any interleaving, at sequential consistency; every atomic operation and
  every access to the value is a step of its own. A failed \<open>debug_assert\<close> stops the thread at \<open>MFailed\<close>.
\<close>

unbundle bit_operations_syntax

subsection \<open>State\<close>

type_synonym usize = "64 word"

definition IDLE :: usize where "IDLE = 0"
definition PUTTING :: usize where "PUTTING = 1"
definition MARKING :: usize where "MARKING = 2"

lemmas marks = IDLE_def PUTTING_def MARKING_def

text \<open>\<open>Option<Result<T, &T>>\<close>: nothing, an owned value, or one to clone.\<close>

datatype 'a put_arg = Nothing | Own 'a | Borrow 'a

primrec arg_value :: "'a put_arg \<Rightarrow> 'a option" where
  "arg_value Nothing = None"
| "arg_value (Own v) = Some v"
| "arg_value (Borrow v) = Some v"

text \<open>\<open>value.and_then(|v| v.ok())\<close>: an owned value is given back.\<close>

primrec arg_back :: "'a put_arg \<Rightarrow> 'a option" where
  "arg_back Nothing = None"
| "arg_back (Own v) = Some v"
| "arg_back (Borrow v) = None"

datatype 'a marker_result =
    Success
  | TakenDuringPut "'a option"
  | TakenBeforePut "'a option"
  | ConcurrentPut "'a option"
  | TakeSome 'a
  | TakeNone
  | ConcurrentTake
  | TakeConcurrentPut

text \<open>\<open>put(&w)\<close> and \<open>clear\<close> try again until they succeed.\<close>

datatype 'a caller = Once | PutLoop 'a | ClearLoop

datatype 'a mpc =
    MIdle
  | PutTry "'a caller" "'a put_arg"
  | PutWrite "'a caller" "'a put_arg"
  | PutRelease "'a caller" "'a put_arg"
  | PutTake "'a caller" "'a put_arg"
  | PutClear "'a caller" "'a put_arg" "'a option"
  | PutReset "'a caller" "'a put_arg" "'a option"
  | TakeTry
  | TakeRead
  | TakeClear "'a option"
  | TakeRelease "'a option"
  | MReturned "'a marker_result"
  | MFailed

record 'a marker =
  am_mark :: usize
  am_value :: "'a option"
  am_thread :: "nat \<Rightarrow> 'a mpc"

definition marker_new :: "'a option \<Rightarrow> 'a marker" where
  "marker_new v = \<lparr>am_mark = IDLE, am_value = v, am_thread = (\<lambda>_. MIdle)\<rparr>"

definition go :: "nat \<Rightarrow> 'a mpc \<Rightarrow> 'a marker \<Rightarrow> 'a marker" where
  "go t pc s = s\<lparr>am_thread := (am_thread s)(t := pc)\<rparr>"

subsection \<open>Steps\<close>

text \<open>How a caller goes on with the result of \<open>try_put\<close>.\<close>

fun put_next :: "'a caller \<Rightarrow> 'a marker_result \<Rightarrow> 'a mpc" where
  "put_next (PutLoop w) (TakenDuringPut (Some v)) = PutTry (PutLoop w) (Own v)"
| "put_next (PutLoop w) (ConcurrentPut (Some v)) = PutTry (PutLoop w) (Own v)"
| "put_next (PutLoop w) (TakenBeforePut (Some v)) = PutTry (PutLoop w) (Own v)"
| "put_next (PutLoop w) (TakenDuringPut None) = PutTry (PutLoop w) (Borrow w)"
| "put_next (PutLoop w) (ConcurrentPut None) = PutTry (PutLoop w) (Borrow w)"
| "put_next (PutLoop w) (TakenBeforePut None) = PutTry (PutLoop w) (Borrow w)"
| "put_next ClearLoop (TakenDuringPut v) = PutTry ClearLoop Nothing"
| "put_next ClearLoop (ConcurrentPut v) = PutTry ClearLoop Nothing"
| "put_next ClearLoop (TakenBeforePut v) = PutTry ClearLoop Nothing"
| "put_next _ r = MReturned r"

definition put_enter :: "'a caller \<Rightarrow> 'a put_arg \<Rightarrow> nat \<Rightarrow> 'a marker \<Rightarrow> 'a marker" where
  "put_enter c arg t s =
     (if am_mark s = IDLE then go t (PutWrite c arg) (s\<lparr>am_mark := PUTTING\<rparr>)
      else if am_mark s = MARKING then go t (put_next c (TakenBeforePut (arg_back arg))) s
      else if am_mark s = PUTTING \<or> am_mark s = PUTTING OR MARKING then go t (put_next c (ConcurrentPut (arg_back arg))) s
      else go t MFailed s)"

definition put_release :: "'a caller \<Rightarrow> 'a put_arg \<Rightarrow> nat \<Rightarrow> 'a marker \<Rightarrow> 'a marker" where
  "put_release c arg t s =
     (if am_mark s = PUTTING then go t (put_next c Success) (s\<lparr>am_mark := IDLE\<rparr>)
      else if am_mark s = PUTTING OR MARKING then go t (PutTake c arg) s
      else go t MFailed s)"

definition take_enter :: "nat \<Rightarrow> 'a marker \<Rightarrow> 'a marker" where
  "take_enter t s =
     (let mark = am_mark s; s' = s\<lparr>am_mark := mark OR MARKING\<rparr> in
      if mark = IDLE then go t TakeRead s'
      else if mark = PUTTING \<or> mark = PUTTING OR MARKING \<or> mark = MARKING then
        go t (MReturned (if mark AND MARKING \<noteq> 0 then ConcurrentTake else TakeConcurrentPut)) s'
      else go t MFailed s')"

inductive marker_step :: "'a marker \<Rightarrow> 'a marker \<Rightarrow> bool" where
  call_try_put: "am_thread s t = MIdle \<Longrightarrow> marker_step s (go t (PutTry Once arg) s)"
| call_put: "am_thread s t = MIdle \<Longrightarrow> marker_step s (go t (PutTry (PutLoop w) (Borrow w)) s)"
| call_clear: "am_thread s t = MIdle \<Longrightarrow> marker_step s (go t (PutTry ClearLoop Nothing) s)"
| call_take: "am_thread s t = MIdle \<Longrightarrow> marker_step s (go t TakeTry s)"
| put_enters: "am_thread s t = PutTry c arg \<Longrightarrow> marker_step s (put_enter c arg t s)"
| put_writes: "am_thread s t = PutWrite c arg \<Longrightarrow> marker_step s (go t (PutRelease c arg) (s\<lparr>am_value := arg_value arg\<rparr>))"
| put_releases: "am_thread s t = PutRelease c arg \<Longrightarrow> marker_step s (put_release c arg t s)"
| put_takes: "am_thread s t = PutTake c arg \<Longrightarrow> marker_step s (go t (PutClear c arg (am_value s)) s)"
| put_clears: "am_thread s t = PutClear c arg v \<Longrightarrow> marker_step s (go t (PutReset c arg v) (s\<lparr>am_value := None\<rparr>))"
| put_resets: "am_thread s t = PutReset c arg v \<Longrightarrow> marker_step s (go t (put_next c (TakenDuringPut v)) (s\<lparr>am_mark := IDLE\<rparr>))"
| take_enters: "am_thread s t = TakeTry \<Longrightarrow> marker_step s (take_enter t s)"
| take_reads: "am_thread s t = TakeRead \<Longrightarrow> marker_step s (go t (TakeClear (am_value s)) s)"
| take_clears: "am_thread s t = TakeClear v \<Longrightarrow> marker_step s (go t (TakeRelease v) (s\<lparr>am_value := None\<rparr>))"
| take_releases: "am_thread s t = TakeRelease v \<Longrightarrow> marker_step s
    (go t (MReturned (case v of Some x \<Rightarrow> TakeSome x | None \<Rightarrow> TakeNone)) (s\<lparr>am_mark := am_mark s AND NOT MARKING\<rparr>))"
| returns: "am_thread s t = MReturned r \<Longrightarrow> marker_step s (go t MIdle s)"

inductive marker_run :: "'a option \<Rightarrow> 'a marker \<Rightarrow> bool" for v0 where
  init: "marker_run v0 (marker_new v0)"
| step: "marker_run v0 s \<Longrightarrow> marker_step s s' \<Longrightarrow> marker_run v0 s'"

subsection \<open>The waker slots on top of it\<close>

text \<open>
  \<open>AtomicWaker\<close> and \<open>WakerRegistry\<close>, which the crate does not use, hold a marker with a waker. The calls that forward to
  the marker start its call; \<open>notify_wake\<close>, \<open>start_listen\<close> and \<open>notify_waker\<close> have empty bodies, and \<open>register\<close> and \<open>take\<close>
  of the registry are \<open>todo!()\<close>.
\<close>

definition aw_empty :: "'w marker" where
  "aw_empty = marker_new None"

definition aw_register :: "'w \<Rightarrow> nat \<Rightarrow> 'w marker \<Rightarrow> 'w marker" where
  "aw_register waker t s = go t (PutTry (PutLoop waker) (Borrow waker)) s"

definition aw_clear :: "nat \<Rightarrow> 'w marker \<Rightarrow> 'w marker" where
  "aw_clear t s = go t (PutTry ClearLoop Nothing) s"

definition aw_notify_wake :: "'w marker \<Rightarrow> 'w marker" where
  "aw_notify_wake s = s"

definition wr_new :: "'w marker" where
  "wr_new = marker_new None"

definition wr_register :: "'w \<Rightarrow> ('w marker, bool \<times> (unit + 'w)) exec" where
  "wr_register waker = lift_exec (Inl (Panic ''not yet implemented''))"

definition wr_take :: "('w marker, 'w option) exec" where
  "wr_take = lift_exec (Inl (Panic ''not yet implemented''))"

definition wr_start_listen :: "'w marker \<Rightarrow> 'w marker" where
  "wr_start_listen s = s"

definition wr_clear :: "nat \<Rightarrow> 'w marker \<Rightarrow> 'w marker" where
  "wr_clear t s = go t (PutTry ClearLoop Nothing) s"

definition wr_notify_waker :: "'w marker \<Rightarrow> 'w marker" where
  "wr_notify_waker s = s"

text \<open>The calls are calls of the marker, so that what holds of its runs holds of theirs.\<close>

lemma waker_slot_calls:
  "marker_run None aw_empty" "marker_run None wr_new"
  "marker_run v0 s \<Longrightarrow> am_thread s t = MIdle \<Longrightarrow> marker_run v0 (aw_register waker t s)"
  "marker_run v0 s \<Longrightarrow> am_thread s t = MIdle \<Longrightarrow> marker_run v0 (aw_clear t s)"
  "marker_run v0 s \<Longrightarrow> am_thread s t = MIdle \<Longrightarrow> marker_run v0 (wr_clear t s)"
  by (auto simp: aw_empty_def wr_new_def aw_register_def aw_clear_def wr_clear_def intro: marker_run.intros marker_step.intros)

subsection \<open>Exclusion\<close>

text \<open>What the bits are while a thread is in its exclusive section.\<close>

fun holds :: "'a mpc \<Rightarrow> usize set" where
  "holds (PutWrite c arg) = {PUTTING, PUTTING OR MARKING}"
| "holds (PutRelease c arg) = {PUTTING, PUTTING OR MARKING}"
| "holds (PutTake c arg) = {PUTTING OR MARKING}"
| "holds (PutClear c arg v) = {PUTTING OR MARKING}"
| "holds (PutReset c arg v) = {PUTTING OR MARKING}"
| "holds TakeRead = {MARKING}"
| "holds (TakeClear v) = {MARKING}"
| "holds (TakeRelease v) = {MARKING}"
| "holds _ = {}"

lemma marks_distinct [simp]: "IDLE \<noteq> PUTTING" "IDLE \<noteq> MARKING" "PUTTING \<noteq> IDLE" "MARKING \<noteq> IDLE" "PUTTING \<noteq> MARKING"
  "MARKING \<noteq> PUTTING" "PUTTING OR MARKING \<noteq> IDLE" "PUTTING OR MARKING \<noteq> PUTTING" "PUTTING OR MARKING \<noteq> MARKING"
  "IDLE \<noteq> PUTTING OR MARKING" "PUTTING \<noteq> PUTTING OR MARKING" "MARKING \<noteq> PUTTING OR MARKING"
  by (simp_all add: marks)

interpretation mk: critical_section am_mark am_thread holds "{IDLE}"
proof
  fix m and p :: "'a mpc"
  assume "m \<in> {IDLE}"
  then show "m \<notin> holds p" by (cases p) simp_all
qed

text \<open>What the value is while a thread is inside: what it stored, what it read, or nothing once it took it.\<close>

fun seen :: "'a mpc \<Rightarrow> 'a option \<Rightarrow> bool" where
  "seen (PutRelease c arg) x = (x = arg_value arg)"
| "seen (PutTake c arg) x = (x = arg_value arg)"
| "seen (PutClear c arg v) x = (x = arg_value arg \<and> v = arg_value arg)"
| "seen (PutReset c arg v) x = (x = None \<and> v = arg_value arg)"
| "seen (TakeClear v) x = (v = x)"
| "seen (TakeRelease v) x = (x = None)"
| "seen _ x = True"

definition marker_inv :: "'a marker \<Rightarrow> bool" where
  "marker_inv s \<longleftrightarrow>
     am_mark s \<in> {IDLE, PUTTING, MARKING, PUTTING OR MARKING} \<and> mk.exclusive s
     \<and> (\<forall>t. seen (am_thread s t) (am_value s)) \<and> (\<forall>t. am_thread s t \<noteq> MFailed)"

lemma go_simps [simp]:
  "am_mark (go t pc s) = am_mark s" "am_value (go t pc s) = am_value s" "am_thread (go t pc s) = (am_thread s)(t := pc)"
  by (simp_all add: go_def)

lemma put_next_outside [simp]: "holds (put_next c r) = {}" "seen (put_next c r) x" "put_next c r \<noteq> MFailed"
  by (induction c r rule: put_next.induct) simp_all

lemma mark_ops [simp]: "IDLE OR MARKING = MARKING" "MARKING OR MARKING = MARKING" "PUTTING OR MARKING OR MARKING = PUTTING OR MARKING"
  "MARKING AND NOT MARKING = IDLE"
  by (simp_all add: marks)

text \<open>
  A step of thread \<open>t\<close> that leaves the others alone: inside, it may change everything as long as its
  new section fits; outside, it may add the marking bit.
\<close>

lemma marker_inv_move:
  assumes inv: "marker_inv s" and mark: "am_mark s' \<in> {IDLE, PUTTING, MARKING, PUTTING OR MARKING}"
    and thr: "am_thread s' = (am_thread s)(t := pc)" "pc \<noteq> MFailed" "seen pc (am_value s')"
    and new: "holds pc \<noteq> {} \<Longrightarrow> am_mark s' \<in> holds pc"
    and alone: "am_mark s = IDLE \<or> holds (am_thread s t) \<noteq> {} \<or> (holds pc = {} \<and> am_value s' = am_value s
      \<and> (am_mark s' = am_mark s \<or> am_mark s = PUTTING \<and> am_mark s' = PUTTING OR MARKING))"
  shows "marker_inv s'"
proof -
  have ex: "mk.exclusive s" using inv by (simp add: marker_inv_def)
  have "PUTTING OR MARKING \<in> holds q" if "PUTTING \<in> holds q" for q :: "'a mpc" using that by (cases q) auto
  then have "mk.exclusive s'" using alone new by (intro mk.exclusive_move [OF ex thr(1)]) auto
  moreover have "seen (am_thread s t') (am_value s')" if "t' \<noteq> t" for t'
  proof (cases "holds (am_thread s t') = {}")
    case True
    then show ?thesis by (cases "am_thread s t'") simp_all
  next
    case False
    with alone that mk.alone_free [OF ex, of t'] mk.alone_inside [OF ex, of t t'] have "am_value s' = am_value s" by auto
    then show ?thesis using inv by (simp add: marker_inv_def)
  qed
  ultimately show ?thesis using inv mark thr unfolding marker_inv_def by (auto split: if_splits)
qed

lemma marker_inside: "marker_inv s \<Longrightarrow> am_thread s t = pc \<Longrightarrow> holds pc \<noteq> {} \<Longrightarrow> am_mark s \<in> holds pc"
  by (auto simp: marker_inv_def intro: mk.inside_mark)

lemma inside_seen: "marker_inv s \<Longrightarrow> am_thread s t = pc \<Longrightarrow> seen pc (am_value s)"
  by (auto simp: marker_inv_def)

lemma inv_mark: "marker_inv s \<Longrightarrow> am_mark s \<in> {IDLE, PUTTING, MARKING, PUTTING OR MARKING}"
  by (simp add: marker_inv_def)

text \<open>Entering: from the idle mark the thread is inside; otherwise it returns, and \<open>take\<close> leaves its bit.\<close>

lemma put_enter_inv:
  assumes inv: "marker_inv s"
  shows "marker_inv (put_enter c arg t s)"
proof (cases "am_mark s = IDLE")
  case True
  then show ?thesis
    by (intro marker_inv_move [OF inv, where t = t and pc = "PutWrite c arg"]) (auto simp: put_enter_def)
next
  case False
  let ?r = "if am_mark s = MARKING then TakenBeforePut (arg_back arg) else ConcurrentPut (arg_back arg)"
  from False inv_mark [OF inv] show ?thesis
    by (intro marker_inv_move [OF inv, where t = t and pc = "put_next c ?r"]) (auto simp: put_enter_def)
qed

lemma take_enter_inv:
  assumes inv: "marker_inv s"
  shows "marker_inv (take_enter t s)"
proof (cases "am_mark s = IDLE")
  case True
  then show ?thesis by (intro marker_inv_move [OF inv, where t = t and pc = TakeRead]) (auto simp: take_enter_def)
next
  case False
  let ?r = "if am_mark s AND MARKING \<noteq> 0 then ConcurrentTake else TakeConcurrentPut"
  from False inv_mark [OF inv] show ?thesis
    by (intro marker_inv_move [OF inv, where t = t and pc = "MReturned ?r"]) (auto simp: take_enter_def Let_def)
qed

lemma marker_inv_step:
  assumes "marker_step s s'" and inv: "marker_inv s"
  shows "marker_inv s'"
  using assms(1)
proof cases
  case (put_enters t c arg)
  then show ?thesis using put_enter_inv [OF inv] by simp
next
  case (put_releases t c arg)
  with marker_inside [OF inv put_releases(2)] inside_seen [OF inv put_releases(2)] show ?thesis
    by (intro marker_inv_move [OF inv, where t = t and pc = "if am_mark s = PUTTING then put_next c Success else PutTake c arg"])
       (auto simp: put_release_def)
next
  case (take_enters t)
  then show ?thesis using take_enter_inv [OF inv] by simp
next
  case (put_writes t c arg)
  with marker_inside [OF inv put_writes(2)] inside_seen [OF inv put_writes(2)] show ?thesis
    by (intro marker_inv_move [OF inv, where t = t and pc = "PutRelease c arg"]) auto
next
  case (put_takes t c arg)
  with marker_inside [OF inv put_takes(2)] inside_seen [OF inv put_takes(2)] show ?thesis
    by (intro marker_inv_move [OF inv, where t = t and pc = "PutClear c arg (am_value s)"]) auto
next
  case (put_clears t c arg v)
  with marker_inside [OF inv put_clears(2)] inside_seen [OF inv put_clears(2)] show ?thesis
    by (intro marker_inv_move [OF inv, where t = t and pc = "PutReset c arg v"]) auto
next
  case (put_resets t c arg v)
  with marker_inside [OF inv put_resets(2)] inside_seen [OF inv put_resets(2)] show ?thesis
    by (intro marker_inv_move [OF inv, where t = t and pc = "put_next c (TakenDuringPut v)"]) auto
next
  case (take_reads t)
  with marker_inside [OF inv take_reads(2)] inside_seen [OF inv take_reads(2)] show ?thesis
    by (intro marker_inv_move [OF inv, where t = t and pc = "TakeClear (am_value s)"]) auto
next
  case (take_clears t v)
  with marker_inside [OF inv take_clears(2)] inside_seen [OF inv take_clears(2)] show ?thesis
    by (intro marker_inv_move [OF inv, where t = t and pc = "TakeRelease v"]) auto
next
  case (take_releases t v)
  with marker_inside [OF inv take_releases(2)] inside_seen [OF inv take_releases(2)] show ?thesis
    by (intro marker_inv_move [OF inv, where t = t and pc = "MReturned (case v of Some x \<Rightarrow> TakeSome x | None \<Rightarrow> TakeNone)"]) (auto simp: IDLE_def)
qed (use inv_mark [OF inv] in \<open>auto intro!: marker_inv_move [OF inv]\<close>)

lemma marker_run_inv: "marker_run v0 s \<Longrightarrow> marker_inv s"
proof (induction rule: marker_run.induct)
  case init
  then show ?case by (simp add: marker_inv_def marker_new_def mk.exclusive_def)
qed (rule marker_inv_step)

subsection \<open>Properties\<close>

text \<open>
  C35. In every interleaving of \<open>put\<close>, \<open>clear\<close>, \<open>try_put\<close> and \<open>take\<close> at most one thread is in an exclusive
  section and the bits say which kind; none of the debug assertions fails; a \<open>put\<close> that finds it was
  taken meanwhile takes out the very value it stored, and it and a \<open>take\<close> leave the option empty, so
  that no value is handed out twice.
\<close>

theorem marker_exclusive:
  assumes "marker_run v0 s"
  shows "am_thread s t \<noteq> MFailed
    \<and> (holds (am_thread s t) \<noteq> {} \<and> holds (am_thread s t') \<noteq> {} \<longrightarrow> t = t')
    \<and> (holds (am_thread s t) \<noteq> {} \<longrightarrow> am_mark s \<in> holds (am_thread s t))
    \<and> (am_thread s t = PutReset c arg v \<longrightarrow> v = arg_value arg \<and> am_value s = None)
    \<and> (am_thread s t = TakeRelease v \<longrightarrow> am_value s = None)"
proof -
  have inv: "marker_inv s" by (rule marker_run_inv [OF assms])
  then have "seen (am_thread s t) (am_value s)" by (simp add: marker_inv_def)
  then have "am_thread s t = PutReset c arg v \<longrightarrow> v = arg_value arg \<and> am_value s = None"
    "am_thread s t = TakeRelease v \<longrightarrow> am_value s = None" by auto
  with inv show ?thesis unfolding marker_inv_def mk.exclusive_def by blast
qed

text \<open>A taker inside, and a thread that puts meanwhile.\<close>

definition busy_marker :: "nat marker" where
  "busy_marker = go 1 (PutTry Once (Own 7)) (take_enter 0 (go 0 TakeTry (marker_new (Some 5))))"

lemma busy_marker_run: "marker_run (Some 5) busy_marker"
  unfolding busy_marker_def
  by (rule marker_run.step [OF _ marker_step.call_try_put], rule marker_run.step [OF _ marker_step.take_enters],
      rule marker_run.step [OF marker_run.init marker_step.call_take])
     (simp_all add: marker_new_def take_enter_def)

theorem marker_exclusive_witness:
  "am_thread busy_marker 0 = TakeRead \<and> am_mark busy_marker = MARKING"
proof -
  have pc: "am_thread busy_marker 0 = TakeRead" by (simp add: busy_marker_def take_enter_def marker_new_def)
  then show ?thesis using marker_exclusive [OF busy_marker_run, of 0] by simp
qed

end
