(* ===== verification/Irq_Signal.thy ===== *)
theory Irq_Signal
  imports Critical_Section
begin

text \<open>
  \<open>src/utils/signal.rs\<close>: \<open>IrqSignal\<close>, a flag that interrupts set and one listener awaits. Threads and
  interrupts run \<open>notify\<close>, \<open>try_listen\<close>, the \<open>poll\<close> of the listener and its \<open>drop\<close> in any interleaving, at
  sequential consistency; every atomic operation and every access to the waker is a step of its own.
\<close>

unbundle bit_operations_syntax

subsection \<open>State\<close>

type_synonym flags = "8 word"

definition EXT_LOCK :: flags where "EXT_LOCK = 1"
definition NOTIFIED :: flags where "NOTIFIED = 2"
definition IRQ_LOCK :: flags where "IRQ_LOCK = 4"

lemmas locks = EXT_LOCK_def NOTIFIED_def IRQ_LOCK_def

datatype spc =
    SIdle
  | NLoad
  | NSneak flags
  | NInner
  | NOr
  | NLock flags
  | NWake
  | NStore
  | LTry
  | PLoad
  | PLock flags
  | PRead
  | PClear "nat option"
  | PStore "nat option"
  | POr
  | PReady
  | PFailed
  | LRefused

record irq_signal =
  si_value :: flags
  si_borrow :: bool
  si_waker :: "nat option"
  si_woken :: "nat list"
  si_listener :: "nat \<Rightarrow> bool"
  si_thread :: "nat \<Rightarrow> spc"

definition irq_signal_new :: irq_signal where
  "irq_signal_new = \<lparr>si_value = 0, si_borrow = False, si_waker = None, si_woken = [],
     si_listener = (\<lambda>_. False), si_thread = (\<lambda>_. SIdle)\<rparr>"

definition at :: "nat \<Rightarrow> spc \<Rightarrow> irq_signal \<Rightarrow> irq_signal" where
  "at t pc s = s\<lparr>si_thread := (si_thread s)(t := pc)\<rparr>"

definition wake_waker :: "irq_signal \<Rightarrow> irq_signal" where
  "wake_waker s = (case si_waker s of Some w \<Rightarrow> s\<lparr>si_woken := si_woken s @ [w]\<rparr> | None \<Rightarrow> s)"

subsection \<open>Steps\<close>

text \<open>\<open>compare_and_swap\<close>: the value is replaced if it is the one expected, and the thread goes on accordingly.\<close>

definition compare_and_swap :: "flags \<Rightarrow> flags \<Rightarrow> spc \<Rightarrow> spc \<Rightarrow> nat \<Rightarrow> irq_signal \<Rightarrow> irq_signal" where
  "compare_and_swap prev next yes no t s =
     (if si_value s = prev then at t yes (s\<lparr>si_value := next\<rparr>) else at t no s)"

text \<open>The outer and the inner loop of \<open>notify\<close>, after their load.\<close>

definition notify_outer :: "flags \<Rightarrow> spc" where
  "notify_outer prev =
     (if prev AND NOTIFIED \<noteq> 0 then SIdle
      else if prev AND EXT_LOCK \<noteq> 0 then NSneak prev
      else NInner)"

definition notify_inner :: "flags \<Rightarrow> spc" where
  "notify_inner prev =
     (if prev AND (IRQ_LOCK OR EXT_LOCK) \<noteq> 0 then
        (if prev AND NOTIFIED = 0 then NOr else SIdle)
      else NLock prev)"

text \<open>The loop of \<open>poll\<close>, after its load.\<close>

definition poll_loaded :: "flags \<Rightarrow> spc" where
  "poll_loaded prev =
     (if prev AND EXT_LOCK \<noteq> 0 then PFailed
      else if prev AND NOTIFIED \<noteq> 0 then
        (if prev AND IRQ_LOCK \<noteq> 0 then PLoad else PLock prev)
      else POr)"

definition try_listen :: "nat \<Rightarrow> irq_signal \<Rightarrow> irq_signal" where
  "try_listen t s =
     (if si_borrow s then at t LRefused s
      else at t SIdle (s\<lparr>si_borrow := True, si_listener := (si_listener s)(t := True)\<rparr>))"

definition listen_drop :: "nat \<Rightarrow> irq_signal \<Rightarrow> irq_signal" where
  "listen_drop t s = at t SIdle (s\<lparr>si_borrow := False, si_listener := (si_listener s)(t := False)\<rparr>)"

text \<open>
  A thread owns at most one listener. A listener is dropped by its owner when it is not polling, also after a poll of it
  panicked. \<open>listen\<close> is \<open>try_listen\<close> with a panic instead of \<open>LRefused\<close>.
\<close>

inductive signal_step :: "irq_signal \<Rightarrow> irq_signal \<Rightarrow> bool" where
  call_notify: "si_thread s t = SIdle \<Longrightarrow> signal_step s (at t NLoad s)"
| call_listen: "si_thread s t = SIdle \<Longrightarrow> \<not> si_listener s t \<Longrightarrow> signal_step s (at t LTry s)"
| call_poll: "si_thread s t = SIdle \<Longrightarrow> si_listener s t \<Longrightarrow> signal_step s (at t PLoad s)"
| drops: "si_thread s t \<in> {SIdle, PFailed} \<Longrightarrow> si_listener s t \<Longrightarrow> signal_step s (listen_drop t s)"
| notify_loads: "si_thread s t = NLoad \<Longrightarrow> signal_step s (at t (notify_outer (si_value s)) s)"
| notify_sneaks: "si_thread s t = NSneak prev \<Longrightarrow>
    signal_step s (compare_and_swap prev (prev OR NOTIFIED) SIdle NLoad t s)"
| notify_reloads: "si_thread s t = NInner \<Longrightarrow> signal_step s (at t (notify_inner (si_value s)) s)"
| notify_ors: "si_thread s t = NOr \<Longrightarrow> signal_step s (at t SIdle (s\<lparr>si_value := si_value s OR NOTIFIED\<rparr>))"
| notify_locks: "si_thread s t = NLock prev \<Longrightarrow>
    signal_step s (compare_and_swap prev (prev OR (IRQ_LOCK OR NOTIFIED)) NWake NInner t s)"
| notify_wakes: "si_thread s t = NWake \<Longrightarrow> signal_step s (at t NStore (wake_waker s))"
| notify_stores: "si_thread s t = NStore \<Longrightarrow> signal_step s (at t SIdle (s\<lparr>si_value := NOTIFIED\<rparr>))"
| listens: "si_thread s t = LTry \<Longrightarrow> signal_step s (try_listen t s)"
| poll_loads: "si_thread s t = PLoad \<Longrightarrow> signal_step s (at t (poll_loaded (si_value s)) s)"
| poll_locks: "si_thread s t = PLock prev \<Longrightarrow>
    signal_step s (compare_and_swap prev (NOTIFIED OR EXT_LOCK) PRead PLoad t s)"
| poll_reads: "si_thread s t = PRead \<Longrightarrow> signal_step s (at t (PClear (si_waker s)) s)"
| poll_clears: "si_thread s t = PClear w \<Longrightarrow> signal_step s (at t (PStore w) (s\<lparr>si_waker := None\<rparr>))"
| poll_stores: "si_thread s t = PStore w \<Longrightarrow> signal_step s (at t PReady (s\<lparr>si_value := 0\<rparr>))"
| poll_ors: "si_thread s t = POr \<Longrightarrow> signal_step s (at t PLoad (s\<lparr>si_value := si_value s OR EXT_LOCK\<rparr>))"
| returns: "si_thread s t \<in> {PReady, PFailed, LRefused} \<Longrightarrow> signal_step s (at t SIdle s)"

inductive signal_run :: "irq_signal \<Rightarrow> bool" where
  init: "signal_run irq_signal_new"
| step: "signal_run s \<Longrightarrow> signal_step s s' \<Longrightarrow> signal_run s'"

subsection \<open>Exclusion\<close>

fun sholds :: "spc \<Rightarrow> flags set" where
  "sholds NWake = {IRQ_LOCK OR NOTIFIED, IRQ_LOCK OR NOTIFIED OR EXT_LOCK}"
| "sholds NStore = {IRQ_LOCK OR NOTIFIED, IRQ_LOCK OR NOTIFIED OR EXT_LOCK}"
| "sholds PRead = {NOTIFIED OR EXT_LOCK}"
| "sholds (PClear w) = {NOTIFIED OR EXT_LOCK}"
| "sholds (PStore w) = {NOTIFIED OR EXT_LOCK}"
| "sholds _ = {}"

interpretation sig: critical_section si_value si_thread sholds "{0, NOTIFIED}"
proof
  fix m p
  assume "m \<in> {0, NOTIFIED}"
  then show "m \<notin> sholds p" by (cases p) (auto simp: locks)
qed

text \<open>What a thread knows of the value it loaded.\<close>

fun loaded :: "spc \<Rightarrow> bool" where
  "loaded (NSneak prev) = (prev = EXT_LOCK)"
| "loaded (NLock prev) = (prev \<in> {0, NOTIFIED})"
| "loaded (PLock prev) = (prev = NOTIFIED)"
| "loaded _ = True"

text \<open>The places inside \<open>poll\<close>.\<close>

fun polling :: "spc \<Rightarrow> bool" where
  "polling PLoad = True" | "polling (PLock prev) = True" | "polling PRead = True" | "polling (PClear w) = True"
| "polling (PStore w) = True" | "polling POr = True" | "polling _ = False"

definition signal_values :: "flags set" where
  "signal_values = {0, EXT_LOCK, NOTIFIED, NOTIFIED OR EXT_LOCK, IRQ_LOCK OR NOTIFIED, IRQ_LOCK OR NOTIFIED OR EXT_LOCK}"

definition signal_inv :: "irq_signal \<Rightarrow> bool" where
  "signal_inv s \<longleftrightarrow> sig.exclusive s \<and> si_value s \<in> signal_values \<and> (\<forall>t. loaded (si_thread s t))
     \<and> (\<forall>t. polling (si_thread s t) \<longrightarrow> si_listener s t) \<and> (\<forall>t. si_listener s t \<longrightarrow> si_borrow s)
     \<and> (\<forall>t t'. si_listener s t \<longrightarrow> si_listener s t' \<longrightarrow> t = t')
     \<and> si_waker s = None \<and> si_woken s = []"

lemma at_simps [simp]:
  "si_value (at t p s) = si_value s" "si_borrow (at t p s) = si_borrow s" "si_waker (at t p s) = si_waker s"
  "si_woken (at t p s) = si_woken s" "si_listener (at t p s) = si_listener s"
  "si_thread (at t p s) = (si_thread s)(t := p)"
  by (simp_all add: at_def)

lemma signal_inv_move:
  assumes inv: "signal_inv s" and thr: "si_thread s' = (si_thread s)(t := p)"
    and "si_listener s' = si_listener s" "si_borrow s' = si_borrow s" "si_waker s' = None" "si_woken s' = []"
    and "loaded p" "polling p \<Longrightarrow> polling (si_thread s t) \<or> si_listener s t"
    and "si_value s' \<in> signal_values" "sholds p \<noteq> {} \<Longrightarrow> si_value s' \<in> sholds p"
    and "si_value s \<in> {0, NOTIFIED} \<or> sholds (si_thread s t) \<noteq> {}
      \<or> sholds p = {} \<and> (\<forall>q. si_value s \<in> sholds q \<longrightarrow> si_value s' \<in> sholds q)"
  shows "signal_inv s'"
proof -
  have "sig.exclusive s" using inv by (simp add: signal_inv_def)
  then have "sig.exclusive s'" by (rule sig.exclusive_move [OF _ thr]) (use assms(10,11) in auto)
  with inv assms(2-9) show ?thesis unfolding signal_inv_def by (auto split: if_splits)
qed


lemma signal_values_bits: "v \<in> signal_values \<longleftrightarrow> v \<in> {0, 1, 2, 3, 6, 7}"
  by (auto simp: signal_values_def locks)

lemma or_ext_inside: "v \<in> signal_values \<Longrightarrow> v \<in> sholds q \<Longrightarrow> v OR EXT_LOCK \<in> sholds q"
  by (cases q) (auto simp: locks)

lemma or_notified_inside: "v \<in> signal_values \<Longrightarrow> v \<in> sholds q \<Longrightarrow> v OR NOTIFIED \<in> sholds q"
  by (cases q) (auto simp: locks)

lemma or_values:
  assumes "v \<in> signal_values"
  shows "v OR EXT_LOCK \<in> signal_values" "v OR NOTIFIED \<in> signal_values"
  using assms unfolding signal_values_bits by (auto simp: locks)

lemma after_load:
  assumes "v \<in> signal_values"
  shows "loaded (notify_outer v)" "loaded (notify_inner v)" "loaded (poll_loaded v)"
    "sholds (notify_outer v) = {}" "sholds (notify_inner v) = {}" "sholds (poll_loaded v) = {}"
    "\<not> polling (notify_outer v)" "\<not> polling (notify_inner v)"
  using assms unfolding signal_values_bits
  by (auto simp: notify_outer_def notify_inner_def poll_loaded_def locks)

lemma wake_waker_None [simp]: "si_waker s = None \<Longrightarrow> wake_waker s = s"
  by (simp add: wake_waker_def)

lemma try_listen_inv:
  assumes inv: "signal_inv s" and t: "si_thread s t = LTry"
  shows "signal_inv (try_listen t s)"
proof (cases "si_borrow s")
  case True
  have "si_value s \<in> signal_values" "si_waker s = None" "si_woken s = []" using inv by (simp_all add: signal_inv_def)
  with True t show ?thesis by (auto simp: try_listen_def intro!: signal_inv_move [OF inv, where t = t])
next
  case False
  have "sig.exclusive s" using inv by (simp add: signal_inv_def)
  from sig.exclusive_move [OF this, where t = t and p = SIdle] have "sig.exclusive (try_listen t s)"
    using False t by (simp add: try_listen_def)
  with False inv t show ?thesis by (auto simp: signal_inv_def try_listen_def)
qed

lemma listen_drop_inv:
  assumes inv: "signal_inv s" and t: "si_thread s t \<in> {SIdle, PFailed}" "si_listener s t"
  shows "signal_inv (listen_drop t s)"
proof -
  have ex: "sig.exclusive s" using inv by (simp add: signal_inv_def)
  show ?thesis using inv ex t
    by (auto simp: signal_inv_def listen_drop_def intro!: sig.exclusive_move [OF ex, where t = t and p = SIdle])
qed

lemma signal_inv_step:
  assumes "signal_step s s'" and inv: "signal_inv s"
  shows "signal_inv s'"
proof -
  have v: "si_value s \<in> signal_values" and w: "si_waker s = None" "si_woken s = []"
    and ld: "\<And>t. loaded (si_thread s t)" and ex: "sig.exclusive s"
    using inv by (simp_all add: signal_inv_def)
  from assms(1) show ?thesis
  proof cases
    case (drops t)
    then show ?thesis using listen_drop_inv [OF inv] by simp
  next
    case (listens t)
    then show ?thesis using try_listen_inv [OF inv] by simp
  next
    case (notify_sneaks t prev)
    with ld [of t] v w or_values [OF v] or_notified_inside [OF v] show ?thesis
      by (auto simp: compare_and_swap_def intro!: signal_inv_move [OF inv, where t = t])
  next
    case (notify_locks t prev)
    with ld [of t] v w show ?thesis
      by (auto simp: compare_and_swap_def signal_values_bits locks intro!: signal_inv_move [OF inv, where t = t])
  next
    case (poll_locks t prev)
    with ld [of t] v w show ?thesis
      by (auto simp: compare_and_swap_def signal_values_bits locks intro!: signal_inv_move [OF inv, where t = t])
  next
    case (poll_ors t)
    with v w or_values [OF v] or_ext_inside [OF v] show ?thesis
      by (auto intro!: signal_inv_move [OF inv, where t = t])
  next
    case (notify_ors t)
    with v w or_values [OF v] or_notified_inside [OF v] show ?thesis
      by (auto intro!: signal_inv_move [OF inv, where t = t])
  next
    case (notify_wakes t)
    with sig.inside_mark [OF ex, of t] v w show ?thesis
      by (auto intro!: signal_inv_move [OF inv, where t = t])
  next
    case (notify_stores t)
    with w show ?thesis by (auto simp: signal_values_def intro!: signal_inv_move [OF inv, where t = t])
  next
    case (poll_reads t)
    with sig.inside_mark [OF ex, of t] v w show ?thesis by (auto intro!: signal_inv_move [OF inv, where t = t])
  next
    case (poll_clears t w)
    with sig.inside_mark [OF ex, of t] v \<open>si_woken s = []\<close> show ?thesis by (auto intro!: signal_inv_move [OF inv, where t = t])
  next
    case (poll_stores t w)
    with \<open>si_waker s = None\<close> \<open>si_woken s = []\<close> show ?thesis
      by (auto simp: signal_values_def intro!: signal_inv_move [OF inv, where t = t])
  qed (use v w after_load [OF v] in \<open>auto intro!: signal_inv_move [OF inv]\<close>)
qed

lemma signal_run_inv: "signal_run s \<Longrightarrow> signal_inv s"
proof (induction rule: signal_run.induct)
  case init
  show ?case by (auto simp: signal_inv_def irq_signal_new_def signal_values_def intro!: sig.exclusive_initially)
qed (rule signal_inv_step)

subsection \<open>A jammed signal\<close>

text \<open>The external lock is set and no thread is inside that would release it.\<close>

definition jammed :: "irq_signal \<Rightarrow> bool" where
  "jammed s \<longleftrightarrow> si_value s AND EXT_LOCK \<noteq> 0 \<and> (\<forall>t. sholds (si_thread s t) = {} \<and> si_thread s t \<noteq> PReady)"

lemma jammed_values: "v \<in> signal_values \<Longrightarrow> v AND EXT_LOCK \<noteq> 0 \<longleftrightarrow> v \<in> {1, 3, 7}"
  unfolding signal_values_bits by (auto simp: locks)

lemma jammed_step:
  assumes "signal_step s s'" and inv: "signal_inv s" and jam: "jammed s"
  shows "jammed s'"
proof -
  have v: "si_value s \<in> signal_values" and ld: "\<And>t. loaded (si_thread s t)"
    using inv by (simp_all add: signal_inv_def)
  have out: "sholds (si_thread s t) = {}" for t using jam by (simp add: jammed_def)
  have one: "si_value s \<in> {1, 3, 7}" using jam jammed_values [OF v] by (simp add: jammed_def)
  have loads: "poll_loaded (si_value s) = PFailed" "notify_outer (si_value s) \<noteq> PReady" "notify_inner (si_value s) \<noteq> PReady"
    using one by (auto simp: poll_loaded_def notify_outer_def notify_inner_def locks)
  from assms(1) show ?thesis
  proof cases
    case (notify_locks t prev)
    with ld [of t] one have "si_value s \<noteq> prev" by (auto simp: locks)
    with notify_locks jam show ?thesis by (auto simp: jammed_def compare_and_swap_def)
  next
    case (poll_locks t prev)
    with ld [of t] one have "si_value s \<noteq> prev" by (auto simp: locks)
    with poll_locks jam show ?thesis by (auto simp: jammed_def compare_and_swap_def)
  next
    case (notify_sneaks t prev)
    with ld [of t] jam one show ?thesis by (auto simp: jammed_def compare_and_swap_def locks)
  next
    case (notify_ors t)
    with jam one show ?thesis by (auto simp: jammed_def locks)
  next
    case (poll_ors t)
    with jam one show ?thesis by (auto simp: jammed_def locks)
  next
    case (notify_wakes t) with out [of t] show ?thesis by simp
  next
    case (notify_stores t) with out [of t] show ?thesis by simp
  next
    case (poll_reads t) with out [of t] show ?thesis by simp
  next
    case (poll_clears t w) with out [of t] show ?thesis by simp
  next
    case (poll_stores t w) with out [of t] show ?thesis by simp
  qed (use jam loads after_load [OF v] in \<open>auto simp: jammed_def listen_drop_def try_listen_def\<close>)
qed

lemma jammed_steps:
  assumes "signal_step\<^sup>*\<^sup>* s s'" and "signal_inv s" and "jammed s"
  shows "signal_inv s' \<and> jammed s'"
  using assms by (induction rule: rtranclp_induct) (auto intro: signal_inv_step jammed_step)

subsection \<open>Properties\<close>

text \<open>
  C37. In every interleaving of \<open>notify\<close> and of the calls of the listener, at most one of them accesses
  the waker, and the lock bits say which; there is at most one listener, and it is polled by
  one thread at a time.
\<close>

theorem signal_exclusive:
  assumes "signal_run s"
  shows "(sholds (si_thread s t) \<noteq> {} \<longrightarrow> si_value s \<in> sholds (si_thread s t))
    \<and> (sholds (si_thread s t) \<noteq> {} \<and> sholds (si_thread s t') \<noteq> {} \<longrightarrow> t = t')
    \<and> (polling (si_thread s t) \<and> polling (si_thread s t') \<longrightarrow> t = t')
    \<and> (si_listener s t \<longrightarrow> si_borrow s)"
proof -
  have inv: "signal_inv s" by (rule signal_run_inv [OF assms])
  then have ex: "sig.exclusive s" by (simp add: signal_inv_def)
  then have "sholds (si_thread s t) \<noteq> {} \<Longrightarrow> si_value s \<in> sholds (si_thread s t)"
    and "sholds (si_thread s t) \<noteq> {} \<and> sholds (si_thread s t') \<noteq> {} \<Longrightarrow> t = t'"
    by (blast intro: sig.inside_mark, blast intro: sig.inside_once)
  with inv show ?thesis unfolding signal_inv_def by blast
qed

text \<open>
  The branch of \<open>poll\<close> for a signal without a notification is unfinished: it takes the external lock and
  loops. A listener polled alone on a quiet signal therefore panics on the assertion of the next
  round, no poll of the signal ever returns again, whatever is notified, and nobody is woken.
\<close>

theorem signal_poll_jams:
  assumes "signal_run s" and "si_value s = 0" and "\<And>t'. sholds (si_thread s t') = {} \<and> si_thread s t' \<noteq> PReady"
    and "si_thread s t = SIdle" and "si_listener s t"
  shows "\<exists>s1. signal_step\<^sup>*\<^sup>* s s1 \<and> si_thread s1 t = PFailed
    \<and> (\<forall>s2. signal_step\<^sup>*\<^sup>* s1 s2 \<longrightarrow> (\<forall>t'. si_thread s2 t' \<noteq> PReady) \<and> si_woken s2 = [])"
proof -
  let ?a = "at t PLoad s" and ?b = "at t POr (at t PLoad s)"
  let ?c = "at t PLoad (?b\<lparr>si_value := 0 OR EXT_LOCK\<rparr>)" and ?d = "at t PFailed (at t PLoad (?b\<lparr>si_value := 0 OR EXT_LOCK\<rparr>))"
  have 1: "signal_step s ?a" using assms(4,5) by (rule signal_step.call_poll)
  have 2: "signal_step ?a ?b" using signal_step.poll_loads [of ?a t] assms(2) by (simp add: poll_loaded_def)
  have 3: "signal_step ?b ?c" using signal_step.poll_ors [of ?b t] assms(2) by simp
  have 4: "signal_step ?c ?d" using signal_step.poll_loads [of ?c t] by (simp add: poll_loaded_def locks)
  have steps: "signal_step\<^sup>*\<^sup>* s ?d"
    by (rule rtranclp.rtrancl_into_rtrancl [OF rtranclp.rtrancl_into_rtrancl [OF rtranclp.rtrancl_into_rtrancl
        [OF r_into_rtranclp [of signal_step, OF 1] 2] 3] 4])
  have inv: "signal_inv ?d"
    by (rule signal_inv_step [OF 4 signal_inv_step [OF 3 signal_inv_step [OF 2 signal_inv_step
        [OF 1 signal_run_inv [OF assms(1)]]]]])
  have jam: "jammed ?d" using assms(3) by (auto simp: jammed_def locks)
  have "(\<forall>t'. si_thread s2 t' \<noteq> PReady) \<and> si_woken s2 = []" if "signal_step\<^sup>*\<^sup>* ?d s2" for s2
    using jammed_steps [OF that inv jam] by (simp add: jammed_def signal_inv_def)
  with steps show ?thesis by (intro exI [of _ ?d]) simp
qed

text \<open>A listener and, in the middle of its notification, an interrupt.\<close>

definition listening :: irq_signal where
  "listening = try_listen 1 (at 1 LTry irq_signal_new)"

lemma listening_run: "signal_run listening"
  unfolding listening_def
  by (rule signal_run.step [OF _ signal_step.listens], rule signal_run.step [OF signal_run.init signal_step.call_listen])
     (simp_all add: irq_signal_new_def)

definition notifying :: irq_signal where
  "notifying = compare_and_swap 0 (IRQ_LOCK OR NOTIFIED) NWake NInner 0 (at 0 (NLock 0) (at 0 NInner (at 0 NLoad listening)))"

lemma notifying_run: "signal_run notifying"
proof -
  have v: "si_value listening = 0" "si_thread listening 0 = SIdle" by (simp_all add: listening_def try_listen_def irq_signal_new_def)
  have "signal_run (at 0 NInner (at 0 NLoad listening))"
    using signal_run.step [OF signal_run.step [OF listening_run signal_step.call_notify [of _ 0]] signal_step.notify_loads [of _ 0]] v
    by (simp add: notify_outer_def)
  then have "signal_run (at 0 (NLock 0) (at 0 NInner (at 0 NLoad listening)))"
    using signal_run.step [OF _ signal_step.notify_reloads [of _ 0]] v by (fastforce simp: notify_inner_def)
  then show ?thesis
    unfolding notifying_def using signal_run.step [OF _ signal_step.notify_locks [of _ 0 0]] by simp
qed

theorem signal_exclusive_witness:
  "si_thread notifying 0 = NWake \<and> si_value notifying \<in> sholds NWake \<and> si_borrow notifying"
proof -
  have pc: "si_thread notifying 0 = NWake" "si_listener notifying 1"
    by (simp_all add: notifying_def compare_and_swap_def listening_def try_listen_def irq_signal_new_def)
  then show ?thesis using signal_exclusive [OF notifying_run, of 0 0] signal_exclusive [OF notifying_run, of 1 0] by simp
qed

theorem signal_poll_jams_witness:
  "\<exists>s1. signal_step\<^sup>*\<^sup>* listening s1 \<and> si_thread s1 1 = PFailed"
  using signal_poll_jams [OF listening_run, of 1]
  by (auto simp: listening_def try_listen_def irq_signal_new_def)

end
