(* ===== verification/Wakers.thy ===== *)
theory Wakers
  imports Juggle_Prelude "HOL-Library.Multiset"
begin

text \<open>
  The wakers of \<open>src/utils/mod.rs\<close>: the raw waker tables behind \<open>to_waker\<close>, \<open>BorrowedWaker\<close>, \<open>to_static_waker\<close>,
  \<open>func_waker\<close> and \<open>noop_waker\<close>. A raw waker is a pointer and a table; the model names the table and keeps the
  pointer. The \<open>Arc\<close> allocations have their strong count and are freed when it reaches zero; using
  one that is freed is an error of its own. Waking is recorded, not modelled: it runs the user's code.
\<close>

subsection \<open>Allocations\<close>

record arc =
  ar_strong :: nat
  ar_dropped :: bool

datatype woken = WokeArc nat | WokeStatic nat | WokeFunc nat

record wakers =
  wk_arcs :: "arc list"
  wk_log :: "woken list"

definition use_after_free :: panic where
  "use_after_free = Panic ''use after free''"

text \<open>\<open>Arc::from_raw\<close>, \<open>clone\<close> and \<open>drop\<close> need a live allocation.\<close>

definition live_arc :: "nat \<Rightarrow> (wakers, unit) exec" where
  "live_arc ptr = bind_exec (gets_exec wk_arcs) (\<lambda>a.
     if ptr < length a \<and> ar_strong (a ! ptr) \<noteq> 0 then return_exec () else panic_exec use_after_free)"

definition set_strong :: "nat \<Rightarrow> (nat \<Rightarrow> nat) \<Rightarrow> wakers \<Rightarrow> wakers" where
  "set_strong ptr f w =
     (let n = f (ar_strong (wk_arcs w ! ptr)) in
      w\<lparr>wk_arcs := (wk_arcs w)[ptr := \<lparr>ar_strong = n, ar_dropped = (n = 0)\<rparr>]\<rparr>)"

definition arc_new :: "(wakers, nat) exec" where
  "arc_new = bind_exec (gets_exec (\<lambda>w. length (wk_arcs w))) (\<lambda>ptr.
     bind_exec (modify_exec (\<lambda>w. w\<lparr>wk_arcs := wk_arcs w @ [\<lparr>ar_strong = 1, ar_dropped = False\<rparr>]\<rparr>)) (\<lambda>_.
     return_exec ptr))"

definition arc_clone :: "nat \<Rightarrow> (wakers, unit) exec" where
  "arc_clone ptr = bind_exec (live_arc ptr) (\<lambda>_. modify_exec (set_strong ptr Suc))"

definition arc_drop :: "nat \<Rightarrow> (wakers, unit) exec" where
  "arc_drop ptr = bind_exec (live_arc ptr) (\<lambda>_. modify_exec (set_strong ptr (\<lambda>n. n - 1)))"

definition record_wake :: "woken \<Rightarrow> (wakers, unit) exec" where
  "record_wake e = modify_exec (\<lambda>w. w\<lparr>wk_log := wk_log w @ [e]\<rparr>)"

subsection \<open>Wakers\<close>

datatype waker = DynWaker nat | StaticWaker nat | FuncWaker nat | NoopWaker

text \<open>\<open>to_waker\<close> takes over the reference of its argument, \<open>BorrowedWaker::new\<close> none.\<close>

definition to_waker :: "nat \<Rightarrow> waker" where
  "to_waker ptr = DynWaker ptr"

definition borrowed_waker :: "nat \<Rightarrow> waker" where
  "borrowed_waker ptr = DynWaker ptr"

definition to_static_waker :: "nat \<Rightarrow> waker" where
  "to_static_waker r = StaticWaker r"

text \<open>On platforms where a function pointer fits into a data pointer; elsewhere it is \<open>to_waker\<close> of an \<open>Arc\<close>.\<close>

definition func_waker :: "nat \<Rightarrow> waker" where
  "func_waker f = FuncWaker f"

definition noop_waker :: waker where
  "noop_waker = NoopWaker"

fun waker_clone :: "waker \<Rightarrow> (wakers, waker) exec" where
  "waker_clone (DynWaker ptr) = bind_exec (arc_clone ptr) (\<lambda>_. return_exec (DynWaker ptr))"
| "waker_clone (StaticWaker r) = return_exec (StaticWaker r)"
| "waker_clone (FuncWaker f) = return_exec (FuncWaker f)"
| "waker_clone NoopWaker = return_exec NoopWaker"

fun waker_wake_by_ref :: "waker \<Rightarrow> (wakers, unit) exec" where
  "waker_wake_by_ref (DynWaker ptr) = bind_exec (live_arc ptr) (\<lambda>_. record_wake (WokeArc ptr))"
| "waker_wake_by_ref (StaticWaker r) = record_wake (WokeStatic r)"
| "waker_wake_by_ref (FuncWaker f) = record_wake (WokeFunc f)"
| "waker_wake_by_ref NoopWaker = return_exec ()"

fun waker_drop :: "waker \<Rightarrow> (wakers, unit) exec" where
  "waker_drop (DynWaker ptr) = arc_drop ptr"
| "waker_drop (StaticWaker r) = return_exec ()"
| "waker_drop (FuncWaker f) = return_exec ()"
| "waker_drop NoopWaker = return_exec ()"

text \<open>Waking by value consumes the waker: the \<open>Arc\<close> it was made from is dropped after the wake.\<close>

fun waker_wake :: "waker \<Rightarrow> (wakers, unit) exec" where
  "waker_wake (DynWaker ptr) =
     bind_exec (live_arc ptr) (\<lambda>_. bind_exec (record_wake (WokeArc ptr)) (\<lambda>_. arc_drop ptr))"
| "waker_wake (StaticWaker r) = record_wake (WokeStatic r)"
| "waker_wake (FuncWaker f) = record_wake (WokeFunc f)"
| "waker_wake NoopWaker = return_exec ()"

subsection \<open>Clients\<close>

text \<open>
  A client owns references to allocations (\<open>hs\<close>) and wakers (\<open>ws\<close>), and uses each as the types allow: a
  value is consumed once, and a borrowed waker is used only while the reference it borrows is owned.
\<close>

inductive client :: "nat multiset \<Rightarrow> waker multiset \<Rightarrow> wakers \<Rightarrow> panic option \<Rightarrow> bool" where
  start: "client {#} {#} \<lparr>wk_arcs = [], wk_log = log\<rparr> None"
| new: "client hs ws w e \<Longrightarrow> arc_new w = (Inr ptr, w') \<Longrightarrow> client (add_mset ptr hs) ws w' None"
| clone_arc: "client hs ws w e \<Longrightarrow> ptr \<in># hs \<Longrightarrow> arc_clone ptr w = (r, w') \<Longrightarrow> client (add_mset ptr hs) ws w' (panic_of r)"
| drop_arc: "client (add_mset ptr hs) ws w e \<Longrightarrow> arc_drop ptr w = (r, w') \<Longrightarrow> client hs ws w' (panic_of r)"
| into_waker: "client (add_mset ptr hs) ws w e \<Longrightarrow> client hs (add_mset (to_waker ptr) ws) w None"
| unmanaged: "client hs ws w e \<Longrightarrow> x \<in> {to_static_waker r, func_waker f, noop_waker} \<Longrightarrow> client hs (add_mset x ws) w None"
| clone: "client hs ws w e \<Longrightarrow> x \<in># ws \<or> x = borrowed_waker ptr \<and> ptr \<in># hs \<Longrightarrow> waker_clone x w = (r, w') \<Longrightarrow>
    client hs (add_mset x ws) w' (panic_of r)"
| wake_ref: "client hs ws w e \<Longrightarrow> x \<in># ws \<or> x = borrowed_waker ptr \<and> ptr \<in># hs \<Longrightarrow> waker_wake_by_ref x w = (r, w') \<Longrightarrow>
    client hs ws w' (panic_of r)"
| wake: "client hs (add_mset x ws) w e \<Longrightarrow> waker_wake x w = (r, w') \<Longrightarrow> client hs ws w' (panic_of r)"
| drop: "client hs (add_mset x ws) w e \<Longrightarrow> waker_drop x w = (r, w') \<Longrightarrow> client hs ws w' (panic_of r)"

subsection \<open>Counting the owners\<close>

definition owners :: "nat multiset \<Rightarrow> waker multiset \<Rightarrow> nat \<Rightarrow> nat" where
  "owners hs ws ptr = count hs ptr + count ws (DynWaker ptr)"

definition counted :: "nat multiset \<Rightarrow> waker multiset \<Rightarrow> wakers \<Rightarrow> bool" where
  "counted hs ws w \<longleftrightarrow>
     (\<forall>ptr. if ptr < length (wk_arcs w)
        then ar_strong (wk_arcs w ! ptr) = owners hs ws ptr \<and> ar_dropped (wk_arcs w ! ptr) = (owners hs ws ptr = 0)
        else owners hs ws ptr = 0)"

lemma counted_live:
  assumes "counted hs ws w" and "owners hs ws ptr \<noteq> 0"
  shows "ptr < length (wk_arcs w)" "ar_strong (wk_arcs w ! ptr) = owners hs ws ptr"
  using assms by (auto simp: counted_def split: if_splits)

lemma counted_cong:
  "counted hs ws w \<Longrightarrow> (\<And>ptr. owners hs' ws' ptr = owners hs ws ptr) \<Longrightarrow> wk_arcs w' = wk_arcs w \<Longrightarrow> counted hs' ws' w'"
  by (simp add: counted_def)

lemma counted_set:
  assumes "counted hs ws w" and "owners hs ws ptr \<noteq> 0"
    and "\<And>q. owners hs' ws' q = (if q = ptr then f (owners hs ws ptr) else owners hs ws q)"
  shows "counted hs' ws' (set_strong ptr f w)"
  using assms(1) counted_live [OF assms(1,2)] assms(3)
  by (auto simp: counted_def set_strong_def Let_def nth_list_update split: if_splits)

lemma live_arc_eq: "counted hs ws w \<Longrightarrow> owners hs ws ptr \<noteq> 0 \<Longrightarrow> live_arc ptr w = (Inr (), w)"
  using counted_live [of hs ws w ptr] by (simp add: live_arc_def exec_defs)

lemma arc_ops_eq:
  assumes "counted hs ws w" and "owners hs ws ptr \<noteq> 0"
  shows "arc_clone ptr w = (Inr (), set_strong ptr Suc w)"
    and "arc_drop ptr w = (Inr (), set_strong ptr (\<lambda>n. n - 1) w)"
  using live_arc_eq [OF assms] by (simp_all add: arc_clone_def arc_drop_def bind_exec_def modify_exec_def)

lemma owners_simps [simp]:
  "owners (add_mset ptr hs) ws q = owners hs ws q + (if q = ptr then 1 else 0)"
  "owners hs (add_mset (DynWaker ptr) ws) q = owners hs ws q + (if q = ptr then 1 else 0)"
  "owners hs (add_mset (StaticWaker r) ws) q = owners hs ws q"
  "owners hs (add_mset (FuncWaker f) ws) q = owners hs ws q"
  "owners hs (add_mset NoopWaker ws) q = owners hs ws q"
  by (auto simp: owners_def)

lemma owners_pos: "ptr \<in># hs \<Longrightarrow> owners hs ws ptr \<noteq> 0" "DynWaker ptr \<in># ws \<Longrightarrow> owners hs ws ptr \<noteq> 0"
  by (auto simp: owners_def)

lemma set_strong_log [simp]: "wk_log (set_strong ptr f w) = wk_log w"
  by (simp add: set_strong_def Let_def)

lemma record_wake_eq: "record_wake e w = (Inr (), w\<lparr>wk_log := wk_log w @ [e]\<rparr>)"
  by (simp add: record_wake_def modify_exec_def)

lemma waker_clone_ok:
  assumes c: "counted hs ws w" and x: "x \<in># ws \<or> x = borrowed_waker ptr \<and> ptr \<in># hs"
  shows "\<exists>w'. waker_clone x w = (Inr x, w') \<and> counted hs (add_mset x ws) w'"
proof (cases x)
  case (DynWaker q)
  then have q: "owners hs ws q \<noteq> 0" using x owners_pos by (auto simp: borrowed_waker_def)
  from counted_set [OF c q, of hs "add_mset x ws" Suc] arc_ops_eq(1) [OF c q] DynWaker
  show ?thesis by (simp add: bind_exec_def return_exec_def)
qed (use counted_cong [OF c, of hs "add_mset x ws" w] in \<open>simp_all add: return_exec_def\<close>)

lemma waker_wake_by_ref_ok:
  assumes c: "counted hs ws w" and x: "x \<in># ws \<or> x = borrowed_waker ptr \<and> ptr \<in># hs"
  shows "\<exists>w'. waker_wake_by_ref x w = (Inr (), w') \<and> counted hs ws w'"
proof (cases x)
  case (DynWaker q)
  then have q: "owners hs ws q \<noteq> 0" using x owners_pos by (auto simp: borrowed_waker_def)
  from DynWaker live_arc_eq [OF c q] counted_cong [OF c, of hs ws] show ?thesis by (simp add: bind_exec_def record_wake_eq)
qed (use counted_cong [OF c, of hs ws] in \<open>simp_all add: return_exec_def record_wake_eq\<close>)

lemma waker_drop_ok:
  assumes c: "counted hs (add_mset x ws) w"
  shows "\<exists>w'. waker_drop x w = (Inr (), w') \<and> counted hs ws w'"
proof (cases x)
  case (DynWaker q)
  then have q: "owners hs (add_mset x ws) q \<noteq> 0" by simp
  from counted_set [OF c q, of hs ws "\<lambda>n. n - 1"] arc_ops_eq(2) [OF c q] DynWaker show ?thesis by simp
qed (use counted_cong [OF c, of hs ws w] in \<open>simp_all add: return_exec_def\<close>)

lemma waker_wake_ok:
  assumes c: "counted hs (add_mset x ws) w"
  shows "\<exists>w'. waker_wake x w = (Inr (), w') \<and> counted hs ws w'"
proof (cases x)
  case (DynWaker q)
  let ?w = "w\<lparr>wk_log := wk_log w @ [WokeArc q]\<rparr>"
  have q: "owners hs (add_mset x ws) q \<noteq> 0" using DynWaker by simp
  have c': "counted hs (add_mset x ws) ?w" by (rule counted_cong [OF c]) simp_all
  from counted_set [OF c' q, of hs ws "\<lambda>n. n - 1"] arc_ops_eq(2) [OF c' q] live_arc_eq [OF c q] DynWaker
  show ?thesis by (simp add: bind_exec_def record_wake_eq)
qed (use counted_cong [OF c, of hs ws] in \<open>simp_all add: return_exec_def record_wake_eq\<close>)

lemma client_counted: "client hs ws w e \<Longrightarrow> counted hs ws w \<and> e = None"
proof (induction rule: client.induct)
  case (start log)
  then show ?case by (simp add: counted_def owners_def)
next
  case (new hs ws w e ptr w')
  then have "ptr = length (wk_arcs w)" "wk_arcs w' = wk_arcs w @ [\<lparr>ar_strong = 1, ar_dropped = False\<rparr>]"
    by (auto simp: arc_new_def exec_defs)
  then show ?case using new.IH by (auto simp: counted_def nth_append split: if_splits)
next
  case (clone_arc hs ws w e ptr r w')
  then have c: "counted hs ws w" and q: "owners hs ws ptr \<noteq> 0" using owners_pos by simp_all
  show ?case
    using arc_ops_eq(1) [OF c q] clone_arc.hyps(3) counted_set [OF c q, of "add_mset ptr hs" ws Suc] by (auto simp: panic_of_def)
next
  case (drop_arc ptr hs ws w e r w')
  then have c: "counted (add_mset ptr hs) ws w" by simp
  have q: "owners (add_mset ptr hs) ws ptr \<noteq> 0" by simp
  show ?case
    using arc_ops_eq(2) [OF c q] drop_arc.hyps(2) counted_set [OF c q, of hs ws "\<lambda>n. n - 1"] by (auto simp: panic_of_def)
next
  case (into_waker ptr hs ws w e)
  then show ?case by (auto simp: to_waker_def intro: counted_cong)
next
  case (unmanaged hs ws w e x r f)
  then show ?case by (auto simp: to_static_waker_def func_waker_def noop_waker_def intro: counted_cong)
next
  case (clone hs ws w e x ptr r w')
  then show ?case using waker_clone_ok [of hs ws w x ptr] by (auto simp: panic_of_def)
next
  case (wake_ref hs ws w e x ptr r w')
  then show ?case using waker_wake_by_ref_ok [of hs ws w x ptr] by (auto simp: panic_of_def)
next
  case (wake hs x ws w e r w')
  then show ?case using waker_wake_ok [of hs x ws w] by (auto simp: panic_of_def)
next
  case (drop hs x ws w e r w')
  then show ?case using waker_drop_ok [of hs x ws w] by (auto simp: panic_of_def)
qed

subsection \<open>Property\<close>

text \<open>
  C36. The raw wakers keep the reference counts right: whatever a client does with the references and
  the wakers it owns, the strong count of every allocation is the number of references and wakers
  to it, it is freed exactly when the last of them is gone, and nothing is used after it was freed.
\<close>

theorem waker_counts:
  assumes "client hs ws w e" and "ptr < length (wk_arcs w)"
  shows "e = None \<and> ar_strong (wk_arcs w ! ptr) = count hs ptr + count ws (DynWaker ptr)
    \<and> (ar_dropped (wk_arcs w ! ptr) \<longleftrightarrow> ptr \<notin># hs \<and> DynWaker ptr \<notin># ws)"
  using client_counted [OF assms(1)] assms(2) by (auto simp: counted_def owners_def not_in_iff)

theorem waker_counts_witness:
  "\<exists>w. client {#} {#} w None \<and> wk_log w = [WokeArc 0] \<and> wk_arcs w = [\<lparr>ar_strong = 0, ar_dropped = True\<rparr>]
     \<and> ar_strong (wk_arcs w ! 0) = count {#} (0 :: nat) + count {#} (DynWaker 0)"
proof -
  let ?w1 = "\<lparr>wk_arcs = [\<lparr>ar_strong = 1, ar_dropped = False\<rparr>], wk_log = []\<rparr>"
  let ?w2 = "\<lparr>wk_arcs = [\<lparr>ar_strong = 0, ar_dropped = True\<rparr>], wk_log = [WokeArc 0]\<rparr>"
  have "arc_new \<lparr>wk_arcs = [], wk_log = []\<rparr> = (Inr 0, ?w1)" by (simp add: arc_new_def exec_defs)
  then have "client {#0#} {#} ?w1 None" using client.new [OF client.start] by fastforce
  then have "client {#} {#to_waker 0#} ?w1 None" by (rule client.into_waker)
  moreover have "waker_wake (to_waker 0) ?w1 = (Inr (), ?w2)"
    by (simp add: to_waker_def live_arc_def arc_drop_def set_strong_def record_wake_def exec_defs)
  ultimately have "client {#} {#} ?w2 (panic_of (Inr ()))" by (rule client.wake)
  then have run: "client {#} {#} ?w2 None" by (simp add: panic_of_def)
  from waker_counts [OF run, of 0] run show ?thesis by (intro exI [of _ ?w2]) simp
qed

end
