(* ===== verification/Ucw_Cell.thy ===== *)
theory Ucw_Cell
  imports Juggle_Prelude
begin

text \<open>
  \<open>src/utils/ucw.rs\<close>: \<open>Ucw\<close>, a cell with run-time borrow checks in debug builds (a \<open>RefCell\<close>) and none in
  release builds. As in \<open>RefCell\<close> the flag counts the readers, and is \<open>-1\<close> while there is a writer.
\<close>

subsection \<open>Cells\<close>

record 'a ucw =
  uc_value :: 'a
  uc_flag :: int

definition isize_MAX :: int where
  "isize_MAX = 2 ^ 63 - 1"

definition ucw_new :: "'a \<Rightarrow> 'a ucw" where
  "ucw_new v = \<lparr>uc_value = v, uc_flag = 0\<rparr>"

definition ucw_borrow :: "profile \<Rightarrow> ('a ucw, 'a) exec" where
  "ucw_borrow p c =
     (case p of
        Release \<Rightarrow> (Inr (uc_value c), c)
      | Debug \<Rightarrow>
          if uc_flag c < 0 \<or> uc_flag c = isize_MAX then (Inl (Panic ''already mutably borrowed: BorrowError''), c)
          else (Inr (uc_value c), c\<lparr>uc_flag := uc_flag c + 1\<rparr>))"

definition ucw_borrow_mut :: "profile \<Rightarrow> ('a ucw, 'a) exec" where
  "ucw_borrow_mut p c =
     (case p of
        Release \<Rightarrow> (Inr (uc_value c), c)
      | Debug \<Rightarrow>
          if uc_flag c \<noteq> 0 then (Inl (Panic ''already borrowed: BorrowMutError''), c)
          else (Inr (uc_value c), c\<lparr>uc_flag := -1\<rparr>))"

text \<open>Dropping a \<open>UcwRef\<close> and a \<open>UcwRefMut\<close>, and a write through the latter (\<open>deref_mut\<close>).\<close>

definition ucw_ref_drop :: "profile \<Rightarrow> 'a ucw \<Rightarrow> 'a ucw" where
  "ucw_ref_drop p c = (case p of Debug \<Rightarrow> c\<lparr>uc_flag := uc_flag c - 1\<rparr> | Release \<Rightarrow> c)"

definition ucw_mut_drop :: "profile \<Rightarrow> 'a ucw \<Rightarrow> 'a ucw" where
  "ucw_mut_drop p c = (case p of Debug \<Rightarrow> c\<lparr>uc_flag := uc_flag c + 1\<rparr> | Release \<Rightarrow> c)"

definition ucw_write :: "('a \<Rightarrow> 'a) \<Rightarrow> 'a ucw \<Rightarrow> 'a ucw" where
  "ucw_write f c = c\<lparr>uc_value := f (uc_value c)\<rparr>"

subsection \<open>Borrows that end with their statement\<close>

definition ucw_read :: "profile \<Rightarrow> ('a \<Rightarrow> 'b) \<Rightarrow> ('a ucw, 'b) exec" where
  "ucw_read p f = bind_exec (ucw_borrow p) (\<lambda>v. bind_exec (modify_exec (ucw_ref_drop p)) (\<lambda>_. return_exec (f v)))"

definition ucw_update :: "profile \<Rightarrow> ('a \<Rightarrow> 'a) \<Rightarrow> ('a ucw, unit) exec" where
  "ucw_update p f = bind_exec (ucw_borrow_mut p) (\<lambda>_. modify_exec (\<lambda>c. ucw_mut_drop p (ucw_write f c)))"

declare isize_MAX_def [run] ucw_new_def [run] ucw_borrow_def [run] ucw_borrow_mut_def [run] ucw_ref_drop_def [run]
  ucw_mut_drop_def [run] ucw_write_def [run] ucw_read_def [run] ucw_update_def [run]

lemma ucw_new_simps [simp]: "uc_value (ucw_new v) = v" "uc_flag (ucw_new v) = 0"
  by (simp_all add: ucw_new_def)

text \<open>On a cell nobody has borrowed they succeed and leave it so.\<close>

lemma ucw_read_ok: "uc_flag c = 0 \<Longrightarrow> ucw_read p f c = (Inr (f (uc_value c)), c)"
  by (cases p) (simp_all add: ucw_read_def exec_defs ucw_borrow_def ucw_ref_drop_def isize_MAX_def)

lemma ucw_update_ok: "uc_flag c = 0 \<Longrightarrow> ucw_update p f c = (Inr (), c\<lparr>uc_value := f (uc_value c)\<rparr>)"
  by (cases p) (simp_all add: ucw_update_def exec_defs ucw_borrow_mut_def ucw_mut_drop_def ucw_write_def)

lemma ucw_hold_ok:
  assumes "uc_flag c = 0"
  shows "\<exists>c'. ucw_borrow_mut p c = (Inr (uc_value c), c') \<and> uc_value c' = uc_value c
     \<and> uc_flag c' = (case p of Debug \<Rightarrow> -1 | Release \<Rightarrow> 0)"
  using assms by (cases p) (simp_all add: ucw_borrow_mut_def)

subsection \<open>Readers and writers\<close>

text \<open>The references a client holds: \<open>r\<close> readers and \<open>w\<close> writers of one cell.\<close>

inductive ucw_run :: "'a \<Rightarrow> nat \<Rightarrow> nat \<Rightarrow> 'a ucw \<Rightarrow> bool" for v0 where
  new: "ucw_run v0 0 0 (ucw_new v0)"
| borrow: "ucw_run v0 r w c \<Longrightarrow> ucw_borrow Debug c = (Inr v, c') \<Longrightarrow> ucw_run v0 (Suc r) w c'"
| borrow_mut: "ucw_run v0 r w c \<Longrightarrow> ucw_borrow_mut Debug c = (Inr v, c') \<Longrightarrow> ucw_run v0 r (Suc w) c'"
| refused: "ucw_run v0 r w c \<Longrightarrow> ucw_borrow Debug c = (Inl e, c') \<or> ucw_borrow_mut Debug c = (Inl e, c') \<Longrightarrow> ucw_run v0 r w c'"
| writes: "ucw_run v0 r (Suc w) c \<Longrightarrow> ucw_run v0 r (Suc w) (ucw_write f c)"
| drop_ref: "ucw_run v0 (Suc r) w c \<Longrightarrow> ucw_run v0 r w (ucw_ref_drop Debug c)"
| drop_mut: "ucw_run v0 r (Suc w) c \<Longrightarrow> ucw_run v0 r w (ucw_mut_drop Debug c)"

text \<open>In debug builds a cell has one writer and no reader, or no writer; the flag tells which.\<close>

lemma ucw_readers_writers:
  "ucw_run v0 r w c \<Longrightarrow> uc_flag c = int r - int w \<and> w \<le> 1 \<and> (w = 1 \<longrightarrow> r = 0)"
  by (induction rule: ucw_run.induct)
     (auto simp: ucw_borrow_def ucw_borrow_mut_def ucw_ref_drop_def ucw_mut_drop_def ucw_write_def split: if_splits)

end
