(* ===== verification/Queue_Scheduler.thy ===== *)
theory Queue_Scheduler
  imports Scheduler_Beat Ucw_Cell
begin

text \<open>
  \<open>src/dy/algorithm.rs\<close>: \<open>SchedulerAlgorithm\<close>, the round-robin scheduler that \<open>UnorderedAlgorithm\<close> replaced
  (\<open>src/dy/mod.rs\<close> selects the latter; this one is compiled and not used). Two queues of runnable
  tasks take turns: while one is worked off, what becomes runnable goes to the other; tasks that
  wait are in the list \<open>deferred\<close>.

  The registry, the outer waker, the current task, the count of suspended tasks and the surroundings
  (the flags of the wakers, the world of the tasks) are those of \<open>Unordered_Algorithm\<close>, field \<open>ctrl\<close>. The queues are
  \<open>Ucw\<close> cells, and every borrow of them is made.
\<close>

subsection \<open>State\<close>

record ('f, 'u) sched =
  ctrl :: "('f, 'u) alg"
  deferred :: "nat list ucw"
  scan_registry :: bool
  runnable0 :: "nat list ucw"
  runnable1 :: "nat list ucw"
  which_buffer :: bool

definition sched_new :: "'u \<Rightarrow> nat list list \<Rightarrow> ('f, 'u) sched" where
  "sched_new u ext =
     \<lparr>ctrl = alg_new u ext, deferred = ucw_new [], scan_registry = False, runnable0 = ucw_new [],
      runnable1 = ucw_new [], which_buffer = False\<rparr>"

definition on_ctrl :: "(('f, 'u) alg, 'a) exec \<Rightarrow> (('f, 'u) sched, 'a) exec" where
  "on_ctrl m s = (case m (ctrl s) of (x, c) \<Rightarrow> (x, s\<lparr>ctrl := c\<rparr>))"

definition on_deferred :: "(nat list ucw, 'a) exec \<Rightarrow> (('f, 'u) sched, 'a) exec" where
  "on_deferred m s = (case m (deferred s) of (x, c) \<Rightarrow> (x, s\<lparr>deferred := c\<rparr>))"

text \<open>The queue \<open>runnable.1\<close> (\<open>True\<close>) or \<open>runnable.0\<close> (\<open>False\<close>).\<close>

definition queue :: "bool \<Rightarrow> ('f, 'u) sched \<Rightarrow> nat list ucw" where
  "queue b s = (if b then runnable1 s else runnable0 s)"

definition set_queue :: "bool \<Rightarrow> nat list ucw \<Rightarrow> ('f, 'u) sched \<Rightarrow> ('f, 'u) sched" where
  "set_queue b c s = (if b then s\<lparr>runnable1 := c\<rparr> else s\<lparr>runnable0 := c\<rparr>)"

definition on_queue :: "bool \<Rightarrow> (nat list ucw, 'a) exec \<Rightarrow> (('f, 'u) sched, 'a) exec" where
  "on_queue b m s = (case m (queue b s) of (x, c) \<Rightarrow> (x, set_queue b c s))"

subsection \<open>The operations of the handle\<close>

definition enqueue_runnable :: "profile \<Rightarrow> nat \<Rightarrow> bool \<Rightarrow> (('f, 'u) sched, unit) exec" where
  "enqueue_runnable p key check_absent =
     bind_exec (gets_exec which_buffer) (\<lambda>w.
     bind_exec (if check_absent then on_queue (\<not> w) (ucw_read p (\<lambda>q. key \<in> set q)) else return_exec False) (\<lambda>found.
     if found then return_exec () else on_queue (\<not> w) (ucw_update p (\<lambda>q. q @ [key]))))"

definition sched_register :: "profile \<Rightarrow> 'f dynamic_future \<Rightarrow> (('f, 'u) sched, nat option) exec" where
  "sched_register p dynamic =
     (let suspended = df_stop_reason dynamic = SrSuspended in
      bind_exec (on_ctrl (on_registry (registry_insert p dynamic))) (\<lambda>key.
      bind_exec
        (case key of
           Some k \<Rightarrow> if suspended then on_ctrl (inc_suspended p) else enqueue_runnable p k False
         | None \<Rightarrow> return_exec ())
        (\<lambda>_. return_exec key)))"

definition sched_drop_ref :: "profile \<Rightarrow> ('f, 'u) sched \<Rightarrow> ('f, 'u) sched" where
  "sched_drop_ref p s = s\<lparr>ctrl := drop_ref p (ctrl s)\<rparr>"

definition sched_with_ref ::
  "profile \<Rightarrow> nat \<Rightarrow> ('f dynamic_future option \<Rightarrow> (('f, 'u) sched, 'a) exec) \<Rightarrow> (('f, 'u) sched, 'a) exec" where
  "sched_with_ref p key m =
     bind_exec (on_ctrl (on_registry (registry_get p key))) (\<lambda>t.
       case t of None \<Rightarrow> m None | Some task \<Rightarrow> guard_exec (m (Some task)) (sched_drop_ref p))"

definition write_reason :: "nat \<Rightarrow> stop_reason \<Rightarrow> (('f, 'u) sched, unit) exec" where
  "write_reason key r = on_ctrl (modify_exec (modify_task key (set_stop_reason r)))"

definition sched_resume :: "profile \<Rightarrow> nat \<Rightarrow> (('f, 'u) sched, bool) exec" where
  "sched_resume p key = sched_with_ref p key (\<lambda>t. case t of
       Some task \<Rightarrow>
         if df_stop_reason task = SrSuspended then
           bind_exec (write_reason key SrNone) (\<lambda>_.
           bind_exec (on_ctrl (dec_suspended p)) (\<lambda>_.
           bind_exec (gets_exec (\<lambda>s. is_runnable (arcs (ctrl s)) task \<or> current (ctrl s) = Some key)) (\<lambda>run.
           bind_exec
             (if run then enqueue_runnable p key True
              else on_deferred (ucw_update p (\<lambda>d. if key \<in> set d then d else d @ [key]))) (\<lambda>_.
           return_exec True))))
         else return_exec False
     | None \<Rightarrow> return_exec False)"

definition sched_suspend :: "profile \<Rightarrow> nat \<Rightarrow> (('f, 'u) sched, bool) exec" where
  "sched_suspend p key = sched_with_ref p key (\<lambda>t. case t of
       Some task \<Rightarrow>
         if df_stop_reason task = SrNone then
           bind_exec (write_reason key SrSuspended) (\<lambda>_.
           bind_exec (on_ctrl (inc_suspended p)) (\<lambda>_.
           bind_exec (gets_exec (\<lambda>s. is_runnable (arcs (ctrl s)) task)) (\<lambda>run.
           bind_exec (if \<not> run then on_deferred (ucw_update p (remove1 key)) else return_exec ()) (\<lambda>_.
           return_exec True))))
         else return_exec False
     | None \<Rightarrow> return_exec False)"

definition sched_cancel :: "profile \<Rightarrow> nat \<Rightarrow> (('f, 'u) sched, bool) exec" where
  "sched_cancel p key = sched_with_ref p key (\<lambda>t. case t of
       Some task \<Rightarrow>
         let r = df_stop_reason task in
         if r \<noteq> SrCancelled then
           bind_exec (write_reason key SrCancelled) (\<lambda>_.
           bind_exec
             (if r = SrSuspended then
                bind_exec (on_ctrl (dec_suspended p)) (\<lambda>_. modify_exec (\<lambda>s. s\<lparr>scan_registry := True\<rparr>))
              else return_exec ()) (\<lambda>_.
           return_exec True))
         else return_exec False
     | None \<Rightarrow> return_exec False)"

text \<open>\<open>get_current\<close>, \<open>get_state\<close>, \<open>registered_count\<close> and \<open>with_name\<close> are the methods of \<open>UnorderedAlgorithm\<close>.\<close>

definition sched_get_current :: "('f, 'u) sched \<Rightarrow> nat option" where
  "sched_get_current s = get_current (ctrl s)"

definition sched_get_state :: "profile \<Rightarrow> nat \<Rightarrow> (('f, 'u) sched, task_state) exec" where
  "sched_get_state p key = on_ctrl (get_state p key)"

definition sched_registered_count :: "('f, 'u) sched \<Rightarrow> nat" where
  "sched_registered_count s = registered_count (ctrl s)"

definition sched_with_name :: "profile \<Rightarrow> nat \<Rightarrow> (task_name \<Rightarrow> 'b) \<Rightarrow> (('f, 'u) sched, 'b) exec" where
  "sched_with_name p key func = on_ctrl (with_name p key func)"

text \<open>\<open>get_by_name\<close> walks the registry with its iterator, which holds the iteration flag until it is dropped.\<close>

definition sched_get_by_name :: "profile \<Rightarrow> string \<Rightarrow> (('f, 'u) sched, nat option) exec" where
  "sched_get_by_name p name = on_ctrl (on_registry
     (bind_exec (registry_iter p) (\<lambda>kvs.
      guard_exec (return_exec (map_option fst (find (\<lambda>kv. as_str (df_name (snd kv)) = Some name) kvs))) (iter_drop p))))"

definition sched_spawn :: "profile \<Rightarrow> spawn_params \<Rightarrow> 'f \<Rightarrow> (('f, 'u) sched, nat option) exec" where
  "sched_spawn p sp fut =
     bind_exec (gets_exec (\<lambda>s. sync_flags_new (arcs (ctrl s)))) (\<lambda>(fid, arc).
     bind_exec (on_ctrl (modify_exec (\<lambda>c. c\<lparr>arcs := arc\<rparr>))) (\<lambda>_.
     sched_register p (dynamic_future_new fut fid sp)))"

subsection \<open>The code of a task\<close>

fun sched_call :: "profile \<Rightarrow> 'f hcall \<Rightarrow> (('f, 'u) sched, reply) exec" where
  "sched_call p (CallSpawn sp fut) = bind_exec (sched_spawn p sp fut) (\<lambda>k. return_exec (RKey k))"
| "sched_call p (CallCancel k) = bind_exec (sched_cancel p k) (\<lambda>b. return_exec (RBool b))"
| "sched_call p (CallSuspend k) = bind_exec (sched_suspend p k) (\<lambda>b. return_exec (RBool b))"
| "sched_call p (CallResume k) = bind_exec (sched_resume p k) (\<lambda>b. return_exec (RBool b))"
| "sched_call p (CallGetState k) = bind_exec (sched_get_state p k) (\<lambda>b. return_exec (RState b))"
| "sched_call p CallCurrent = gets_exec (\<lambda>s. RKey (sched_get_current s))"
| "sched_call p (CallGetName k) = bind_exec (sched_with_name p k (\<lambda>n. n)) (\<lambda>n. return_exec (RName n))"
| "sched_call p (CallGetByName n) = bind_exec (sched_get_by_name p n) (\<lambda>k. return_exec (RKey k))"
| "sched_call p CallCount = gets_exec (\<lambda>s. RCount (sched_registered_count s))"
| "sched_call p (CallWake w) = bind_exec (on_ctrl (modify_exec (wake w))) (\<lambda>_. return_exec RUnit)"

primrec sched_run :: "profile \<Rightarrow> ('f, 'u) prog \<Rightarrow> (('f, 'u) sched, 'f option) exec" where
  "sched_run p (PReady u) = bind_exec (on_ctrl (modify_exec (\<lambda>c. c\<lparr>user := u\<rparr>))) (\<lambda>_. return_exec None)"
| "sched_run p (PPending f u) = bind_exec (on_ctrl (modify_exec (\<lambda>c. c\<lparr>user := u\<rparr>))) (\<lambda>_. return_exec (Some f))"
| "sched_run p (PPanic u) = bind_exec (on_ctrl (modify_exec (\<lambda>c. c\<lparr>user := u\<rparr>))) (\<lambda>_. panic_exec UserPanic)"
| "sched_run p (PCall c k) = bind_exec (sched_call p c) (\<lambda>r. sched_run p (k r))"

text \<open>\<open>DynamicFuture::poll_local\<close>, as for the other scheduler.\<close>

definition sched_poll_local ::
  "profile \<Rightarrow> ('f, 'u) body \<Rightarrow> nat \<Rightarrow> 'f dynamic_future \<Rightarrow> (('f, 'u) sched, unit poll) exec" where
  "sched_poll_local p body key task =
     bind_exec (on_ctrl (modify_exec (modify_task key (set_polling True)))) (\<lambda>_.
       if df_polling task then
         panic_exec (Panic ''Recursive call to DynamicFuture::poll_local is not allowed.'')
       else
         guard_exec
           (bind_exec (on_ctrl (modify_exec (\<lambda>c. c\<lparr>arcs := set_runnable (df_flags task) False (arcs c)\<rparr>))) (\<lambda>_.
            bind_exec (gets_exec (\<lambda>s. user (ctrl s))) (\<lambda>u.
            bind_exec (sched_run p (body (df_future task) (df_flags task) u)) (\<lambda>res.
            case res of
              None \<Rightarrow> return_exec (Ready ())
            | Some f \<Rightarrow>
                bind_exec (on_ctrl (modify_exec (modify_task key (\<lambda>t. t\<lparr>df_future := f\<rparr>)))) (\<lambda>_.
                return_exec Pending)))))
           (\<lambda>s. s\<lparr>ctrl := modify_task key (set_polling False) (ctrl s)\<rparr>))"

subsection \<open>Polling\<close>

text \<open>
  \<open>drain_runnable\<close> under the mutable borrows of \<open>deferred\<close> and of the queue \<open>b\<close>: the closure given to
  \<open>Vec::retain\<close>, and the loop of \<open>retain\<close>, which leaves the elements it kept and those not yet seen.
\<close>

definition drain_elem :: "profile \<Rightarrow> bool \<Rightarrow> nat \<Rightarrow> (('f, 'u) sched, bool) exec" where
  "drain_elem p b elem =
     bind_exec (on_ctrl (modify_exec deliver)) (\<lambda>_.
     bind_exec (on_ctrl (on_registry (registry_get p elem))) (\<lambda>t.
     bind_exec (expect_exec ''called `Option::unwrap()` on a `None` value'' t) (\<lambda>task.
     if df_stop_reason task = SrSuspended then bind_exec (modify_exec (sched_drop_ref p)) (\<lambda>_. return_exec False)
     else if df_stop_reason task = SrCancelled then
       bind_exec (modify_exec (sched_drop_ref p)) (\<lambda>_.
       bind_exec (on_ctrl (remove_task p elem)) (\<lambda>_. return_exec False))
     else
       bind_exec (gets_exec (\<lambda>s. is_runnable (arcs (ctrl s)) task)) (\<lambda>run.
       bind_exec (if run then on_queue b (modify_exec (ucw_write (\<lambda>q. q @ [elem]))) else return_exec ()) (\<lambda>_.
       bind_exec (modify_exec (sched_drop_ref p)) (\<lambda>_. return_exec (\<not> run)))))))"

primrec drain_loop :: "profile \<Rightarrow> bool \<Rightarrow> nat list \<Rightarrow> nat list \<Rightarrow> (('f, 'u) sched, unit) exec" where
  "drain_loop p b ys [] = return_exec ()"
| "drain_loop p b ys (e # es) =
     bind_exec (drain_elem p b e) (\<lambda>keep.
     let ys' = (if keep then ys @ [e] else ys) in
     bind_exec (on_deferred (modify_exec (ucw_write (\<lambda>_. ys' @ es)))) (\<lambda>_.
     drain_loop p b ys' es))"

definition drain_runnable :: "profile \<Rightarrow> bool \<Rightarrow> (('f, 'u) sched, bool) exec" where
  "drain_runnable p b =
     bind_exec (gets_exec (\<lambda>s. uc_value (deferred s))) (\<lambda>d.
     bind_exec (drain_loop p b [] d) (\<lambda>_.
     gets_exec (\<lambda>s. length d \<noteq> length (uc_value (deferred s)))))"

datatype rotate = Wait | Continue

text \<open>
  The body of \<open>process_tasks\<close>, inside the two borrows it holds: with no work left it registers the outer
  waker and looks at the deferred tasks once more.
\<close>

definition process_idle :: "profile \<Rightarrow> bool \<Rightarrow> nat \<Rightarrow> (('f, 'u) sched, rotate) exec" where
  "process_idle p b waker =
     bind_exec (on_ctrl (modify_exec (\<lambda>c. snd (waker_register waker (deliver c))))) (\<lambda>_.
     bind_exec (drain_runnable p b) (\<lambda>any.
     if \<not> any then return_exec Wait
     else bind_exec (on_ctrl (modify_exec (\<lambda>c. snd (waker_clear c)))) (\<lambda>_. return_exec Continue)))"

definition process_held :: "profile \<Rightarrow> bool \<Rightarrow> nat \<Rightarrow> (('f, 'u) sched, rotate) exec" where
  "process_held p b waker =
     bind_exec (gets_exec (\<lambda>s. uc_value (deferred s) = [])) (\<lambda>none.
     if none then return_exec Continue
     else
       bind_exec (drain_runnable p b) (\<lambda>any.
       if any then return_exec Continue
       else
         bind_exec (gets_exec (\<lambda>s. uc_value (queue b s) = [])) (\<lambda>empty.
         bind_exec (if empty then on_queue (\<not> b) (ucw_read p (\<lambda>q. q = [])) else return_exec False) (\<lambda>no_work.
         if no_work then process_idle p b waker else return_exec Continue))))"

definition process_tasks :: "profile \<Rightarrow> bool \<Rightarrow> nat \<Rightarrow> (('f, 'u) sched, rotate) exec" where
  "process_tasks p b waker =
     bind_exec (on_queue b (ucw_borrow_mut p)) (\<lambda>_.
     guard_exec
       (bind_exec (on_deferred (ucw_borrow_mut p)) (\<lambda>_.
        guard_exec (process_held p b waker) (\<lambda>s. s\<lparr>deferred := ucw_mut_drop p (deferred s)\<rparr>)))
       (\<lambda>s. set_queue b (ucw_mut_drop p (queue b s)) s))"

text \<open>\<open>Guard::drop\<close> of \<open>rotate_once\<close>: the polled task leaves the front of the queue, or the other queue.\<close>

definition rotate_guard :: "profile \<Rightarrow> bool \<Rightarrow> nat \<Rightarrow> (('f, 'u) sched, unit) exec" where
  "rotate_guard p b key =
     bind_exec (on_ctrl (modify_exec (\<lambda>c. c\<lparr>current := None\<rparr>))) (\<lambda>_.
     bind_exec (on_queue b (ucw_borrow_mut p)) (\<lambda>from.
     if from \<noteq> [] \<and> hd from = key then on_queue b (modify_exec (\<lambda>c. ucw_mut_drop p (ucw_write tl c)))
     else
       bind_exec (on_queue b (modify_exec (ucw_mut_drop p))) (\<lambda>_.
       on_queue (\<not> b) (ucw_update p (remove1 key)))))"

text \<open>A task read again through the reference that is held to it.\<close>

definition reason_now :: "nat \<Rightarrow> ('f, 'u) sched \<Rightarrow> stop_reason option" where
  "reason_now key s = map_option df_stop_reason (slab_get key (reg_slab (registry (ctrl s))))"

text \<open>What follows the poll of the task \<open>key\<close>: it is removed, or queued again.\<close>

definition rotate_after :: "profile \<Rightarrow> bool \<Rightarrow> nat \<Rightarrow> 'f dynamic_future \<Rightarrow> bool \<Rightarrow> (('f, 'u) sched, unit) exec" where
  "rotate_after p b key task is_ready =
     bind_exec (gets_exec (reason_now key)) (\<lambda>reason.
     if is_ready \<or> reason = Some SrCancelled then
       bind_exec (modify_exec (sched_drop_ref p)) (\<lambda>_. on_ctrl (remove_task p key))
     else
       guard_exec
         (if reason \<noteq> Some SrSuspended then
            bind_exec (gets_exec (\<lambda>s. is_runnable (arcs (ctrl s)) task)) (\<lambda>run.
            if run then on_queue (\<not> b) (ucw_update p (\<lambda>q. q @ [key]))
            else on_deferred (ucw_update p (\<lambda>d. d @ [key])))
          else return_exec ())
         (sched_drop_ref p))"

text \<open>One iteration of the loop of \<open>rotate_once\<close>, for the key at the front of the queue \<open>b\<close>.\<close>

definition rotate_task :: "profile \<Rightarrow> ('f, 'u) body \<Rightarrow> bool \<Rightarrow> nat \<Rightarrow> (('f, 'u) sched, unit) exec" where
  "rotate_task p body b run_key =
     bind_exec (on_ctrl (on_registry (registry_get p run_key))) (\<lambda>t.
     bind_exec (expect_exec ''Internal Error: unknown task in queue.'' t) (\<lambda>run_task.
     let reason = df_stop_reason run_task in
     if reason \<noteq> SrNone then
       bind_exec (modify_exec (sched_drop_ref p)) (\<lambda>_.
       if reason = SrCancelled then on_ctrl (remove_task p run_key) else return_exec ())
     else
       bind_exec (on_ctrl (modify_exec (\<lambda>c. c\<lparr>current := Some run_key, polled := polled c @ [run_key]\<rparr>))) (\<lambda>_.
       catch_exec (sched_poll_local p body run_key run_task)
         (\<lambda>res. bind_exec (rotate_guard p b run_key) (\<lambda>_. rotate_after p b run_key run_task (res = Ready ())))
         (\<lambda>e. guard_exec (bind_exec (rotate_guard p b run_key) (\<lambda>_. panic_exec e)) (sched_drop_ref p)))))"

text \<open>The loop, with at most \<open>n\<close> looks at the queue; \<open>None\<close> when they are used up.\<close>

primrec rotate_loop :: "profile \<Rightarrow> ('f, 'u) body \<Rightarrow> bool \<Rightarrow> nat \<Rightarrow> (('f, 'u) sched, unit option) exec" where
  "rotate_loop p body b 0 = return_exec None"
| "rotate_loop p body b (Suc n) =
     bind_exec (on_queue b (ucw_read p (\<lambda>q. case q of [] \<Rightarrow> None | k # _ \<Rightarrow> Some k))) (\<lambda>front.
     case front of
       None \<Rightarrow> return_exec (Some ())
     | Some run_key \<Rightarrow> bind_exec (rotate_task p body b run_key) (\<lambda>_. rotate_loop p body b n))"

text \<open>
  The scan at the end of \<open>rotate_once\<close>: cancelled tasks leave the other queue and the registry. A queue
  whose \<open>retain\<close> unwound is left as it was.
\<close>

primrec scan_queue :: "profile \<Rightarrow> nat list \<Rightarrow> nat list \<Rightarrow> (('f, 'u) sched, nat list) exec" where
  "scan_queue p ys [] = return_exec ys"
| "scan_queue p ys (k # ks) =
     bind_exec (on_ctrl (on_registry (registry_get p k))) (\<lambda>t.
     bind_exec (expect_exec ''called `Option::unwrap()` on a `None` value'' t) (\<lambda>task.
     bind_exec (modify_exec (sched_drop_ref p)) (\<lambda>_.
     scan_queue p (if df_stop_reason task \<noteq> SrCancelled then ys @ [k] else ys) ks)))"

definition scan :: "profile \<Rightarrow> bool \<Rightarrow> (('f, 'u) sched, unit) exec" where
  "scan p b =
     bind_exec (gets_exec scan_registry) (\<lambda>flag.
     if flag then
       bind_exec (modify_exec (\<lambda>s. s\<lparr>scan_registry := False\<rparr>)) (\<lambda>_.
       bind_exec (on_queue (\<not> b) (ucw_borrow_mut p)) (\<lambda>to.
       bind_exec
         (guard_exec (bind_exec (scan_queue p [] to) (\<lambda>to'. on_queue (\<not> b) (modify_exec (ucw_write (\<lambda>_. to')))))
            (\<lambda>s. set_queue (\<not> b) (ucw_mut_drop p (queue (\<not> b) s)) s)) (\<lambda>_.
       on_ctrl (on_registry (registry_retain p (\<lambda>_ v c. (df_stop_reason v \<noteq> SrCancelled, c)) ())))))
     else return_exec ())"

definition rotate_once :: "profile \<Rightarrow> ('f, 'u) body \<Rightarrow> bool \<Rightarrow> nat \<Rightarrow> (('f, 'u) sched, unit option) exec" where
  "rotate_once p body b n =
     bind_exec (rotate_loop p body b n) (\<lambda>r.
     case r of None \<Rightarrow> return_exec None | Some _ \<Rightarrow> bind_exec (scan p b) (\<lambda>_. return_exec (Some ())))"

definition sched_beat_once ::
  "profile \<Rightarrow> ('f, 'u) body \<Rightarrow> bool \<Rightarrow> nat \<Rightarrow> nat \<Rightarrow> (('f, 'u) sched, rotate option) exec" where
  "sched_beat_once p body b waker n =
     bind_exec (process_tasks p b waker) (\<lambda>r.
     case r of
       Wait \<Rightarrow> return_exec (Some Wait)
     | Continue \<Rightarrow> bind_exec (rotate_once p body b n) (\<lambda>x. return_exec (map_option (\<lambda>_. Continue) x)))"

text \<open>One iteration of the loop of \<open>poll_internal\<close>: out of fuel, go on, or the value returned.\<close>

datatype step_result = OutOfFuel | GoOn | Return "bool poll"

definition poll_decide :: "profile \<Rightarrow> (('f, 'u) sched, step_result) exec" where
  "poll_decide p =
     bind_exec (on_queue False (ucw_read p (\<lambda>q. q = []))) (\<lambda>e0.
     bind_exec (if e0 then on_queue True (ucw_read p (\<lambda>q. q = [])) else return_exec False) (\<lambda>e1.
     bind_exec (if e1 then on_deferred (ucw_read p (\<lambda>d. d = [])) else return_exec False) (\<lambda>e2.
     if e2 then
       bind_exec (gets_exec (\<lambda>s. suspended_count (ctrl s))) (\<lambda>c. return_exec (Return (Ready (c = 0))))
     else return_exec GoOn)))"

definition sched_poll_iter :: "profile \<Rightarrow> ('f, 'u) body \<Rightarrow> nat \<Rightarrow> nat \<Rightarrow> (('f, 'u) sched, step_result) exec" where
  "sched_poll_iter p body waker n =
     bind_exec (on_ctrl (modify_exec (\<lambda>c. snd (waker_clear c)))) (\<lambda>_.
     bind_exec (gets_exec which_buffer) (\<lambda>b.
     bind_exec (sched_beat_once p body b waker n) (\<lambda>res.
     case res of
       None \<Rightarrow> return_exec OutOfFuel
     | Some beat_result \<Rightarrow>
         bind_exec (modify_exec (\<lambda>s. s\<lparr>which_buffer := \<not> which_buffer s\<rparr>)) (\<lambda>_.
         if beat_result = Wait then return_exec (Return Pending) else poll_decide p))))"

text \<open>\<open>poll_internal\<close> with at most \<open>n\<close> iterations of its loop, and \<open>n\<close> in each rotation.\<close>

primrec sched_poll_loop ::
  "profile \<Rightarrow> ('f, 'u) body \<Rightarrow> nat \<Rightarrow> nat \<Rightarrow> nat \<Rightarrow> ('f, 'u) sched \<Rightarrow> ((panic + bool poll) \<times> ('f, 'u) sched) option"
where
  "sched_poll_loop p body waker n 0 s = None"
| "sched_poll_loop p body waker n (Suc m) s =
     (case sched_poll_iter p body waker n s of
        (Inl e, s') \<Rightarrow> Some (Inl e, s')
      | (Inr OutOfFuel, s') \<Rightarrow> None
      | (Inr (Return r), s') \<Rightarrow> Some (Inr r, s')
      | (Inr GoOn, s') \<Rightarrow> sched_poll_loop p body waker n m s')"

definition sched_poll ::
  "profile \<Rightarrow> ('f, 'u) body \<Rightarrow> nat \<Rightarrow> nat \<Rightarrow> ('f, 'u) sched \<Rightarrow> ((panic + bool poll) \<times> ('f, 'u) sched) option"
where
  "sched_poll p body waker n s = sched_poll_loop p body waker n n s"

declare sched_new_def [run] on_ctrl_def [run] on_deferred_def [run] queue_def [run] set_queue_def [run] on_queue_def [run]
  enqueue_runnable_def [run] sched_register_def [run] sched_spawn_def [run]

end
