(* ===== verification/Queue_Rotation.thy ===== *)
theory Queue_Rotation
  imports Queue_Scheduler
begin

text \<open>
  \<open>rotate_once\<close> of \<open>src/dy/algorithm.rs\<close>: the invariant of the queues, what the code of tasks that leave
  the others alone does to them, and that a rotation works off its queue in order, once each.
\<close>

subsection \<open>Access to the parts of the state\<close>

abbreviation queue_list :: "bool \<Rightarrow> ('f, 'u) sched \<Rightarrow> nat list" where
  "queue_list b s \<equiv> uc_value (queue b s)"

abbreviation deferred_list :: "('f, 'u) sched \<Rightarrow> nat list" where
  "deferred_list s \<equiv> uc_value (deferred s)"

lemma wpx_on_ctrl [wp, simp]:
  "wpx (on_ctrl m) Q E s = wpx m (\<lambda>x c. Q x (s\<lparr>ctrl := c\<rparr>)) (\<lambda>e c. E e (s\<lparr>ctrl := c\<rparr>)) (ctrl s)"
  by (simp add: wpx_def on_ctrl_def split: prod.splits sum.splits)

lemma wpx_on_deferred [wp, simp]:
  "wpx (on_deferred m) Q E s = wpx m (\<lambda>x c. Q x (s\<lparr>deferred := c\<rparr>)) (\<lambda>e c. E e (s\<lparr>deferred := c\<rparr>)) (deferred s)"
  by (simp add: wpx_def on_deferred_def split: prod.splits sum.splits)

lemma wpx_on_queue [wp, simp]:
  "wpx (on_queue b m) Q E s = wpx m (\<lambda>x c. Q x (set_queue b c s)) (\<lambda>e c. E e (set_queue b c s)) (queue b s)"
  by (simp add: wpx_def on_queue_def split: prod.splits sum.splits)

lemma wpx_on_registry [wp, simp]:
  "wpx (on_registry m) Q E c = wpx m (\<lambda>x r. Q x (c\<lparr>registry := r\<rparr>)) (\<lambda>e r. E e (c\<lparr>registry := r\<rparr>)) (registry c)"
  by (simp add: wpx_def on_registry_def split: prod.splits sum.splits)

lemma queue_simps [simp]:
  "queue b (set_queue b' c s) = (if b = b' then c else queue b s)" "ctrl (set_queue b c s) = ctrl s"
  "deferred (set_queue b c s) = deferred s" "scan_registry (set_queue b c s) = scan_registry s"
  "which_buffer (set_queue b c s) = which_buffer s" "queue b (s\<lparr>ctrl := c'\<rparr>) = queue b s"
  "queue b (s\<lparr>deferred := d\<rparr>) = queue b s" "queue b (s\<lparr>which_buffer := w\<rparr>) = queue b s"
  "queue b (s\<lparr>scan_registry := w\<rparr>) = queue b s" "set_queue b (queue b s) s = s"
  by (simp_all add: queue_def set_queue_def)

lemma wpx_read [simp]: "uc_flag c = 0 \<Longrightarrow> wpx (ucw_read p f) Q E c = Q (f (uc_value c)) c"
  by (simp add: wpx_def ucw_read_ok)

lemma wpx_update [simp]: "uc_flag c = 0 \<Longrightarrow> wpx (ucw_update p f) Q E c = Q () (c\<lparr>uc_value := f (uc_value c)\<rparr>)"
  by (simp add: wpx_def ucw_update_ok)

lemma sched_drop_ref_simps [simp]:
  "ctrl (sched_drop_ref p s) = drop_ref p (ctrl s)" "queue b (sched_drop_ref p s) = queue b s"
  "deferred (sched_drop_ref p s) = deferred s" "which_buffer (sched_drop_ref p s) = which_buffer s"
  "scan_registry (sched_drop_ref p s) = scan_registry s"
  by (simp_all add: sched_drop_ref_def)

definition cells_free :: "('f, 'u) sched \<Rightarrow> bool" where
  "cells_free s \<longleftrightarrow> uc_flag (deferred s) = 0 \<and> (\<forall>b. uc_flag (queue b s) = 0)"

lemma cells_freeD [dest]: "cells_free s \<Longrightarrow> uc_flag (deferred s) = 0" "cells_free s \<Longrightarrow> uc_flag (queue b s) = 0"
  by (simp_all add: cells_free_def)

subsection \<open>Tasks that leave the others alone\<close>

text \<open>A call that neither stops a task nor spawns a suspended one, and code that makes only such calls.\<close>

fun calm_call :: "'f hcall \<Rightarrow> bool" where
  "calm_call (CallSpawn sp f) = (\<not> sp_suspended sp)"
| "calm_call (CallCancel k) = False"
| "calm_call (CallSuspend k) = False"
| "calm_call (CallResume k) = False"
| "calm_call _ = True"

primrec calm_prog :: "('f, 'u) prog \<Rightarrow> bool" where
  "calm_prog (PReady u) = True"
| "calm_prog (PPending f u) = True"
| "calm_prog (PPanic u) = True"
| "calm_prog (PCall c k) = (calm_call c \<and> (\<forall>r. calm_prog (k r)))"

definition calm :: "('f, 'u) body \<Rightarrow> bool" where
  "calm body \<longleftrightarrow> (\<forall>f w u. calm_prog (body f w u))"

definition unstopped :: "('f, 'u) alg \<Rightarrow> bool" where
  "unstopped c \<longleftrightarrow> suspended_count c = 0 \<and> (\<forall>k t. task_at c k = Some t \<longrightarrow> df_stop_reason t = SrNone)"

text \<open>What such code does: the tasks it spawned are at the end of the queue that is not being worked off.\<close>

definition queued_new :: "('f, 'u) sched \<Rightarrow> ('f, 'u) sched \<Rightarrow> bool" where
  "queued_new s s' \<longleftrightarrow>
     (\<exists>ks. queue_list (\<not> which_buffer s) s' = queue_list (\<not> which_buffer s) s @ ks \<and> distinct ks
        \<and> dom (task_at (ctrl s')) = dom (task_at (ctrl s)) \<union> set ks \<and> set ks \<inter> dom (task_at (ctrl s)) = {})"

definition calm_ok :: "profile \<Rightarrow> nat \<Rightarrow> nat option \<Rightarrow> nat option \<Rightarrow> ('f, 'u) sched \<Rightarrow> 'a \<Rightarrow> ('f, 'u) sched \<Rightarrow> bool" where
  "calm_ok p n c q s x s' \<longleftrightarrow>
     alg_inv p n c q (ctrl s') \<and> kept (ctrl s) (ctrl s') \<and> polled (ctrl s') = polled (ctrl s) \<and> cells_free s'
     \<and> which_buffer s' = which_buffer s \<and> deferred s' = deferred s \<and> scan_registry s' = scan_registry s
     \<and> queue (which_buffer s) s' = queue (which_buffer s) s \<and> queued_new s s'
     \<and> unstopped (ctrl s')"

lemma queued_new_trans:
  assumes "queued_new s s1" and "queued_new s1 s2" and "which_buffer s1 = which_buffer s"
  shows "queued_new s s2"
proof -
  obtain ks ks' where
    1: "queue_list (\<not> which_buffer s) s1 = queue_list (\<not> which_buffer s) s @ ks" "distinct ks"
      "dom (task_at (ctrl s1)) = dom (task_at (ctrl s)) \<union> set ks" "set ks \<inter> dom (task_at (ctrl s)) = {}"
    and 2: "queue_list (\<not> which_buffer s) s2 = queue_list (\<not> which_buffer s) s1 @ ks'" "distinct ks'"
      "dom (task_at (ctrl s2)) = dom (task_at (ctrl s1)) \<union> set ks'" "set ks' \<inter> dom (task_at (ctrl s1)) = {}"
    using assms unfolding queued_new_def by auto
  then show ?thesis unfolding queued_new_def by (intro exI [of _ "ks @ ks'"]) auto
qed

lemma calm_ok_trans: "calm_ok p n c q s x s1 \<Longrightarrow> calm_ok p n' c' q' s1 y s2 \<Longrightarrow> calm_ok p n' c' q' s z s2"
  by (auto simp: calm_ok_def intro: kept_trans queued_new_trans)

text \<open>A step that changes no task's place.\<close>

lemma calm_ok_same:
  assumes "alg_inv p n c q c'" and "kept (ctrl s) c'" and "polled c' = polled (ctrl s)"
    and "dom (task_at c') = dom (task_at (ctrl s))" and "unstopped c'" and "cells_free s"
  shows "calm_ok p n c q s x (s\<lparr>ctrl := c'\<rparr>)"
  using assms by (auto simp: calm_ok_def queued_new_def cells_free_def intro: exI [of _ "[]"])

lemma calm_ok_refl: "alg_inv p n c q (ctrl s) \<Longrightarrow> cells_free s \<Longrightarrow> unstopped (ctrl s) \<Longrightarrow> calm_ok p n c q s x s"
  using calm_ok_same [of p n c q "ctrl s" s x] by simp

subsection \<open>Their calls\<close>

text \<open>How it unwinds; the cells are not borrowed then.\<close>

definition calm_panic :: "panic \<Rightarrow> ('f, 'u) sched \<Rightarrow> bool" where
  "calm_panic e s \<longleftrightarrow> (out_of_memory e \<or> e = UserPanic) \<and> cells_free s"

lemma sched_spawn_eq:
  assumes "\<not> sp_suspended sp"
  shows "sched_spawn p sp fut =
     bind_exec (on_ctrl (spawn_task p sp fut)) (\<lambda>key.
     bind_exec (case key of Some k \<Rightarrow> enqueue_runnable p k False | None \<Rightarrow> return_exec ()) (\<lambda>_. return_exec key))"
  using assms
  by (auto simp: fun_eq_iff sched_spawn_def spawn_task_def register_def sched_register_def exec_defs on_ctrl_def Let_def
      sync_flags_new_def split: sum.split prod.split option.split)

lemma spawn_calm:
  assumes inv: "alg_inv p n c q (ctrl s)" and free: "cells_free s" and un: "unstopped (ctrl s)" and sp: "\<not> sp_suspended sp"
  shows "wpx (sched_spawn p sp fut) (\<lambda>x s'. calm_ok p n c q s x s') calm_panic s"
  unfolding sched_spawn_eq [OF sp] wpx_bind wpx_on_ctrl
proof (rule wpx_mono [OF spawn_task_ok [OF inv]], goal_cases)
  case (1 key c')
  then obtain k where key: "key = Some k" and inv': "alg_inv p n c q c'" and sp': "spawned sp fut k (ctrl s) c'"
    and cnt: "suspended_count c' = 0" using un sp by (auto simp: unstopped_def)
  have "kept (ctrl s) c'" by (rule frame_kept [OF spawned_frame [OF sp']])
  moreover have "unstopped c'" using un cnt sp sp' by (auto simp: unstopped_def spawned_def split: if_splits)
  moreover have "queued_new s (set_queue (\<not> which_buffer s) ((queue (\<not> which_buffer s) s)\<lparr>uc_value := queue_list (\<not> which_buffer s) s @ [k]\<rparr>)
      (s\<lparr>ctrl := c'\<rparr>))"
    unfolding queued_new_def using sp' by (intro exI [of _ "[k]"]) (auto simp: spawned_def)
  moreover have "polled c' = polled (ctrl s)" using sp' by (simp add: spawned_def)
  ultimately show ?case
    using inv' cells_freeD [OF free] unfolding key
    by (simp add: enqueue_runnable_def calm_ok_def cells_free_def)
qed (use free un in \<open>auto simp: calm_panic_def cells_free_def unstopped_def usize_MAX_def\<close>)

lemma get_by_name_keeps:
  assumes "alg_inv p n c q (ctrl s)"
  shows "wpx (sched_get_by_name p name) (\<lambda>x s'. s' = s) (\<lambda>e s'. False) s"
proof -
  have flag: "reg_iterate_flag (registry (ctrl s)) = 0" using assms by (simp add: alg_inv_def reg_inv_def)
  then show ?thesis
    by (cases p) (simp_all add: sched_get_by_name_def registry_iter_def iter_drop_def wpx_def bind_exec_def guard_exec_def return_exec_def
        on_ctrl_def on_registry_def SENTINEL_def usize_MAX_def usize_add_def)
qed

lemma sched_call_calm:
  assumes inv: "alg_inv p n c q (ctrl s)" and n: "n < usize_MAX" and free: "cells_free s" and un: "unstopped (ctrl s)" and calm: "calm_call call"
  shows "wpx (sched_call p call) (\<lambda>x s'. calm_ok p n c q s x s') calm_panic s"
proof (cases call)
  case (CallSpawn sp fut)
  with calm show ?thesis by (auto intro!: wpx_mono [OF spawn_calm [OF inv free un]] simp: calm_ok_def)
next
  case (CallWake w)
  have "kept (ctrl s) (wake w (ctrl s))" by (rule frame_kept, rule frame_cong [of _ "ctrl s"]) simp_all
  with CallWake inv free un show ?thesis by (auto simp: unstopped_def intro!: calm_ok_same)
next
  case (CallGetByName name)
  with inv free un show ?thesis by (auto intro!: wpx_mono [OF get_by_name_keeps [OF inv]] calm_ok_refl)
next
  case (CallGetState k)
  with inv free un show ?thesis
    by (simp add: sched_get_state_def wpx_def [of "get_state p k"] get_state_eq [OF inv n] calm_ok_refl)
next
  case (CallGetName k)
  with inv free un show ?thesis
    by (simp add: sched_with_name_def wpx_def [of "with_name p k _"] with_name_eq [OF inv n] calm_ok_refl)
qed (use calm inv free un in \<open>simp_all add: calm_ok_refl\<close>)

lemma sched_run_calm:
  assumes "alg_inv p n c q (ctrl s)" and n: "n < usize_MAX" and "cells_free s" and "unstopped (ctrl s)" and "calm_prog pr"
  shows "wpx (sched_run p pr) (\<lambda>x s'. calm_ok p n c q s x s')
     calm_panic s"
  using assms(1,3-)
proof (induction pr arbitrary: s)
  case (PCall call k)
  have step: "wpx (sched_run p (k r)) (\<lambda>x s'. calm_ok p n c q s x s')
      calm_panic s1" if ok: "calm_ok p n c q s r' s1" for r s1 and r' :: reply
  proof (rule wpx_mono [OF PCall.IH])
    show "alg_inv p n c q (ctrl s1)" "cells_free s1" "unstopped (ctrl s1)" using ok by (simp_all add: calm_ok_def)
  qed (use PCall.prems ok in \<open>auto elim: calm_ok_trans\<close>)
  show ?case
    using PCall.prems by (auto intro!: wpx_mono [OF sched_call_calm [OF _ n]] step)
qed (auto intro!: calm_ok_same simp: unstopped_def kept_def calm_panic_def cells_free_def)

subsection \<open>Polling a task\<close>

lemma modify_task_dom: "alg_inv p n c q s \<Longrightarrow> dom (task_at (modify_task k f s)) = dom (task_at s)"
  by (auto simp: task_at_modify split: if_splits)

lemma modify_task_unstopped:
  "alg_inv p n c q s \<Longrightarrow> (\<And>t. df_stop_reason (f t) = df_stop_reason t) \<Longrightarrow> unstopped s \<Longrightarrow> unstopped (modify_task k f s)"
  by (auto simp: unstopped_def task_at_modify split: if_splits)

lemma modify_calm:
  assumes inv: "alg_inv p n c q (ctrl s)" and inv': "alg_inv p n c q' (modify_task k f (ctrl s))" and free: "cells_free s"
    and un: "unstopped (ctrl s)"
    and "\<And>t. df_flags (f t) = df_flags t" "\<And>t. df_name (f t) = df_name t" "\<And>t. df_stop_reason (f t) = df_stop_reason t"
  shows "calm_ok p n c q' s x (s\<lparr>ctrl := modify_task k f (ctrl s)\<rparr>)"
  by (rule calm_ok_same [OF inv'])
     (simp_all add: assms kept_modify [OF inv] modify_task_dom [OF inv] modify_task_unstopped [OF inv])

lemma flag_calm:
  assumes inv: "alg_inv p n c q (ctrl s)" and free: "cells_free s" and un: "unstopped (ctrl s)"
  shows "calm_ok p n c q s x (s\<lparr>ctrl := (ctrl s)\<lparr>arcs := set_runnable i v (arcs (ctrl s))\<rparr>\<rparr>)"
  by (rule calm_ok_same) (use inv free un in \<open>auto simp: set_runnable_def kept_def unstopped_def\<close>)

lemma calm_okD:
  "calm_ok p n c q s x s' \<Longrightarrow> alg_inv p n c q (ctrl s')" "calm_ok p n c q s x s' \<Longrightarrow> cells_free s'"
  "calm_ok p n c q s x s' \<Longrightarrow> unstopped (ctrl s')"
  by (simp_all add: calm_ok_def)

lemma future_inv:
  assumes "alg_inv p n c q s"
  shows "alg_inv p n c q (modify_task k (\<lambda>t. t\<lparr>df_future := f\<rparr>) s)"
  using modify_task_inv [OF assms, of "\<lambda>t. t\<lparr>df_future := f\<rparr>" k "suspended_count s"]
    suspended_keys_modify [OF assms, of "\<lambda>t. t\<lparr>df_future := f\<rparr>" k] alg_inv_count [OF assms] by simp

lemma sched_poll_local_calm:
  assumes inv: "alg_inv p n c None (ctrl s)" and n: "n < usize_MAX" and free: "cells_free s" and un: "unstopped (ctrl s)" and calm: "calm body"
    and t: "task_at (ctrl s) k = Some t"
  shows "wpx (sched_poll_local p body k t) (\<lambda>x s'. calm_ok p n c None s x s') calm_panic s"
proof -
  let ?s1 = "s\<lparr>ctrl := modify_task k (set_polling True) (ctrl s)\<rparr>"
  let ?s2 = "s\<lparr>ctrl := (modify_task k (set_polling True) (ctrl s))\<lparr>arcs := set_runnable (df_flags t) False (arcs (ctrl s))\<rparr>\<rparr>"
  have idle: "\<not> df_polling t" using inv t by (auto simp: alg_inv_def)
  have 1: "calm_ok p n c (Some k) s () ?s1"
    using set_polling_inv [OF inv t, of True] by (intro modify_calm [OF inv _ free un]) simp_all
  have 2: "calm_ok p n c (Some k) s () ?s2"
    using calm_ok_trans [OF 1 flag_calm [OF calm_okD [OF 1]]] by simp
  have fin: "calm_ok p n c None s x (s'\<lparr>ctrl := modify_task k (set_polling False) (ctrl s')\<rparr>)"
    if ok: "calm_ok p n c (Some k) s y s'" for s' and x :: 'x and y :: 'y
  proof (rule calm_ok_trans [OF ok])
    obtain t' where "task_at (ctrl s') k = Some t'" using calm_okD(1) [OF ok] by (auto simp: alg_inv_def)
    then have "alg_inv p n c None (modify_task k (set_polling False) (ctrl s'))"
      using set_polling_inv [OF calm_okD(1) [OF ok], of k t' False] by simp
    then show "calm_ok p n c None s' x (s'\<lparr>ctrl := modify_task k (set_polling False) (ctrl s')\<rparr>)"
      by (intro modify_calm [OF calm_okD(1) [OF ok] _ calm_okD(2,3) [OF ok]]) simp_all
  qed
  have fut: "calm_ok p n c (Some k) s x (s'\<lparr>ctrl := modify_task k (\<lambda>t. t\<lparr>df_future := f\<rparr>) (ctrl s')\<rparr>)"
    if ok: "calm_ok p n c (Some k) s y s'" for s' f and x :: unit and y :: 'y
    by (rule calm_ok_trans [OF ok], rule modify_calm [OF calm_okD(1) [OF ok] future_inv [OF calm_okD(1) [OF ok]] calm_okD(2,3) [OF ok]])
       simp_all
  have run: "wpx (sched_run p (body (df_future t) (df_flags t) (user (ctrl s))))
      (\<lambda>x s'. calm_ok p n c (Some k) s x s') calm_panic ?s2"
    by (rule wpx_mono [OF sched_run_calm [OF calm_okD(1) [OF 2] n calm_okD(2,3) [OF 2]]])
       (use calm calm_ok_trans [OF 2] in \<open>auto simp: calm_def\<close>)
  show ?thesis
    unfolding sched_poll_local_def using idle
    by (simp, intro wpx_mono [OF run]) (auto split: option.split dest: fin [OF fut] fin simp: calm_panic_def cells_free_def)
qed

subsection \<open>The rotation\<close>

text \<open>Every stored task is in one of the two queues or deferred, once.\<close>

definition places :: "('f, 'u) sched \<Rightarrow> nat list" where
  "places s = queue_list False s @ queue_list True s @ deferred_list s"

definition placed :: "('f, 'u) sched \<Rightarrow> bool" where
  "placed s \<longleftrightarrow> distinct (places s) \<and> set (places s) = dom (task_at (ctrl s))"

definition sched_shape :: "profile \<Rightarrow> ('f, 'u) sched \<Rightarrow> bool" where
  "sched_shape p s \<longleftrightarrow> alg_idle p (ctrl s) \<and> unstopped (ctrl s) \<and> \<not> scan_registry s \<and> placed s"

definition sched_inv :: "profile \<Rightarrow> ('f, 'u) sched \<Rightarrow> bool" where
  "sched_inv p s \<longleftrightarrow> sched_shape p s \<and> cells_free s"

lemma task_at_alg_new [simp]: "task_at (alg_new u ext) = Map.empty" "suspended_count (alg_new u ext) = 0"
  by (simp_all add: alg_new_def alg_with_def)

lemma sched_new_inv: "sched_inv p (sched_new u ext)"
  using alg_new_idle [of p u ext]
  by (auto simp: sched_inv_def sched_shape_def sched_new_def unstopped_def placed_def places_def cells_free_def queue_def)

lemma places_by:
  "distinct (places s) \<longleftrightarrow> distinct (queue_list b s @ queue_list (\<not> b) s @ deferred_list s)"
  "set (places s) = set (queue_list b s) \<union> set (queue_list (\<not> b) s) \<union> set (deferred_list s)"
  by (cases b; auto simp: places_def)+

lemma rotate_guard_pops:
  assumes "cells_free s" and "queue_list b s = k # ks"
  shows "rotate_guard p b k s = (Inr (), set_queue b ((queue b s)\<lparr>uc_value := ks\<rparr>) (s\<lparr>ctrl := (ctrl s)\<lparr>current := None\<rparr>\<rparr>))"
  using assms cells_freeD(2) [OF assms(1), of b]
  by (cases p; cases b)
     (simp_all add: rotate_guard_def exec_defs on_ctrl_def on_queue_def ucw_borrow_mut_def ucw_mut_drop_def ucw_write_def queue_def
       set_queue_def)

lemma rotate_guard_free: "cells_free s \<Longrightarrow> wpx (rotate_guard p b k) (\<lambda>_ s'. cells_free s') (\<lambda>_ _. False) s"
  by (cases p)
     (auto simp: rotate_guard_def cells_free_def ucw_mut_drop_def ucw_write_def ucw_borrow_mut_def wpx_def [of "ucw_borrow_mut _"])

lemma reason_now_eq: "alg_inv p n c q (ctrl s) \<Longrightarrow> reason_now k s = map_option df_stop_reason (task_at (ctrl s) k)"
  using slab_get_view [of usize_MAX "reg_slab (registry (ctrl s))" k]
  by (simp add: alg_inv_def reg_inv_def reason_now_def reg_view_def)

lemma removed_unstopped: "alg_idle p c \<Longrightarrow> unstopped c \<Longrightarrow> unstopped (removed p k c)"
  by (auto simp: unstopped_def removed_view split: if_splits)

lemma drop_ref_unstopped [simp]: "unstopped (drop_ref p c) = unstopped c"
  by (simp add: unstopped_def)

definition rotated :: "profile \<Rightarrow> bool \<Rightarrow> nat list \<Rightarrow> nat list \<Rightarrow> ('f, 'u) sched \<Rightarrow> ('f, 'u) sched \<Rightarrow> bool" where
  "rotated p b ks ps s s' \<longleftrightarrow> sched_inv p s' \<and> which_buffer s' = which_buffer s \<and> queue_list b s' = ks
     \<and> polled (ctrl s') = polled (ctrl s) @ ps \<and> length (woken (ctrl s)) \<le> length (woken (ctrl s'))"

lemma rotate_after_ok:
  assumes inv: "alg_inv p (Suc 0) None None (ctrl s)" and free: "cells_free s"
    and un: "unstopped (ctrl s)" and scan: "\<not> scan_registry s"
    and place: "distinct (k # places s)" "insert k (set (places s)) = dom (task_at (ctrl s))"
  shows "wpx (rotate_after p b k t r) (\<lambda>_ s'. rotated p b (queue_list b s) [] s s') (\<lambda>e s'. False) s"
proof -
  obtain t' where t': "task_at (ctrl s) k = Some t'" using place(2) by auto
  then have reason: "reason_now k s = Some SrNone" using un by (simp add: reason_now_eq [OF inv] unstopped_def)
  have idle: "alg_idle p (drop_ref p (ctrl s))" using drop_ref_inv [OF inv] by simp
  note flags = cells_freeD(1) [OF free] cells_freeD(2) [OF free]
  show ?thesis
  proof (cases r)
    case True
    have "remove_task p k (drop_ref p (ctrl s)) = (Inr (), removed p k (drop_ref p (ctrl s)))"
      by (rule remove_task_eq [OF idle]) (simp add: t')
    moreover have "sched_inv p (s\<lparr>ctrl := removed p k (drop_ref p (ctrl s))\<rparr>)"
      using idle un scan free place
      by (auto simp: sched_inv_def sched_shape_def removed_inv removed_unstopped placed_def places_def removed_view cells_free_def)
    ultimately show ?thesis
      using True by (simp add: rotate_after_def wpx_def [of "remove_task p k"] rotated_def sched_drop_ref_def)
  next
    case False
    let ?q = "set_queue (\<not> b) ((queue (\<not> b) s)\<lparr>uc_value := queue_list (\<not> b) s @ [k]\<rparr>) (s\<lparr>ctrl := drop_ref p (ctrl s)\<rparr>)"
    let ?d = "s\<lparr>deferred := (deferred s)\<lparr>uc_value := deferred_list s @ [k]\<rparr>, ctrl := drop_ref p (ctrl s)\<rparr>"
    have p: "distinct (queue_list b s @ queue_list (\<not> b) s @ deferred_list s)" "k \<notin> set (places s)"
      using place(1) places_by(1) [of s b] by auto
    have "placed ?q" unfolding placed_def places_by [of ?q b] using p place(2) places_by(2) [of s b] by auto
    moreover have "placed ?d" unfolding placed_def places_by [of ?d b] using p place(2) places_by(2) [of s b] by auto
    ultimately have q: "sched_inv p ?q" "sched_inv p ?d"
      using idle un scan flags by (auto simp: sched_inv_def sched_shape_def cells_free_def)
    have sq: "sched_drop_ref p (set_queue (\<not> b) c s) = set_queue (\<not> b) c (s\<lparr>ctrl := drop_ref p (ctrl s)\<rparr>)" for c
      by (simp add: sched_drop_ref_def set_queue_def)
    show ?thesis
      using False reason q flags by (simp add: rotate_after_def rotated_def sq) (simp add: sched_drop_ref_def)
  qed
qed

lemma add_ref_unstopped [simp]: "unstopped (add_ref p c) = unstopped c"
  by (simp add: unstopped_def)

text \<open>After the poll of the front task: it is out of the queue, and everything else is in its place.\<close>

lemma after_poll_places:
  assumes inv: "sched_inv p s" and q: "queue_list (which_buffer s) s = k # ks"
    and ok: "calm_ok p (Suc 0) (Some k) None
      (s\<lparr>ctrl := (add_ref p (ctrl s))\<lparr>current := Some k, polled := polled (ctrl s) @ [k]\<rparr>\<rparr>) x s1"
    and s2: "s2 = set_queue (which_buffer s) ((queue (which_buffer s) s1)\<lparr>uc_value := ks\<rparr>) (s1\<lparr>ctrl := (ctrl s1)\<lparr>current := None\<rparr>\<rparr>)"
  shows "distinct (k # places s2)" and "insert k (set (places s2)) = dom (task_at (ctrl s2))"
proof -
  let ?b = "which_buffer s"
  have pl: "distinct (queue_list ?b s @ queue_list (\<not> ?b) s @ deferred_list s)"
    "set (queue_list ?b s) \<union> set (queue_list (\<not> ?b) s) \<union> set (deferred_list s) = dom (task_at (ctrl s))"
    using inv places_by [of s ?b] by (auto simp: sched_inv_def sched_shape_def placed_def)
  obtain ns where ns: "queue_list (\<not> ?b) s1 = queue_list (\<not> ?b) s @ ns" "distinct ns"
      "dom (task_at (ctrl s1)) = dom (task_at (ctrl s)) \<union> set ns" "set ns \<inter> dom (task_at (ctrl s)) = {}"
    using ok by (auto simp: calm_ok_def queued_new_def)
  have d: "deferred_list s1 = deferred_list s" using ok by (simp add: calm_ok_def)
  have l: "queue_list ?b s2 = ks" "queue_list (\<not> ?b) s2 = queue_list (\<not> ?b) s @ ns" "deferred_list s2 = deferred_list s"
    "task_at (ctrl s2) = task_at (ctrl s1)" using ns(1) d by (simp_all add: s2)
  have "distinct (places s2)" unfolding places_by(1) [of s2 ?b] l using pl ns(2,4) q by auto
  moreover have "k \<notin> set (places s2)" unfolding places_by(2) [of s2 ?b] l using pl ns(4) q by auto
  ultimately show "distinct (k # places s2)" by simp
  show "insert k (set (places s2)) = dom (task_at (ctrl s2))"
    unfolding places_by(2) [of s2 ?b] l ns(3) pl(2) [symmetric] q by auto
qed

lemma rotate_task_ok:
  assumes inv: "sched_inv p s" and q: "queue_list (which_buffer s) s = k # ks" and calm: "calm body"
  shows "wpx (rotate_task p body (which_buffer s) k) (\<lambda>_ s'. rotated p (which_buffer s) ks [k] s s') calm_panic s"
proof -
  let ?b = "which_buffer s" and ?c = "ctrl s"
  let ?s1 = "s\<lparr>ctrl := (add_ref p ?c)\<lparr>current := Some k, polled := polled ?c @ [k]\<rparr>\<rparr>"
  have idle: "alg_idle p ?c" and free: "cells_free s" and un: "unstopped ?c"
    using inv by (simp_all add: sched_inv_def sched_shape_def)
  have "k \<in> dom (task_at ?c)"
    using inv q places_by(2) [of s ?b] by (auto simp: sched_inv_def sched_shape_def placed_def)
  then obtain t where t: "task_at ?c k = Some t" by blast
  then have reason: "df_stop_reason t = SrNone" using un by (simp add: unstopped_def)
  have get: "on_registry (registry_get p k) ?c = (Inr (Some t), add_ref p ?c)"
    using get_ref_eq [OF idle, of k] t by simp
  have inv1: "alg_inv p (Suc 0) (Some k) None (ctrl ?s1)"
    using current_inv(1) [OF add_ref_inv [OF idle], of "Some k" "polled ?c @ [k]"] by simp
  have t1: "task_at (ctrl ?s1) k = Some t" using t add_ref_fields(7) [of p ?c] by simp
  have free1: "cells_free ?s1" using free by (simp add: cells_free_def)
  have after: "wpx (rotate_after p ?b k t r) (\<lambda>_ s'. rotated p ?b ks [k] s s') calm_panic s2"
    if ok: "calm_ok p (Suc 0) (Some k) None ?s1 x s'"
      and s2: "s2 = set_queue ?b ((queue ?b s')\<lparr>uc_value := ks\<rparr>) (s'\<lparr>ctrl := (ctrl s')\<lparr>current := None\<rparr>\<rparr>)"
    for s' s2 r and x :: "unit poll"
  proof (rule wpx_mono [OF rotate_after_ok])
    show "alg_inv p (Suc 0) None None (ctrl s2)" using current_inv(2) [OF calm_okD(1) [OF ok]] by (simp add: s2)
    show "cells_free s2" using calm_okD(2) [OF ok] by (auto simp: s2 cells_free_def)
    show "unstopped (ctrl s2)" "\<not> scan_registry s2"
      using ok un inv by (auto simp: s2 calm_ok_def unstopped_def sched_inv_def sched_shape_def)
    show "distinct (k # places s2)" "insert k (set (places s2)) = dom (task_at (ctrl s2))"
      using after_poll_places [OF inv q ok s2] by simp_all
    show "rotated p ?b ks [k] s s'" if "rotated p ?b (queue_list ?b s2) [] s2 s'" for s'
      using that ok s2 by (simp add: rotated_def calm_ok_def kept_def)
  qed simp_all
  have guard: "rotate_guard p ?b k s' = (Inr (), set_queue ?b ((queue ?b s')\<lparr>uc_value := ks\<rparr>) (s'\<lparr>ctrl := (ctrl s')\<lparr>current := None\<rparr>\<rparr>))"
    if "calm_ok p (Suc 0) (Some k) None ?s1 x s'" for s' and x :: "unit poll"
    using rotate_guard_pops [OF calm_okD(2) [OF that], of ?b k ks] that q by (simp add: calm_ok_def)
  have poll: "wpx (sched_poll_local p body k t) (\<lambda>x s'. calm_ok p (Suc 0) (Some k) None ?s1 x s') calm_panic ?s1"
    by (rule sched_poll_local_calm [OF inv1 _ free1 _ calm t1]) (use un in \<open>simp_all add: unstopped_def\<close>)
  have unwind: "case rotate_guard p ?b k s' of (Inl e', s2) \<Rightarrow> calm_panic e' (sched_drop_ref p s2)
      | (Inr x, s2) \<Rightarrow> calm_panic e (sched_drop_ref p s2)" if "calm_panic e s'" for e s'
    using rotate_guard_free [of s' p ?b k] that by (auto simp: wpx_def calm_panic_def cells_free_def split: prod.splits sum.splits)
  show ?thesis
    unfolding rotate_task_def wpx_bind wpx_on_ctrl
    using get reason poll
    by (simp add: wpx_def [of "on_registry _"] del: wpx_on_registry)
       (erule wpx_mono, simp_all add: wpx_def [of "rotate_guard _ _ _"] guard after unwind)
qed


lemma rotated_trans:
  "rotated p b ks ps s s1 \<Longrightarrow> rotated p b ks' ps' s1 s2 \<Longrightarrow> rotated p b ks' (ps @ ps') s s2"
  by (simp add: rotated_def)

lemma rotate_loop_ok:
  assumes "sched_inv p s" and "queue_list (which_buffer s) s = ks" and calm: "calm body"
  shows "wpx (rotate_loop p body (which_buffer s) n)
     (\<lambda>r s'. (length ks < n \<longrightarrow> r = Some ()) \<and> (r = Some () \<longrightarrow> rotated p (which_buffer s) [] ks s s')) calm_panic s"
  using assms(1,2)
proof (induction ks arbitrary: n s)
  case Nil
  then show ?case by (cases n) (simp_all add: sched_inv_def cells_freeD rotated_def)
next
  case (Cons k ks)
  have "wpx (rotate_loop p body (which_buffer s) m)
      (\<lambda>r s'. (length ks < m \<longrightarrow> r = Some ()) \<and> (r = Some () \<longrightarrow> rotated p (which_buffer s) [] (k # ks) s s')) calm_panic s1"
    if r: "rotated p (which_buffer s) ks [k] s s1" for s1 m
  proof -
    have "which_buffer s1 = which_buffer s" using r by (simp add: rotated_def)
    then show ?thesis
      using Cons.IH [of s1 m] r rotated_trans [OF r, of "[]" ks] by (force simp: rotated_def elim!: wpx_mono)
  qed
  then show ?case
    using Cons.prems
    by (cases n) (simp_all add: sched_inv_def [of p s] cells_freeD wpx_mono [OF rotate_task_ok [OF Cons.prems(1,2) calm]])
qed

lemma rotate_once_ok:
  assumes "sched_inv p s" and calm: "calm body"
  shows "wpx (rotate_once p body (which_buffer s) n)
     (\<lambda>r s'. (length (queue_list (which_buffer s) s) < n \<longrightarrow> r = Some ())
        \<and> (r = Some () \<longrightarrow> rotated p (which_buffer s) [] (queue_list (which_buffer s) s) s s')) calm_panic s"
  unfolding rotate_once_def wpx_bind
  by (rule wpx_mono [OF rotate_loop_ok [OF assms(1) refl calm]])
     (auto simp: scan_def rotated_def sched_inv_def sched_shape_def split: option.split)

end
