(* ===== verification/Queue_Correct.thy ===== *)
theory Queue_Correct
  imports Queue_Rotation
begin

text \<open>
  The poll of the scheduler of \<open>src/dy/algorithm.rs\<close>: how the deferred tasks return to the queue, what the
  results of a poll mean as long as no task is suspended or cancelled while it is in the queue, and what
  happens when one is.
\<close>

subsection \<open>The deferred tasks\<close>

lemma drain_elem_eq:
  assumes idle: "alg_idle p (ctrl s)" and un: "unstopped (ctrl s)" and t: "task_at (ctrl s) e = Some t"
  shows "drain_elem p b e s =
     (let s1 = s\<lparr>ctrl := deliver (ctrl s)\<rparr>; run = is_runnable (arcs (ctrl s1)) t in
      (Inr (\<not> run), if run then set_queue b (ucw_write (\<lambda>q. q @ [e]) (queue b s)) s1 else s1))"
proof -
  have idle1: "alg_idle p (deliver (ctrl s))" using idle by simp
  have "on_registry (registry_get p e) (deliver (ctrl s)) = (Inr (Some t), add_ref p (deliver (ctrl s)))"
    using get_ref_eq [OF idle1, of e] t by simp
  moreover have "drop_ref p (add_ref p (deliver (ctrl s))) = deliver (ctrl s)" by (rule drop_add_ref(1) [OF idle1]) simp
  moreover have "df_stop_reason t = SrNone" using un t by (simp add: unstopped_def)
  ultimately show ?thesis
    by (cases b) (simp_all add: drain_elem_def exec_defs on_ctrl_def on_queue_def queue_def set_queue_def Let_def sched_drop_ref_def)
qed

text \<open>
  Moving the tasks that became runnable from \<open>deferred\<close> to the queue \<open>b\<close> keeps every task in one place;
  if none moved, nothing of the queues changed.
\<close>

definition drained :: "profile \<Rightarrow> bool \<Rightarrow> ('f, 'u) sched \<Rightarrow> ('f, 'u) sched \<Rightarrow> bool" where
  "drained p b s s' \<longleftrightarrow> sched_shape p s' \<and> length (woken (ctrl s)) \<le> length (woken (ctrl s')) \<and> which_buffer s' = which_buffer s \<and> polled (ctrl s') = polled (ctrl s)
     \<and> task_at (ctrl s') = task_at (ctrl s) \<and> queue (\<not> b) s' = queue (\<not> b) s \<and> uc_flag (queue b s') = uc_flag (queue b s)
     \<and> uc_flag (deferred s') = uc_flag (deferred s) \<and> length (deferred_list s') \<le> length (deferred_list s)
     \<and> (length (deferred_list s') = length (deferred_list s) \<longrightarrow> queue b s' = queue b s \<and> deferred_list s' = deferred_list s)"

lemma drained_trans: "drained p b s s1 \<Longrightarrow> drained p b s1 s2 \<Longrightarrow> drained p b s s2"
  unfolding drained_def by (intro conjI) auto

text \<open>
  The outer waker \<open>w\<close> is registered and none of the tasks \<open>xs\<close> is runnable, or somebody was woken
  since \<open>n\<close> wakes.
\<close>

definition armed :: "nat \<Rightarrow> nat \<Rightarrow> nat set \<Rightarrow> ('f, 'u) alg \<Rightarrow> bool" where
  "armed w n xs c \<longleftrightarrow> n < length (woken c)
     \<or> last_waker c = Some w \<and> (\<forall>k\<in>xs. \<forall>t. task_at c k = Some t \<longrightarrow> \<not> is_runnable (arcs c) t)"

lemma fold_wake_cases: "ws = [] \<or> last_waker c = None \<or> length (woken c) < length (woken (fold wake ws c))"
proof (cases ws)
  case (Cons w ws')
  then show ?thesis
    using fold_wake_woken [of "wake w c" ws'] by (cases "last_waker c") (auto simp: wake_def notify_wake_def)
qed simp

lemma armed_deliver:
  assumes "armed w n xs c" and "n \<le> length (woken c)"
  shows "armed w n xs (deliver c)"
proof (cases "n < length (woken c)")
  case True
  then have "n < length (woken (deliver c))" using deliver_woken by (rule less_le_trans)
  then show ?thesis by (simp add: armed_def)
next
  case False
  then have c: "last_waker c = Some w" "\<forall>k\<in>xs. \<forall>t. task_at c k = Some t \<longrightarrow> \<not> is_runnable (arcs c) t" "n = length (woken c)"
    using assms by (simp_all add: armed_def)
  show ?thesis
  proof (cases "external c")
    case (Cons ws rest)
    have "ws = [] \<or> length (woken c) < length (woken (deliver c))"
      using fold_wake_cases [of ws "c\<lparr>external := rest\<rparr>"] c(1) by (auto simp: deliver_def Cons)
    then show ?thesis
    proof
      assume "ws = []"
      then show ?thesis using c by (simp add: armed_def deliver_def Cons)
    qed (simp add: armed_def c(3))
  qed (use assms in \<open>simp add: deliver_def\<close>)
qed

text \<open>Looking at one deferred task.\<close>

lemma drain_step:
  assumes shape: "sched_shape p s" and d: "deferred_list s = ys @ e # es" and t: "task_at (ctrl s) e = Some t"
    and run: "run = is_runnable (arcs (deliver (ctrl s))) t"
    and s1: "s1 = (if run then set_queue b (ucw_write (\<lambda>q. q @ [e]) (queue b s)) (s\<lparr>ctrl := deliver (ctrl s)\<rparr>) else s\<lparr>ctrl := deliver (ctrl s)\<rparr>)"
    and s2: "s2 = s1\<lparr>deferred := ucw_write (\<lambda>_. (if run then ys else ys @ [e]) @ es) (deferred s1)\<rparr>"
  shows "drained p b s s2" and "deferred_list s2 = (if run then ys else ys @ [e]) @ es"
    and "run \<Longrightarrow> length (deferred_list s2) < length (deferred_list s)" and "ctrl s2 = deliver (ctrl s)"
proof -
  show d2: "deferred_list s2 = (if run then ys else ys @ [e]) @ es" by (simp add: s2 ucw_write_def)
  show c2: "ctrl s2 = deliver (ctrl s)" by (simp add: s2 s1)
  have q: "queue_list b s2 = queue_list b s @ (if run then [e] else [])" "queue (\<not> b) s2 = queue (\<not> b) s"
    "uc_flag (queue b s2) = uc_flag (queue b s)" "\<not> run \<Longrightarrow> queue b s2 = queue b s"
    by (simp_all add: s2 s1 ucw_write_def)
  have pl: "distinct (queue_list b s @ queue_list (\<not> b) s @ deferred_list s)"
    "set (queue_list b s) \<union> set (queue_list (\<not> b) s) \<union> set (deferred_list s) = dom (task_at (ctrl s))"
    using shape places_by [of s b] by (auto simp: sched_shape_def placed_def)
  have "distinct (places s2)" unfolding places_by(1) [of s2 b] d2 q(1,2) using pl(1) d by auto
  moreover have "set (places s2) = dom (task_at (ctrl s2))"
    unfolding places_by(2) [of s2 b] d2 q(1,2) c2 using pl(2) d by auto
  ultimately have "sched_shape p s2"
    using shape c2 by (auto simp: sched_shape_def placed_def unstopped_def s2 s1)
  then show "drained p b s s2"
    using q d d2 c2 by (auto simp: drained_def s2 s1 ucw_write_def)
  show "run \<Longrightarrow> length (deferred_list s2) < length (deferred_list s)" using d d2 by simp
qed

lemma drain_loop_ok:
  assumes "sched_shape p s" and "deferred_list s = ys @ es" and "n \<le> length (woken (ctrl s))"
  shows "wpx (drain_loop p b ys es)
     (\<lambda>_ s'. drained p b s s' \<and> n \<le> length (woken (ctrl s'))
        \<and> (armed w n (set ys) (ctrl s) \<longrightarrow> length (deferred_list s') = length (deferred_list s) \<longrightarrow> armed w n (set (ys @ es)) (ctrl s')))
     (\<lambda>_ _. False) s"
  using assms
proof (induction es arbitrary: ys s)
  case Nil
  then show ?case by (simp add: drained_def)
next
  case (Cons e es)
  have "e \<in> dom (task_at (ctrl s))" using Cons.prems places_by(2) [of s b] by (auto simp: sched_shape_def placed_def)
  then obtain t where t: "task_at (ctrl s) e = Some t" by blast
  have idle: "alg_idle p (ctrl s)" "unstopped (ctrl s)" using Cons.prems by (simp_all add: sched_shape_def)
  define run where "run = is_runnable (arcs (deliver (ctrl s))) t"
  define s1 where "s1 = (if run then set_queue b (ucw_write (\<lambda>q. q @ [e]) (queue b s)) (s\<lparr>ctrl := deliver (ctrl s)\<rparr>) else s\<lparr>ctrl := deliver (ctrl s)\<rparr>)"
  define s2 where "s2 = s1\<lparr>deferred := ucw_write (\<lambda>_. (if run then ys else ys @ [e]) @ es) (deferred s1)\<rparr>"
  note step = drain_step [OF Cons.prems(1,2) t run_def s1_def s2_def]
  have n2: "n \<le> length (woken (ctrl s2))" using Cons.prems(3) step(4) order_trans [OF _ deliver_woken] by simp
  have arm: "armed w n (set (if run then ys else ys @ [e])) (ctrl s2)" if "armed w n (set ys) (ctrl s)"
    using armed_deliver [OF that Cons.prems(3)] step(4) t by (auto simp: armed_def run_def)
  have shape2: "sched_shape p s2" using step(1) by (simp add: drained_def)
  have go: "drained p b s s' \<and> (armed w n (set ys) (ctrl s) \<longrightarrow> length (deferred_list s') = length (deferred_list s) \<longrightarrow> armed w n (set (ys @ e # es)) (ctrl s'))"
    if "drained p b s2 s'" and a: "armed w n (set (if run then ys else ys @ [e])) (ctrl s2) \<longrightarrow> length (deferred_list s') = length (deferred_list s2)
      \<longrightarrow> armed w n (set ((if run then ys else ys @ [e]) @ es)) (ctrl s')" for s'
  proof -
    have "length (deferred_list s') \<le> length (deferred_list s2)" "length (deferred_list s2) \<le> length (deferred_list s)"
      using that(1) step(1) by (simp_all add: drained_def)
    then show ?thesis using drained_trans [OF step(1) that(1)] a arm step(3) by (cases run) auto
  qed
  have "wpx (drain_loop p b (if run then ys else ys @ [e]) es)
     (\<lambda>_ s'. drained p b s s' \<and> n \<le> length (woken (ctrl s'))
        \<and> (armed w n (set ys) (ctrl s) \<longrightarrow> length (deferred_list s') = length (deferred_list s) \<longrightarrow> armed w n (set (ys @ e # es)) (ctrl s')))
     (\<lambda>_ _. False) s2"
    by (rule wpx_mono [OF Cons.IH [OF shape2 step(2) n2]]) (use go in blast)+
  moreover have "drain_elem p b e s = (Inr (\<not> run), s1)"
    using drain_elem_eq [OF idle t, of b] by (simp add: run_def s1_def Let_def)
  ultimately show ?case
    by (simp add: wpx_def [of "drain_elem p b e"] Let_def s2_def split: if_splits)
qed

lemma drain_runnable_ok:
  assumes "sched_shape p s" and "n \<le> length (woken (ctrl s))"
  shows "wpx (drain_runnable p b)
     (\<lambda>r s'. drained p b s s' \<and> n \<le> length (woken (ctrl s')) \<and> (r \<longleftrightarrow> length (deferred_list s') \<noteq> length (deferred_list s))
        \<and> (armed w n {} (ctrl s) \<longrightarrow> \<not> r \<longrightarrow> armed w n (set (deferred_list s)) (ctrl s')))
     (\<lambda>_ _. False) s"
  using drain_loop_ok [OF assms(1) _ assms(2), of "[]" "deferred_list s" b w]
  by (auto simp: drain_runnable_def elim!: wpx_mono)

lemma armed_mono: "armed w n xs c \<Longrightarrow> m \<le> n \<Longrightarrow> armed w m xs c"
  by (auto simp: armed_def)

lemma armed_register: "armed w (length (woken c)) {} (snd (waker_register w c))"
  by (simp add: armed_def waker_register_def)

lemma shape_ctrl:
  assumes "sched_shape p s" and "registry c = registry (ctrl s)" "current c = current (ctrl s)"
    "suspended_count c = suspended_count (ctrl s)" "length (arcs c) = length (arcs (ctrl s))"
  shows "sched_shape p (s\<lparr>ctrl := c\<rparr>)"
proof -
  have "alg_idle p c" using assms alg_inv_cong [of c "ctrl s" p 0 None None] by (simp add: sched_shape_def)
  then show ?thesis using assms by (simp add: sched_shape_def unstopped_def placed_def places_def)
qed

text \<open>What \<open>process_tasks\<close> does to the parts other than the flags of the cells it holds.\<close>

definition processed :: "profile \<Rightarrow> bool \<Rightarrow> nat \<Rightarrow> ('f, 'u) sched \<Rightarrow> rotate \<Rightarrow> ('f, 'u) sched \<Rightarrow> bool" where
  "processed p b w s r s' \<longleftrightarrow> sched_shape p s' \<and> length (woken (ctrl s)) \<le> length (woken (ctrl s')) \<and> which_buffer s' = which_buffer s \<and> polled (ctrl s') = polled (ctrl s)
     \<and> task_at (ctrl s') = task_at (ctrl s) \<and> uc_flag (queue (\<not> b) s') = uc_flag (queue (\<not> b) s)
     \<and> uc_flag (queue b s') = uc_flag (queue b s) \<and> uc_flag (deferred s') = uc_flag (deferred s)
     \<and> (r = Wait \<longrightarrow> queue_list b s' = [] \<and> queue_list (\<not> b) s' = [] \<and> deferred_list s' \<noteq> []
          \<and> armed w (length (woken (ctrl s))) (dom (task_at (ctrl s'))) (ctrl s'))"

lemma drained_processed: "drained p b s s' \<Longrightarrow> r = Continue \<Longrightarrow> processed p b w s r s'"
  by (simp add: drained_def processed_def)

lemma waker_processed:
  assumes "processed p b w s Continue s'"
  shows "processed p b w s Continue (s'\<lparr>ctrl := snd (waker_clear (ctrl s'))\<rparr>)"
  using assms shape_ctrl [of p s' "snd (waker_clear (ctrl s'))"] by (auto simp: processed_def waker_clear_def)

text \<open>Two rounds that drain nothing, the second after the registration of the waker: the poll waits.\<close>

lemma drained_waits:
  assumes 1: "drained p b s s1" "deferred_list s1 = deferred_list s" "queue_list b s1 = []" "queue_list (\<not> b) s1 = []"
    and 2: "drained p b (s1\<lparr>ctrl := c\<rparr>) s3" "length (deferred_list s3) = length (deferred_list s1)"
    and c: "task_at c = task_at (ctrl s1)" "polled c = polled (ctrl s1)" "length (woken (ctrl s1)) \<le> length (woken c)"
    and a: "armed w m (set (deferred_list s1)) (ctrl s3)" "length (woken (ctrl s)) \<le> m" and ne: "deferred_list s \<noteq> []"
  shows "processed p b w s Wait s3"
proof -
  have l: "queue_list b s3 = []" "queue_list (\<not> b) s3 = []" "deferred_list s3 = deferred_list s1"
    using 1(3,4) 2 by (simp_all add: drained_def)
  moreover have "sched_shape p s3" using 2(1) by (simp add: drained_def)
  ultimately have "dom (task_at (ctrl s3)) = set (deferred_list s1)"
    using places_by(2) [of s3 b] by (simp add: sched_shape_def placed_def)
  then show ?thesis using 1 2 c l ne armed_mono [OF a] by (simp add: processed_def drained_def)
qed

lemma process_idle_ok:
  assumes 1: "drained p b s s1" "length (woken (ctrl s)) \<le> length (woken (ctrl s1))" "deferred_list s1 = deferred_list s"
      "queue_list b s1 = []" "queue_list (\<not> b) s1 = []"
    and ne: "deferred_list s \<noteq> []"
  shows "wpx (process_idle p b w) (processed p b w s) (\<lambda>_ _. False) s1"
proof -
  let ?c = "snd (waker_register w (deliver (ctrl s1)))"
  have shape1: "sched_shape p (s1\<lparr>ctrl := ?c\<rparr>)"
    using 1(1) by (intro shape_ctrl) (simp_all add: drained_def waker_register_def)
  have n: "length (woken (ctrl s)) \<le> length (woken (deliver (ctrl s1)))" using 1(2) deliver_woken by (rule order_trans)
  have c: "task_at ?c = task_at (ctrl s1)" "polled ?c = polled (ctrl s1)" "length (woken (ctrl s1)) \<le> length (woken ?c)"
    "length (woken (deliver (ctrl s1))) \<le> length (woken ?c)"
    by (simp_all add: waker_register_def)
  have go: "processed p b w s Continue (s3\<lparr>ctrl := snd (waker_clear (ctrl s3))\<rparr>)" if "drained p b (s1\<lparr>ctrl := ?c\<rparr>) s3" for s3
    by (rule waker_processed) (use 1(1) that c in \<open>simp add: processed_def drained_def\<close>)
  show ?thesis
    unfolding process_idle_def wpx_bind wpx_on_ctrl wpx_modify
  proof (rule wpx_mono [OF drain_runnable_ok [OF shape1, of "length (woken (deliver (ctrl s1)))" b w]], goal_cases)
    case (2 any s3)
    then show ?case
      using armed_register [of w "deliver (ctrl s1)"] drained_waits [OF 1(1,3-5) _ _ c(1-3) _ n ne, of s3] go [of s3]
      by simp
  qed (simp_all add: c)
qed

lemma process_held_ok:
  assumes shape: "sched_shape p s" and flag: "uc_flag (queue (\<not> b) s) = 0"
  shows "wpx (process_held p b w) (processed p b w s) (\<lambda>_ _. False) s"
proof (cases "deferred_list s = []")
  case True
  then show ?thesis using shape by (simp add: process_held_def processed_def)
next
  case False
  have first: "wpx (bind_exec (gets_exec (\<lambda>s. queue_list b s = [])) (\<lambda>empty.
      bind_exec (if empty then on_queue (\<not> b) (ucw_read p (\<lambda>q. q = [])) else return_exec False) (\<lambda>no_work.
      if no_work then process_idle p b w else return_exec Continue))) (processed p b w s) (\<lambda>_ _. False) s1"
    if 1: "drained p b s s1" "length (woken (ctrl s)) \<le> length (woken (ctrl s1))"
      "length (deferred_list s1) = length (deferred_list s)" for s1
  proof -
    have "uc_flag (queue (\<not> b) s1) = 0" "deferred_list s1 = deferred_list s" using 1 flag by (simp_all add: drained_def)
    then show ?thesis using process_idle_ok [OF 1(1,2) _ _ _ False] drained_processed [OF 1(1)] by simp
  qed
  show ?thesis
    unfolding process_held_def wpx_bind [of "gets_exec (\<lambda>s. deferred_list s = [])"] wpx_gets if_not_P [OF False]
      wpx_bind [of "drain_runnable p b"]
  proof (rule wpx_mono [OF drain_runnable_ok [OF shape order_refl, of b w]], goal_cases)
    case (1 any s1)
    then show ?case using first [of s1] drained_processed [of p b s s1] by (cases any) simp_all
  qed
qed

subsection \<open>A poll\<close>

lemma shape_cells:
  assumes "sched_shape p s" and "ctrl s' = ctrl s" "scan_registry s' = scan_registry s"
    "deferred_list s' = deferred_list s" "\<And>b. queue_list b s' = queue_list b s"
  shows "sched_shape p s'"
  using assms by (simp add: sched_shape_def placed_def places_def)

definition settled :: "profile \<Rightarrow> nat \<Rightarrow> ('f, 'u) sched \<Rightarrow> rotate \<Rightarrow> ('f, 'u) sched \<Rightarrow> bool" where
  "settled p w s r s' \<longleftrightarrow> sched_inv p s' \<and> length (woken (ctrl s)) \<le> length (woken (ctrl s')) \<and> which_buffer s' = which_buffer s \<and> polled (ctrl s') = polled (ctrl s)
     \<and> task_at (ctrl s') = task_at (ctrl s)
     \<and> (r = Wait \<longrightarrow> (\<forall>b. queue_list b s' = []) \<and> deferred_list s' \<noteq> []
          \<and> armed w (length (woken (ctrl s))) (dom (task_at (ctrl s'))) (ctrl s'))"

lemma process_tasks_ok:
  assumes inv: "sched_inv p s"
  shows "wpx (process_tasks p b w) (settled p w s) (\<lambda>_ _. False) s"
proof -
  have shape: "sched_shape p s" and free: "cells_free s" using inv by (simp_all add: sched_inv_def)
  obtain cq where cq: "ucw_borrow_mut p (queue b s) = (Inr (queue_list b s), cq)" "uc_value cq = queue_list b s"
      "uc_flag cq = (case p of Debug \<Rightarrow> -1 | Release \<Rightarrow> 0)"
    using ucw_hold_ok cells_freeD(2) [OF free] by blast
  obtain cd where cd: "ucw_borrow_mut p (deferred s) = (Inr (deferred_list s), cd)" "uc_value cd = deferred_list s"
      "uc_flag cd = (case p of Debug \<Rightarrow> -1 | Release \<Rightarrow> 0)"
    using ucw_hold_ok cells_freeD(1) [OF free] by blast
  let ?s1 = "(set_queue b cq s)\<lparr>deferred := cd\<rparr>"
  have shape1: "sched_shape p ?s1" by (rule shape_cells [OF shape]) (auto simp: cq cd)
  have fin: "settled p w s r (set_queue b (ucw_mut_drop p (queue b s')) (s'\<lparr>deferred := ucw_mut_drop p (deferred s')\<rparr>))"
    if "processed p b w ?s1 r s'" for r s'
  proof -
    let ?s' = "set_queue b (ucw_mut_drop p (queue b s')) (s'\<lparr>deferred := ucw_mut_drop p (deferred s')\<rparr>)"
    have v: "uc_value (ucw_mut_drop p c) = uc_value c" for c :: "nat list ucw" by (cases p) (simp_all add: ucw_mut_drop_def)
    have "sched_shape p ?s'" by (rule shape_cells [of p s']) (use that in \<open>auto simp: processed_def v\<close>)
    moreover have "cells_free ?s'"
      unfolding cells_free_def
    proof (intro conjI allI)
      fix b'
      show "uc_flag (deferred ?s') = 0" using that cd(3) by (cases p) (simp_all add: processed_def ucw_mut_drop_def)
      show "uc_flag (queue b' ?s') = 0"
        using that cq(3) cells_freeD(2) [OF free, of b'] by (cases p; cases "b' = b") (auto simp: processed_def ucw_mut_drop_def)
    qed
    moreover have "queue_list b' ?s' = []" if "queue_list b s' = []" "queue_list (\<not> b) s' = []" for b'
      using that v by (cases "b' = b") (auto simp: v)
    ultimately show ?thesis using that by (auto simp: settled_def processed_def sched_inv_def v)
  qed
  show ?thesis
    using cq(1) cd(1) cells_freeD(2) [OF free, of "\<not> b"]
    by (simp add: process_tasks_def wpx_def [of "ucw_borrow_mut p"])
       (intro wpx_mono [OF process_held_ok [OF shape1]], simp_all add: fin)
qed

text \<open>One iteration of the loop: it goes on, or it returns as the tasks that are left ask for.\<close>

definition returned :: "profile \<Rightarrow> nat \<Rightarrow> ('f, 'u) sched \<Rightarrow> bool poll \<Rightarrow> ('f, 'u) sched \<Rightarrow> bool" where
  "returned p w s r s' \<longleftrightarrow> sched_inv p s' \<and>
     (case r of
        Ready x \<Rightarrow> x \<and> sched_registered_count s' = 0
      | Pending \<Rightarrow> sched_registered_count s' \<noteq> 0
          \<and> (last_waker (ctrl s') = Some w \<and> (\<forall>k t. task_at (ctrl s') k = Some t \<longrightarrow> \<not> is_runnable (arcs (ctrl s')) t)
             \<or> length (woken (ctrl s)) < length (woken (ctrl s'))))"

lemma registered_count_places:
  assumes "sched_inv p s"
  shows "sched_registered_count s = length (places s)"
proof -
  have "reg_inv p 0 (registry (ctrl s))" using assms by (simp add: sched_inv_def sched_shape_def alg_inv_def)
  then have "sched_registered_count s = card (dom (task_at (ctrl s)))"
    by (simp add: sched_registered_count_def registered_count_def reg.count_view)
  also have "\<dots> = length (places s)"
    using assms by (simp add: sched_inv_def sched_shape_def placed_def flip: distinct_card)
  finally show ?thesis .
qed

lemma toggle_inv: "sched_inv p s \<Longrightarrow> sched_inv p (s\<lparr>which_buffer := v\<rparr>)"
  by (simp add: sched_inv_def cells_free_def shape_cells [of p s])

lemma clear_inv:
  "sched_inv p s \<Longrightarrow> sched_inv p (s\<lparr>ctrl := snd (waker_clear (ctrl s))\<rparr>)"
  using shape_ctrl [of p s "snd (waker_clear (ctrl s))"] by (simp add: sched_inv_def cells_free_def waker_clear_def)

lemma queue_length: "length (queue_list b s) \<le> length (places s)"
  by (cases b) (simp_all add: places_def)

lemma settled_count:
  assumes "settled p w s r s'" and "sched_inv p s"
  shows "sched_registered_count s' = sched_registered_count s"
proof -
  have count: "sched_registered_count x = card (dom (task_at (ctrl x)))" if "sched_inv p x" for x :: "('a, 'b) sched"
    using that reg.count_view [of p 0 "registry (ctrl x)"]
    by (simp add: sched_inv_def sched_shape_def alg_inv_def sched_registered_count_def registered_count_def)
  show ?thesis using assms by (simp add: settled_def count)
qed

definition iterated :: "profile \<Rightarrow> nat \<Rightarrow> nat \<Rightarrow> ('f, 'u) sched \<Rightarrow> step_result \<Rightarrow> ('f, 'u) sched \<Rightarrow> bool" where
  "iterated p w n s r s' \<longleftrightarrow>
     (case r of
        OutOfFuel \<Rightarrow> n \<le> sched_registered_count s
      | GoOn \<Rightarrow> sched_inv p s' \<and> length (woken (ctrl s)) \<le> length (woken (ctrl s'))
      | Return x \<Rightarrow> returned p w s x s')"

lemma wait_returns:
  assumes "settled p w s Wait s'"
  shows "returned p w s Pending (s'\<lparr>which_buffer := v\<rparr>)"
proof -
  have inv: "sched_inv p s'" and "deferred_list s' \<noteq> []" using assms by (simp_all add: settled_def)
  then have "sched_registered_count s' \<noteq> 0" by (simp add: registered_count_places places_def)
  then show ?thesis
    using assms toggle_inv [OF inv]
    by (auto simp: returned_def settled_def armed_def sched_registered_count_def dest: bspec [OF _ domI])
qed

lemma end_returns:
  assumes "sched_inv p s'" and "queue_list False s' = []" "queue_list True s' = []" "deferred_list s' = []"
  shows "returned p w s (Ready (suspended_count (ctrl s') = 0)) s'"
  using assms registered_count_places [OF assms(1)]
  by (auto simp: returned_def places_def sched_inv_def sched_shape_def unstopped_def)

lemma poll_decide_ok:
  assumes i: "sched_inv p s'" "length (woken (ctrl s)) \<le> length (woken (ctrl s'))"
  shows "wpx (poll_decide p) (iterated p w n s) calm_panic s'"
proof -
  have "wpx (on_queue b (ucw_read p f)) Q E s' = Q (f (queue_list b s')) s'" "wpx (on_deferred (ucw_read p f)) Q E s' = Q (f (deferred_list s')) s'"
    for b Q E and f :: "nat list \<Rightarrow> bool"
    using i(1) by (simp_all add: sched_inv_def cells_free_def)
  then show ?thesis
    using i end_returns [OF i(1), of w s] by (simp add: poll_decide_def iterated_def del: wpx_on_queue wpx_on_deferred)
qed

text \<open>A beat from a state with as many tasks as \<open>s\<close>: it runs out only of fuel for a rotation of them all.\<close>

definition beaten :: "profile \<Rightarrow> nat \<Rightarrow> nat \<Rightarrow> ('f, 'u) sched \<Rightarrow> rotate option \<Rightarrow> ('f, 'u) sched \<Rightarrow> bool" where
  "beaten p w n s x s' \<longleftrightarrow>
     (x = None \<longrightarrow> n \<le> sched_registered_count s) \<and> (x = Some Wait \<longrightarrow> settled p w s Wait s')
     \<and> (x = Some Continue \<longrightarrow> sched_inv p s' \<and> length (woken (ctrl s)) \<le> length (woken (ctrl s')))"

lemma rotate_settled:
  assumes inv: "sched_inv p s" and calm: "calm body" and st: "settled p w s Continue s1"
  shows "wpx (rotate_once p body (which_buffer s) n)
    (\<lambda>x s2. (x = None \<longrightarrow> n \<le> sched_registered_count s)
      \<and> (x = Some () \<longrightarrow> sched_inv p s2 \<and> length (woken (ctrl s)) \<le> length (woken (ctrl s2)))) calm_panic s1"
proof -
  have inv1: "sched_inv p s1" "which_buffer s1 = which_buffer s" "length (woken (ctrl s)) \<le> length (woken (ctrl s1))"
    using st by (simp_all add: settled_def)
  have "length (queue_list (which_buffer s) s1) \<le> sched_registered_count s"
    using queue_length [of "which_buffer s" s1] settled_count [OF st inv] by (simp add: registered_count_places [OF inv1(1)])
  then show ?thesis
    using rotate_once_ok [OF inv1(1) calm, of n] inv1(2,3) by (auto elim!: wpx_mono simp: rotated_def)
qed

lemma sched_beat_ok:
  assumes "sched_inv p s" and "calm body"
  shows "wpx (sched_beat_once p body (which_buffer s) w n) (beaten p w n s) calm_panic s"
  unfolding sched_beat_once_def wpx_bind
  by (rule wpx_mono [OF process_tasks_ok [OF assms(1)]])
     (auto simp: beaten_def split: rotate.split elim!: wpx_mono dest!: rotate_settled [OF assms])

lemma queue_iter_ok:
  assumes inv: "sched_inv p s" and calm: "calm body"
  shows "wpx (sched_poll_iter p body w n) (iterated p w n s) calm_panic s"
proof -
  let ?s0 = "s\<lparr>ctrl := snd (waker_clear (ctrl s))\<rparr>"
  have same: "sched_registered_count ?s0 = sched_registered_count s" "woken (ctrl ?s0) = woken (ctrl s)" "which_buffer ?s0 = which_buffer s"
    by (simp_all add: sched_registered_count_def registered_count_def waker_clear_def)
  have beat: "wpx (sched_beat_once p body (which_buffer s) w n) (beaten p w n ?s0) calm_panic ?s0"
    using sched_beat_ok [OF clear_inv [OF inv] calm, of w n] by (simp only: same)
  show ?thesis
    unfolding sched_poll_iter_def wpx_bind wpx_on_ctrl wpx_modify wpx_gets same(3)
  proof (rule wpx_mono [OF beat], goal_cases)
    case (1 x s2)
    consider "x = None" | "x = Some Wait" | "x = Some Continue" by (cases x; cases "the x") auto
    then show ?case
    proof cases
      case 2
      then show ?thesis using 1 wait_returns [of p w ?s0 s2] same(2) by (simp add: beaten_def iterated_def returned_def)
    next
      case 3
      then show ?thesis using 1 same(2) poll_decide_ok [where s = s and w = w and n = n, OF toggle_inv, of p s2] by (simp add: beaten_def)
    qed (use 1 same(1) in \<open>simp add: beaten_def iterated_def\<close>)
  qed simp
qed

lemma returned_mono:
  "returned p w s1 r s' \<Longrightarrow> length (woken (ctrl s)) \<le> length (woken (ctrl s1)) \<Longrightarrow> returned p w s r s'"
  by (auto simp: returned_def split: poll.splits)

lemma queue_loop_ok:
  assumes "sched_inv p s" and calm: "calm body" and "sched_poll_loop p body w n m s = Some (x, s')"
  shows "case x of Inl e \<Rightarrow> calm_panic e s' | Inr r \<Rightarrow> returned p w s r s'"
  using assms(1,3)
proof (induction m arbitrary: s)
  case (Suc m)
  note iter = queue_iter_ok [OF Suc.prems(1) calm, of w n]
  show ?case
  proof (cases "sched_poll_iter p body w n s")
    case (Pair y s1)
    show ?thesis
    proof (cases y)
      case (Inl e)
      with Suc.prems Pair iter show ?thesis by (auto simp: wpx_def)
    next
      case (Inr r)
      show ?thesis
      proof (cases r)
        case GoOn
        with iter Pair Inr have "sched_inv p s1" "length (woken (ctrl s)) \<le> length (woken (ctrl s1))"
          by (simp_all add: wpx_def iterated_def)
        with Suc.IH [of s1] Suc.prems Pair Inr GoOn show ?thesis by (auto split: sum.splits dest: returned_mono)
      qed (use Suc.prems Pair Inr iter in \<open>auto simp: wpx_def iterated_def\<close>)
    qed
  qed
qed simp


subsection \<open>A stopped task in the queue\<close>

lemma process_tasks_nothing:
  assumes "cells_free s" and "deferred_list s = []"
  shows "process_tasks p b w s = (Inr Continue, s)"
  using assms cells_freeD(1) [OF assms(1)] cells_freeD(2) [OF assms(1), of True] cells_freeD(2) [OF assms(1), of False]
  by (cases p; cases b)
     (simp_all add: process_tasks_def process_held_def exec_defs on_queue_def on_deferred_def ucw_borrow_mut_def ucw_mut_drop_def
       queue_def set_queue_def)

lemma front_read:
  "cells_free s \<Longrightarrow> on_queue b (ucw_read p f) s = (Inr (f (queue_list b s)), s)"
  by (simp add: on_queue_def ucw_read_ok cells_freeD)

lemma rotate_task_stopped:
  assumes idle: "alg_idle p (ctrl s)" and t: "task_at (ctrl s) k = Some t" and r: "df_stop_reason t \<noteq> SrNone"
  shows "rotate_task p body b k s =
     (Inr (), if df_stop_reason t = SrCancelled then s\<lparr>ctrl := removed p k (ctrl s)\<rparr> else s)"
proof -
  have "on_registry (registry_get p k) (ctrl s) = (Inr (Some t), add_ref p (ctrl s))"
    using get_ref_eq [OF idle, of k] t by simp
  moreover have "drop_ref p (add_ref p (ctrl s)) = ctrl s" by (rule drop_add_ref(1) [OF idle]) simp
  moreover have "remove_task p k (ctrl s) = (Inr (), removed p k (ctrl s))" by (rule remove_task_eq [OF idle]) (simp add: t)
  ultimately show ?thesis using r by (simp add: rotate_task_def exec_defs on_ctrl_def Let_def sched_drop_ref_def)
qed

lemma rotate_suspended:
  assumes "alg_idle p (ctrl s)" and "cells_free s" and "queue_list b s = k # ks"
    and "task_at (ctrl s) k = Some t" and "df_stop_reason t = SrSuspended"
  shows "rotate_loop p body b n s = (Inr None, s)"
proof (induction n)
  case (Suc n)
  then show ?case using rotate_task_stopped [OF assms(1,4)] assms(5)
    by (simp add: bind_exec_def [of "on_queue _ _"] front_read [OF assms(2)] assms(3) bind_exec_def [of "rotate_task _ _ _ _"])
qed (simp add: return_exec_def)

lemma rotate_cancelled:
  assumes idle: "alg_idle p (ctrl s)" and free: "cells_free s" and q: "queue_list b s = k # ks"
    and t: "task_at (ctrl s) k = Some t" and r: "df_stop_reason t = SrCancelled"
  shows "\<exists>s'. rotate_loop p body b (Suc (Suc n)) s = (Inl (Panic ''Internal Error: unknown task in queue.''), s')"
proof -
  let ?s = "s\<lparr>ctrl := removed p k (ctrl s)\<rparr>"
  have "on_registry (registry_get p k) (removed p k (ctrl s)) = (Inr None, removed p k (ctrl s))"
    using get_ref_eq [OF removed_inv [OF idle], of k k] by (simp add: removed_view(1) [OF idle])
  then have "rotate_task p body b k ?s = (Inl (Panic ''Internal Error: unknown task in queue.''), ?s)"
    by (simp add: rotate_task_def exec_defs on_ctrl_def)
  moreover have "cells_free ?s" using free by (simp add: cells_free_def)
  ultimately show ?thesis
    using rotate_task_stopped [OF idle t, of body b] r
    by (simp add: bind_exec_def [of "on_queue _ _"] front_read free q bind_exec_def [of "rotate_task _ _ _ _"])
qed


text \<open>Without deferred tasks an iteration begins with the rotation, and ends with it if it does not return.\<close>

lemma poll_iter_rotation:
  assumes "cells_free s" and "deferred_list s = []"
    and "rotate_loop p body (which_buffer s) n (s\<lparr>ctrl := snd (waker_clear (ctrl s))\<rparr>) = (x, s')"
  shows "x = Inr None \<Longrightarrow> sched_poll_iter p body w n s = (Inr OutOfFuel, s')"
    and "x = Inl e \<Longrightarrow> sched_poll_iter p body w n s = (Inl e, s')"
proof -
  let ?s = "s\<lparr>ctrl := snd (waker_clear (ctrl s))\<rparr>"
  have "process_tasks p b w ?s = (Inr Continue, ?s)" for b
    by (rule process_tasks_nothing) (use assms(1,2) in \<open>simp_all add: cells_free_def\<close>)
  then show "x = Inr None \<Longrightarrow> sched_poll_iter p body w n s = (Inr OutOfFuel, s')"
    "x = Inl e \<Longrightarrow> sched_poll_iter p body w n s = (Inl e, s')"
    using assms(3)
    by (simp_all add: sched_poll_iter_def sched_beat_once_def rotate_once_def exec_defs on_ctrl_def)
qed

lemma spawn_inv:
  assumes inv: "sched_inv p s" and sp: "\<not> sp_suspended sp" and run: "sched_spawn p sp fut s = (Inr k, s')"
  shows "sched_inv p s'"
proof -
  have s: "alg_idle p (ctrl s)" "cells_free s" "unstopped (ctrl s)" "placed s" "\<not> scan_registry s"
    using inv by (simp_all add: sched_inv_def sched_shape_def)
  have ok: "calm_ok p 0 None None s k s'" using wpx_InrD [OF spawn_calm [OF s(1-3) sp] run] .
  let ?b = "which_buffer s"
  obtain ks where "queue_list (\<not> ?b) s' = queue_list (\<not> ?b) s @ ks" "distinct ks"
      "dom (task_at (ctrl s')) = dom (task_at (ctrl s)) \<union> set ks" "set ks \<inter> dom (task_at (ctrl s)) = {}"
    using ok by (auto simp: calm_ok_def queued_new_def)
  moreover have "queue_list ?b s' = queue_list ?b s" "deferred_list s' = deferred_list s" using ok by (simp_all add: calm_ok_def)
  moreover have "distinct (queue_list ?b s @ queue_list (\<not> ?b) s @ deferred_list s)"
    "dom (task_at (ctrl s)) = set (queue_list ?b s) \<union> set (queue_list (\<not> ?b) s) \<union> set (deferred_list s)"
    using s(4) places_by [of s ?b] by (auto simp: placed_def)
  ultimately have "placed s'" unfolding placed_def places_by [of _ ?b] by auto
  then show ?thesis using ok s(5) by (simp add: sched_inv_def sched_shape_def calm_ok_def)
qed

subsection \<open>Stopping the task at the front\<close>

definition stopped :: "nat \<Rightarrow> stop_reason \<Rightarrow> nat \<Rightarrow> ('f, 'u) sched \<Rightarrow> ('f, 'u) sched" where
  "stopped k r n s = s\<lparr>ctrl := (modify_task k (set_stop_reason r) (ctrl s))\<lparr>suspended_count := n\<rparr>\<rparr>"

lemma stop_queued:
  assumes inv: "sched_inv p s" and run: "state_at (ctrl s) k = Runnable"
  shows "sched_suspend p k s = (Inr True, stopped k SrSuspended 1 s)" and "sched_cancel p k s = (Inr True, stopped k SrCancelled 0 s)"
proof -
  have idle: "alg_idle p (ctrl s)" and cnt: "suspended_count (ctrl s) = 0"
    using inv by (simp_all add: sched_inv_def sched_shape_def unstopped_def)
  obtain t where t: "task_at (ctrl s) k = Some t" "df_stop_reason t = SrNone" "is_runnable (arcs (ctrl s)) t"
    using run by (auto simp: state_at_Runnable)
  have get: "on_registry (registry_get p k) (ctrl s) = (Inr (Some t), add_ref p (ctrl s))"
    using get_ref_eq [OF idle, of k] t by simp
  show "sched_suspend p k s = (Inr True, stopped k SrSuspended 1 s)"
    using t(2,3) drop_add_ref(3) [OF idle zero_less_usize(1), where k = k and f = "set_stop_reason SrSuspended" and n = 1] get cnt
    by (simp add: sched_suspend_def sched_with_ref_def write_reason_def inc_suspended_def exec_defs on_ctrl_def sched_drop_ref_def
        stopped_def usize_add_def usize_MAX_def)
  show "sched_cancel p k s = (Inr True, stopped k SrCancelled 0 s)"
    using t(2) drop_add_ref(2) [OF idle zero_less_usize(1), where k = k and f = "set_stop_reason SrCancelled"] get cnt
      modify_task_count [where k = k and f = "set_stop_reason SrCancelled" and s = "ctrl s"]
    by (simp add: sched_cancel_def sched_with_ref_def write_reason_def exec_defs on_ctrl_def sched_drop_ref_def stopped_def Let_def)
qed

text \<open>The state at the head of the rotation, after the outer waker was cleared.\<close>

lemma stopped_rotation:
  assumes inv: "sched_inv p s" and q: "queue_list (which_buffer s) s = k # ks" and run: "state_at (ctrl s) k = Runnable"
    and s': "s' = (stopped k r n s)\<lparr>ctrl := snd (waker_clear (ctrl (stopped k r n s)))\<rparr>" and r: "r \<noteq> SrSuspended \<or> n = 1"
  shows "alg_idle p (ctrl s')" "cells_free s'" "queue_list (which_buffer s) s' = k # ks"
    "\<exists>t. task_at (ctrl s') k = Some t \<and> df_stop_reason t = r"
proof -
  have idle: "alg_idle p (ctrl s)" and un: "unstopped (ctrl s)" using inv by (simp_all add: sched_inv_def sched_shape_def)
  obtain t where t: "task_at (ctrl s) k = Some t" using run by (auto simp: state_at_Runnable)
  have "alg_idle p ((modify_task k (set_stop_reason r) (ctrl s))\<lparr>suspended_count := n\<rparr>)"
  proof (rule modify_task_inv [OF idle])
    have "suspended_keys (ctrl s) = {}" using un by (auto simp: suspended_keys_def unstopped_def)
    then show "card (suspended_keys (modify_task k (set_stop_reason r) (ctrl s))) \<le> n"
      using r by (auto simp: suspended_keys_stop [OF idle t])
  qed simp_all
  then show "alg_idle p (ctrl s')" by (simp add: s' stopped_def waker_clear_def alg_inv_def flags_ok_def suspended_keys_def)
  show "cells_free s'" "queue_list (which_buffer s) s' = k # ks"
    using inv q by (simp_all add: s' stopped_def cells_free_def sched_inv_def)
  show "\<exists>t. task_at (ctrl s') k = Some t \<and> df_stop_reason t = r"
    using t by (simp add: s' stopped_def waker_clear_def task_at_modify [OF idle])
qed

lemma stopped_simps [simp]:
  "cells_free (stopped k r n s) = cells_free s" "deferred_list (stopped k r n s) = deferred_list s"
  "which_buffer (stopped k r n s) = which_buffer s"
  by (simp_all add: stopped_def cells_free_def)

lemma suspended_hangs:
  assumes inv: "sched_inv p s" and q: "queue_list (which_buffer s) s = k # ks" and d: "deferred_list s = []"
    and run: "state_at (ctrl s) k = Runnable"
  shows "sched_poll p body w n (stopped k SrSuspended 1 s) = None"
proof (cases n)
  case (Suc m)
  let ?s = "stopped k SrSuspended 1 s"
  have free: "cells_free s" using inv by (simp add: sched_inv_def)
  note at_front = stopped_rotation [OF inv q run refl, of SrSuspended 1]
  have "rotate_loop p body (which_buffer s) n (?s\<lparr>ctrl := snd (waker_clear (ctrl ?s))\<rparr>) = (Inr None, ?s\<lparr>ctrl := snd (waker_clear (ctrl ?s))\<rparr>)"
    using at_front rotate_suspended by blast
  then have "sched_poll_iter p body w n ?s = (Inr OutOfFuel, ?s\<lparr>ctrl := snd (waker_clear (ctrl ?s))\<rparr>)"
    by (intro poll_iter_rotation(1)) (simp_all add: free d)
  then show ?thesis by (simp add: sched_poll_def Suc)
qed (simp add: sched_poll_def)

lemma cancelled_fails:
  assumes inv: "sched_inv p s" and q: "queue_list (which_buffer s) s = k # ks" and d: "deferred_list s = []"
    and run: "state_at (ctrl s) k = Runnable"
  shows "\<exists>s''. sched_poll p body w (Suc (Suc n)) (stopped k SrCancelled 0 s)
    = Some (Inl (Panic ''Internal Error: unknown task in queue.''), s'')"
proof -
  let ?s = "stopped k SrCancelled 0 s"
  have free: "cells_free s" using inv by (simp add: sched_inv_def)
  note at_front = stopped_rotation [OF inv q run refl, of SrCancelled 0]
  obtain s'' where "rotate_loop p body (which_buffer s) (Suc (Suc n)) (?s\<lparr>ctrl := snd (waker_clear (ctrl ?s))\<rparr>)
      = (Inl (Panic ''Internal Error: unknown task in queue.''), s'')"
    using at_front rotate_cancelled by blast
  then have "sched_poll_iter p body w (Suc (Suc n)) ?s = (Inl (Panic ''Internal Error: unknown task in queue.''), s'')"
    by (intro poll_iter_rotation(2)) (simp_all add: free d del: rotate_loop.simps)
  then show ?thesis unfolding sched_poll_def sched_poll_loop.simps by simp
qed

subsection \<open>Properties\<close>

text \<open>
  C38. One rotation of the queue scheduler is round-robin. Let every registered task be in exactly one of the two queues and
  the deferred list, none of them suspended or cancelled (\<open>sched_inv\<close>), and let the code of the tasks neither suspend nor cancel
  any task, itself included, nor spawn a suspended one (\<open>calm\<close>). Then the rotation, unless the code of a task panics or a spawn
  exhausts the registry, polls exactly the tasks of the queue it works off, in their order and once each, within one look at the
  queue more than it has tasks; that queue is then empty, and every task left is again in exactly one of the other queue and the
  deferred list. Nothing else makes it unwind; no borrow of the queues fails.
\<close>

theorem queue_round_robin:
  assumes "sched_inv p s" and "calm body" and "length (queue_list (which_buffer s) s) < n"
  shows "wpx (rotate_once p body (which_buffer s) n)
     (\<lambda>r s'. r = Some () \<and> polled (ctrl s') = polled (ctrl s) @ queue_list (which_buffer s) s
        \<and> queue_list (which_buffer s) s' = [] \<and> sched_inv p s')
     calm_panic s"
  by (rule wpx_mono [OF rotate_once_ok [OF assms(1,2)]]) (use assms(3) in \<open>auto simp: rotated_def\<close>)

text \<open>
  What a poll of the queue scheduler returns, for such tasks: \<open>Ready(true)\<close> when no task is left, never
  \<open>Ready(false)\<close>, and \<open>Pending\<close> when tasks are left, with the outer waker armed and none of them runnable, or
  woken meanwhile.
\<close>

theorem queue_poll_outcome:
  assumes "sched_inv p s" and "calm body" and "sched_poll p body w n s = Some (x, s')"
  shows "case x of Inl e \<Rightarrow> calm_panic e s' | Inr r \<Rightarrow> returned p w s r s'"
  using queue_loop_ok [OF assms(1,2)] assms(3) by (simp add: sched_poll_def)

text \<open>
  A task that is stopped while it is in the queue breaks the rotation: the loop looks at the front and goes on
  without taking it off. If the task was suspended, no number of iterations ends the poll; if it was cancelled, the
  poll panics, because the task is gone and its key is still there.
\<close>

theorem queue_stop_breaks:
  assumes inv: "sched_inv p s" and q: "queue_list (which_buffer s) s = k # ks" and d: "deferred_list s = []"
    and run: "state_at (ctrl s) k = Runnable"
  shows "(\<exists>s'. sched_suspend p k s = (Inr True, s') \<and> (\<forall>n. sched_poll p body w n s' = None))
    \<and> (\<exists>s'. sched_cancel p k s = (Inr True, s') \<and>
         (\<forall>n. \<exists>s''. sched_poll p body w (Suc (Suc n)) s' = Some (Inl (Panic ''Internal Error: unknown task in queue.''), s'')))"
  using stop_queued [OF inv run] suspended_hangs [OF inv q d run] cancelled_fails [OF inv q d run] by blast


text \<open>Two tasks that end at their first poll, in the queue that is to be worked off.\<close>

definition one_spawned :: "(nat, unit) sched" where
  "one_spawned = snd (sched_spawn Debug params_default 7 (sched_new () []))"

definition two_queued :: "(nat, unit) sched" where
  "two_queued = (snd (sched_spawn Debug params_default 8 one_spawned))\<lparr>which_buffer := True\<rparr>"

definition finish_body :: "(nat, unit) body" where
  "finish_body f w u = PReady u"

lemma finish_calm: "calm finish_body"
  by (simp add: calm_def finish_body_def)

lemma two_queued_state:
  "fst (sched_spawn Debug params_default 7 (sched_new () [] :: (nat, unit) sched)) = Inr (Some 0)"
  "fst (sched_spawn Debug params_default 8 one_spawned) = Inr (Some 1)"
  "which_buffer two_queued" "queue_list True two_queued = [0, 1]" "deferred_list two_queued = []" "polled (ctrl two_queued) = []"
  "state_at (ctrl two_queued) 0 = Runnable"
  by (simp_all add: two_queued_def one_spawned_def state_at_def reg_view_def slab_view_def slab_flat_def run cong: run_cong)

lemma two_queued_inv: "sched_inv Debug two_queued"
proof -
  have "sched_inv Debug one_spawned"
    using spawn_inv [OF sched_new_inv, where p = Debug and sp = params_default and fut = 7 and k = "Some 0" and s' = one_spawned] two_queued_state(1)
    by (simp add: one_spawned_def params_default_def prod_eq_iff)
  then have "sched_inv Debug (snd (sched_spawn Debug params_default 8 one_spawned))"
    using spawn_inv [where p = Debug and s = one_spawned and sp = params_default and fut = 8 and k = "Some 1"] two_queued_state(2)
    by (simp add: params_default_def prod_eq_iff)
  then show ?thesis unfolding two_queued_def by (rule toggle_inv)
qed

theorem queue_round_robin_witness:
  "wpx (rotate_once Debug finish_body (which_buffer two_queued) 3)
     (\<lambda>r s'. r = Some () \<and> polled (ctrl s') = [0, 1] \<and> queue_list (which_buffer two_queued) s' = [] \<and> sched_inv Debug s')
     calm_panic two_queued"
  using queue_round_robin [OF two_queued_inv finish_calm, of 3] two_queued_state(3-6) by simp

theorem queue_stop_breaks_witness:
  "\<exists>s'. sched_suspend Debug 0 two_queued = (Inr True, s') \<and> (\<forall>n. sched_poll Debug finish_body 5 n s' = None)"
  using queue_stop_breaks [OF two_queued_inv _ two_queued_state(5,7), of "[1]" finish_body 5] two_queued_state(3,4) by simp

end
