(* ===== verification/Debug_Format.thy ===== *)
theory Debug_Format
  imports Wheel_Handle Queue_Rotation Timing Atomic_Cell
begin

text \<open>
  The \<open>Debug\<close> and \<open>Display\<close> output: identifiers, spawn parameters, the suspend error, timing groups, and the dumps of the
  two schedulers (\<open>format_internal\<close>), which read the tasks through the registry with its borrow flags. The output is the
  string written to a formatter that does not fail, without the alternate flag; of the formatting of the standard library
  the padding, the integers and the debug builders that the crate uses are written out.
\<close>

subsection \<open>What the crate uses of \<open>core::fmt\<close>\<close>

function digits :: "nat \<Rightarrow> nat \<Rightarrow> nat list" where
  "digits b n = (if b < 2 \<or> n < b then [n] else digits b (n div b) @ [n mod b])"
  by auto
termination
  by (relation "measure snd") auto

declare digits.simps [simp del]

definition digit_char :: "nat \<Rightarrow> char" where
  "digit_char d = ''0123456789ABCDEF'' ! d"

text \<open>\<open>{}\<close> and \<open>{:X}\<close> of an unsigned integer, and \<open>{}\<close> of a \<open>bool\<close>.\<close>

definition fmt_decimal :: "nat \<Rightarrow> string" where
  "fmt_decimal n = map digit_char (digits 10 n)"

definition fmt_hex :: "nat \<Rightarrow> string" where
  "fmt_hex n = map digit_char (digits 16 n)"

definition fmt_bool :: "bool \<Rightarrow> string" where
  "fmt_bool v = (if v then ''true'' else ''false'')"

text \<open>\<open>{:>n}\<close>; the end of a line; a double quote.\<close>

definition fmt_right :: "nat \<Rightarrow> string \<Rightarrow> string" where
  "fmt_right n s = replicate (n - length s) CHR '' '' @ s"

definition newline :: string where
  "newline = [CHR 0x0A]"

definition quote :: string where
  "quote = [CHR 0x22]"

primrec fmt_commas :: "string list \<Rightarrow> string" where
  "fmt_commas [] = []"
| "fmt_commas (x # xs) = (if xs = [] then x else x @ '', '' @ fmt_commas xs)"

text \<open>\<open>debug_list\<close>, \<open>debug_map\<close> and \<open>debug_struct\<close> of a named structure.\<close>

definition fmt_list :: "string list \<Rightarrow> string" where
  "fmt_list xs = ''['' @ fmt_commas xs @ '']''"

definition fmt_map :: "(string \<times> string) list \<Rightarrow> string" where
  "fmt_map kvs = ''{'' @ fmt_commas (map (\<lambda>(k, v). k @ '': '' @ v) kvs) @ ''}''"

definition fmt_struct :: "string \<Rightarrow> (string \<times> string) list \<Rightarrow> string" where
  "fmt_struct name fs =
     (if fs = [] then name else name @ '' { '' @ fmt_commas (map (\<lambda>(k, v). k @ '': '' @ v) fs) @ '' }'')"

subsection \<open>Data\<close>

definition fmt_id :: "nat \<Rightarrow> string" where
  "fmt_id i = ''IdNum[0x'' @ fmt_hex (id_to_usize i) @ '']''"

definition fmt_params :: "spawn_params \<Rightarrow> string" where
  "fmt_params sp = (case as_str (sp_name sp) of
       Some s \<Rightarrow> ''SpawnParams[name: '' @ quote @ s @ quote @ '', suspended: '' @ fmt_bool (sp_suspended sp) @ '']''
     | None \<Rightarrow> ''SpawnParams[suspended: '' @ fmt_bool (sp_suspended sp) @ '']'')"

definition fmt_suspend_error :: "suspend_error \<Rightarrow> string" where
  "fmt_suspend_error e = ''All tasks were suspended.''"

definition fmt_entry :: "('c \<Rightarrow> string) \<Rightarrow> 'c time_entry \<Rightarrow> string" where
  "fmt_entry shows e = fmt_struct '''' [(''slots'', fmt_decimal (te_proportion e)), (''total'', shows (te_sum e))]"

definition fmt_group :: "('c \<Rightarrow> string) \<Rightarrow> 'c timing_group \<Rightarrow> string" where
  "fmt_group shows g = fmt_map (map (\<lambda>(k, e). (fmt_decimal k, fmt_entry shows e)) (slab_iter usize_MAX (tg_info g)))"

text \<open>\<open>LoadBalance\<close>, with the output of its future and its clock; an unregistered member panics.\<close>

definition lb_fmt :: "('f \<Rightarrow> string) \<Rightarrow> ('k \<Rightarrow> string) \<Rightarrow> 'f load_balance \<Rightarrow> (('c, 'k, 'u) lb_world, string) exec" where
  "lb_fmt show_future show_clock lb =
     bind_exec (gets_exec (\<lambda>w. get_slot_count (lb_index lb) (lb_timing w))) (\<lambda>slots.
     case slots of
       None \<Rightarrow> lift_exec (Inl (Panic ''called `Option::unwrap()` on a `None` value''))
     | Some n \<Rightarrow>
         bind_exec (gets_exec lb_clock) (\<lambda>clock.
         return_exec (fmt_struct ''LoadBalance''
           [(''future'', show_future (lb_future lb)), (''slots'', fmt_decimal n), (''clock'', show_clock clock)])))"

text \<open>\<open>AtomicCell\<close>: the name of the type of its value and the mark.\<close>

definition cell_fmt :: "string \<Rightarrow> 'a cell_state \<Rightarrow> string" where
  "cell_fmt type_name s = ''AtomicCell<'' @ type_name @ ''>'' @ fmt_struct '''' [(''holds_lock'', fmt_bool (mark s))]"

subsection \<open>The unordered scheduler\<close>

text \<open>\<open>DebugTask\<close>: the key of a task with its name, if the registry has the task.\<close>

definition fmt_task :: "profile \<Rightarrow> nat option \<Rightarrow> (('f, 'u) alg, string) exec" where
  "fmt_task p key = (case key of
       Some k \<Rightarrow> with_ref p k (\<lambda>t. case t of
           Some task \<Rightarrow> return_exec (case as_str (df_name task) of
               Some s \<Rightarrow> ''0x'' @ fmt_hex k @ '':'' @ s
             | None \<Rightarrow> ''0x'' @ fmt_hex k)
         | None \<Rightarrow> return_exec ''None'')
     | None \<Rightarrow> return_exec ''None'')"

definition format_internal :: "profile \<Rightarrow> string \<Rightarrow> (('f, 'u) alg, string) exec" where
  "format_internal p name =
     bind_exec (gets_exec current) (\<lambda>c.
     bind_exec (fmt_task p c) (\<lambda>t.
     return_exec (name @ ''{'' @ newline @ fmt_right 10 ''current'' @ '': '' @ t @ newline @ ''}'')))"

definition h_fmt_name :: "profile \<Rightarrow> nat \<Rightarrow> string \<Rightarrow> (('f, 'u) heap, string) exec" where
  "h_fmt_name p ptr name = with_weak ptr (name @ ''{ Invalid }'') (format_internal p name)"

definition h_fmt :: "profile \<Rightarrow> nat \<Rightarrow> (('f, 'u) heap, string) exec" where
  "h_fmt p ptr = h_fmt_name p ptr ''WheelHandle''"

text \<open>Printing a handle keeps the contract of the other calls of a handle.\<close>

interpretation hfmt: handle_call ptr "''WheelHandle'' @ ''{ Invalid }''" "h_fmt p ptr" for p ptr
  unfolding h_fmt_def h_fmt_name_def by (rule weak_call)

text \<open>\<open>Wheel\<close> owns its scheduler, so that the allocation has its content.\<close>

definition wheel_fmt :: "profile \<Rightarrow> nat \<Rightarrow> ('f, 'u) heap \<Rightarrow> ((panic + string) \<times> ('f, 'u) heap) option" where
  "wheel_fmt p wheel h =
     map_option (\<lambda>a. case format_internal p ''Wheel'' a of (r, a') \<Rightarrow> (r, h[wheel := (rc_at wheel h)\<lparr>content := Some a'\<rparr>]))
       (content (rc_at wheel h))"

definition locked_fmt :: "profile \<Rightarrow> (('f, 'u) alg, string) exec" where
  "locked_fmt p = format_internal p ''LockedWheel''"

subsection \<open>The queue scheduler\<close>

primrec fmt_tasks :: "profile \<Rightarrow> nat list \<Rightarrow> (('f, 'u) sched, string list) exec" where
  "fmt_tasks p [] = return_exec []"
| "fmt_tasks p (k # ks) =
     bind_exec (on_ctrl (fmt_task p (Some k))) (\<lambda>t. bind_exec (fmt_tasks p ks) (\<lambda>ts. return_exec (t # ts)))"

text \<open>\<open>RunnableDebug\<close>: both queues, the one in turn first; the borrows of both last until the list is written.\<close>

definition fmt_runnable :: "profile \<Rightarrow> (('f, 'u) sched, string) exec" where
  "fmt_runnable p =
     bind_exec (on_queue False (ucw_read p (\<lambda>q. q = []))) (\<lambda>e0.
     bind_exec (if e0 then on_queue True (ucw_read p (\<lambda>q. q = [])) else return_exec False) (\<lambda>e1.
     if e1 then return_exec ''None''
     else
       bind_exec (on_queue False (ucw_borrow p)) (\<lambda>b0.
       guard_exec
         (bind_exec (on_queue True (ucw_borrow p)) (\<lambda>b1.
          guard_exec
            (bind_exec (gets_exec which_buffer) (\<lambda>w.
             bind_exec (fmt_tasks p (if w then b1 @ b0 else b0 @ b1)) (\<lambda>ts. return_exec (fmt_list ts))))
            (\<lambda>s. set_queue True (ucw_ref_drop p (queue True s)) s)))
         (\<lambda>s. set_queue False (ucw_ref_drop p (queue False s)) s))))"

definition fmt_waiting :: "profile \<Rightarrow> (('f, 'u) sched, string) exec" where
  "fmt_waiting p =
     bind_exec (on_deferred (ucw_borrow p)) (\<lambda>d.
     guard_exec
       (if d = [] then return_exec ''None''
        else bind_exec (fmt_tasks p d) (\<lambda>ts. return_exec (fmt_list ts)))
       (\<lambda>s. s\<lparr>deferred := ucw_ref_drop p (deferred s)\<rparr>))"

text \<open>\<open>SuspendedDebug\<close> walks the registry and looks every task up again to see whether it is suspended.\<close>

primrec fmt_suspended_loop :: "profile \<Rightarrow> nat list \<Rightarrow> (('f, 'u) sched, string list) exec" where
  "fmt_suspended_loop p [] = return_exec []"
| "fmt_suspended_loop p (k # ks) =
     bind_exec (on_ctrl (with_ref p k (\<lambda>t. case t of
         Some task \<Rightarrow> return_exec (df_stop_reason task = SrSuspended)
       | None \<Rightarrow> return_exec False))) (\<lambda>sus.
     if sus then
       bind_exec (on_ctrl (fmt_task p (Some k))) (\<lambda>t. bind_exec (fmt_suspended_loop p ks) (\<lambda>ts. return_exec (t # ts)))
     else fmt_suspended_loop p ks)"

definition fmt_suspended :: "profile \<Rightarrow> (('f, 'u) sched, string) exec" where
  "fmt_suspended p =
     bind_exec (on_ctrl (on_registry (registry_iter p))) (\<lambda>kvs.
     guard_exec
       (bind_exec (fmt_suspended_loop p (map fst kvs)) (\<lambda>ts.
        return_exec (if ts = [] then ''None'' else fmt_list ts)))
       (\<lambda>s. s\<lparr>ctrl := (ctrl s)\<lparr>registry := iter_drop p (registry (ctrl s))\<rparr>\<rparr>))"

definition sched_format_internal :: "profile \<Rightarrow> string \<Rightarrow> (('f, 'u) sched, string) exec" where
  "sched_format_internal p name =
     bind_exec (gets_exec (\<lambda>s. current (ctrl s))) (\<lambda>c.
     bind_exec (on_ctrl (fmt_task p c)) (\<lambda>cur.
     bind_exec (fmt_runnable p) (\<lambda>run.
     bind_exec (fmt_waiting p) (\<lambda>wait.
     bind_exec (fmt_suspended p) (\<lambda>sus.
     return_exec (name @ ''{'' @ newline
       @ fmt_right 10 ''current'' @ '': '' @ cur @ newline
       @ fmt_right 10 ''runnable'' @ '': '' @ run @ newline
       @ fmt_right 10 ''waiting'' @ '': '' @ wait @ newline
       @ fmt_right 10 ''suspended'' @ '': '' @ sus @ newline @ ''}''))))))"


subsection \<open>Numbers can be read back\<close>

definition digit_value :: "char \<Rightarrow> nat" where
  "digit_value c = length (takeWhile (\<lambda>x. x \<noteq> c) ''0123456789ABCDEF'')"

definition read_number :: "nat \<Rightarrow> string \<Rightarrow> nat" where
  "read_number b s = foldl (\<lambda>a c. b * a + digit_value c) 0 s"

lemma digit_value_char: "d < 16 \<Longrightarrow> digit_value (digit_char d) = d"
proof -
  have "list_all (\<lambda>d. digit_value (digit_char d) = d) [0..<16]" by code_simp
  then show "d < 16 \<Longrightarrow> digit_value (digit_char d) = d" by (simp add: list_all_iff)
qed

lemma read_digits:
  assumes "2 \<le> b" and "b \<le> 16"
  shows "read_number b (map digit_char (digits b n)) = n"
proof (induction n rule: less_induct)
  case (less n)
  show ?case
  proof (cases "n < b")
    case True
    then show ?thesis using assms by (subst digits.simps) (simp add: read_number_def digit_value_char)
  next
    case False
    then have "n div b < n" using assms by auto
    from less.IH [OF this] False assms show ?thesis
      by (subst digits.simps) (simp add: read_number_def digit_value_char order.strict_trans2 [OF mod_less_divisor])
  qed
qed

lemma read_fmt: "read_number 16 (fmt_hex n) = n" "read_number 10 (fmt_decimal n) = n"
  by (simp_all add: fmt_hex_def fmt_decimal_def read_digits)

lemma fmt_number_inject: "fmt_hex m = fmt_hex n \<longleftrightarrow> m = n" "fmt_decimal m = fmt_decimal n \<longleftrightarrow> m = n"
  using read_fmt by metis+

subsection \<open>Dumping a scheduler changes nothing\<close>

text \<open>The label of a task: its key in hexadecimal, and its name.\<close>

definition task_label :: "('f, 'u) alg \<Rightarrow> nat \<Rightarrow> string" where
  "task_label s k = (case slab_get k (reg_slab (registry s)) of
       None \<Rightarrow> ''None''
     | Some t \<Rightarrow> ''0x'' @ fmt_hex k @ (case as_str (df_name t) of Some n \<Rightarrow> '':'' @ n | None \<Rightarrow> []))"

definition readable :: "profile \<Rightarrow> ('f, 'u) alg \<Rightarrow> bool" where
  "readable p s \<longleftrightarrow> (p = Debug \<longrightarrow> Suc (reg_borrow_flag (registry s)) < usize_MAX)"

lemma with_ref_reads:
  assumes "readable p s"
  shows "with_ref p k (\<lambda>t. return_exec (f t)) s = (Inr (f (slab_get k (reg_slab (registry s)))), s)"
  using assms
  by (cases p; cases "slab_get k (reg_slab (registry s))")
     (auto simp: with_ref_def on_registry_def registry_get_def exec_defs readable_def SENTINEL_def drop_ref_def borrow_drop_def
       wrapping_sub_def usize_MAX_def)


lemma case_option_return: "(\<lambda>t. case t of None \<Rightarrow> return_exec x | Some v \<Rightarrow> return_exec (f v)) = (\<lambda>t. return_exec (case t of None \<Rightarrow> x | Some v \<Rightarrow> f v))"
  by (auto simp: fun_eq_iff split: option.split)

lemma fmt_task_reads:
  "readable p s \<Longrightarrow> fmt_task p key s = (Inr (case key of None \<Rightarrow> ''None'' | Some k \<Rightarrow> task_label s k), s)"
  by (simp add: fmt_task_def case_option_return with_ref_reads task_label_def return_exec_def split: option.split)

lemma format_internal_reads:
  "readable p s \<Longrightarrow> format_internal p name s =
     (Inr (name @ ''{'' @ newline @ fmt_right 10 ''current'' @ '': ''
        @ (case current s of None \<Rightarrow> ''None'' | Some k \<Rightarrow> task_label s k) @ newline @ ''}''), s)"
  by (simp add: format_internal_def exec_defs fmt_task_reads)

lemma lb_fmt_reads:
  assumes "tg_inv ops (lb_timing w)" and "entry_at (lb_timing w) (lb_index lb) = Some e"
  shows "lb_fmt show_future show_clock lb w =
    (Inr (''LoadBalance { future: '' @ show_future (lb_future lb) @ '', slots: '' @ fmt_decimal (te_proportion e)
       @ '', clock: '' @ show_clock (lb_clock w) @ '' }''), w)"
  using assms slab_get_view [of usize_MAX "tg_info (lb_timing w)"]
  by (simp add: lb_fmt_def exec_defs get_slot_count_def tg_inv_def fmt_struct_def)

lemma fmt_tasks_reads: "readable p (ctrl s) \<Longrightarrow> fmt_tasks p ks s = (Inr (map (task_label (ctrl s)) ks), s)"
  by (induction ks) (simp_all add: exec_defs on_ctrl_def fmt_task_reads)

lemma ucw_ref_restored:
  "uc_flag c = 0 \<Longrightarrow> ucw_borrow p c = (Inr (uc_value c), case p of Debug \<Rightarrow> c\<lparr>uc_flag := 1\<rparr> | Release \<Rightarrow> c)"
  "uc_flag c = 0 \<Longrightarrow> ucw_ref_drop p (case p of Debug \<Rightarrow> c\<lparr>uc_flag := 1\<rparr> | Release \<Rightarrow> c) = c"
  by (cases p; simp add: ucw_borrow_def ucw_ref_drop_def isize_MAX_def)+

lemma fmt_runnable_reads:
  assumes "readable p (ctrl s)" and "cells_free s"
  shows "fmt_runnable p s = (Inr (if queue_list False s = [] \<and> queue_list True s = [] then ''None''
      else fmt_list (map (task_label (ctrl s)) (queue_list (which_buffer s) s @ queue_list (\<not> which_buffer s) s))), s)"
proof -
  have f: "uc_flag (runnable0 s) = 0" "uc_flag (runnable1 s) = 0" using cells_freeD(2) [OF assms(2), of False] cells_freeD(2) [OF assms(2), of True]
    by (simp_all add: queue_def)
  let ?c0 = "case p of Debug \<Rightarrow> runnable0 s\<lparr>uc_flag := 1\<rparr> | Release \<Rightarrow> runnable0 s"
  let ?c1 = "case p of Debug \<Rightarrow> runnable1 s\<lparr>uc_flag := 1\<rparr> | Release \<Rightarrow> runnable1 s"
  have t: "fmt_tasks p ks (s\<lparr>runnable0 := ?c0, runnable1 := ?c1\<rparr>) = (Inr (map (task_label (ctrl s)) ks), s\<lparr>runnable0 := ?c0, runnable1 := ?c1\<rparr>)" for ks
    using fmt_tasks_reads [of p "s\<lparr>runnable0 := ?c0, runnable1 := ?c1\<rparr>" ks] assms(1) by simp
  show ?thesis
    using f t ucw_ref_restored [OF f(1), of p] ucw_ref_restored [OF f(2), of p]
    by (auto simp: fmt_runnable_def exec_defs on_queue_def queue_def set_queue_def ucw_read_ok)
qed

lemma fmt_waiting_reads:
  assumes "readable p (ctrl s)" and "cells_free s"
  shows "fmt_waiting p s = (Inr (if deferred_list s = [] then ''None'' else fmt_list (map (task_label (ctrl s)) (deferred_list s))), s)"
proof -
  have f: "uc_flag (deferred s) = 0" using assms(2) by auto
  let ?c = "case p of Debug \<Rightarrow> deferred s\<lparr>uc_flag := 1\<rparr> | Release \<Rightarrow> deferred s"
  have "fmt_tasks p ks (s\<lparr>deferred := ?c\<rparr>) = (Inr (map (task_label (ctrl s)) ks), s\<lparr>deferred := ?c\<rparr>)" for ks
    using fmt_tasks_reads [of p "s\<lparr>deferred := ?c\<rparr>" ks] assms(1) by simp
  then show ?thesis using ucw_ref_restored [OF f, of p] by (auto simp: fmt_waiting_def exec_defs on_deferred_def)
qed

definition suspended_in :: "('f, 'u) alg \<Rightarrow> nat \<Rightarrow> bool" where
  "suspended_in s k \<longleftrightarrow> map_option df_stop_reason (slab_get k (reg_slab (registry s))) = Some SrSuspended"

lemma fmt_suspended_loop_reads:
  "readable p (ctrl s) \<Longrightarrow> fmt_suspended_loop p ks s = (Inr (map (task_label (ctrl s)) (filter (suspended_in (ctrl s)) ks)), s)"
proof (induction ks)
  case (Cons k ks)
  then show ?case
    by (simp add: exec_defs on_ctrl_def fmt_task_reads case_option_return with_ref_reads suspended_in_def split: option.split)
qed (simp add: exec_defs)

lemma fmt_suspended_reads:
  assumes "readable p (ctrl s)" and "reg_iterate_flag (registry (ctrl s)) = 0"
  shows "fmt_suspended p s = (Inr (let ks = filter (suspended_in (ctrl s)) (map fst (slab_iter usize_MAX (reg_slab (registry (ctrl s))))) in
      if ks = [] then ''None'' else fmt_list (map (task_label (ctrl s)) ks)), s)"
proof -
  let ?r = "case p of Debug \<Rightarrow> registry (ctrl s)\<lparr>reg_iterate_flag := 1\<rparr> | Release \<Rightarrow> registry (ctrl s)"
  let ?s = "s\<lparr>ctrl := (ctrl s)\<lparr>registry := ?r\<rparr>\<rparr>"
  have iter: "registry_iter p (registry (ctrl s)) = (Inr (slab_iter usize_MAX (reg_slab (registry (ctrl s)))), ?r)"
    and drop: "iter_drop p ?r = registry (ctrl s)"
    using assms(2) by (cases p; simp add: registry_iter_def iter_drop_def SENTINEL_def usize_MAX_def wrapping_sub_def)+
  have same: "readable p (ctrl ?s)" "task_label (ctrl ?s) = task_label (ctrl s)" "suspended_in (ctrl ?s) = suspended_in (ctrl s)"
    using assms(1) by (cases p; auto simp: readable_def task_label_def suspended_in_def fun_eq_iff)+
  from fmt_suspended_loop_reads [OF same(1)] show ?thesis
    unfolding same by (simp add: fmt_suspended_def exec_defs on_ctrl_def on_registry_def iter drop Let_def)
qed


subsection \<open>Theorems\<close>

text \<open>The dump of an identifier determines it.\<close>

theorem fmt_id_roundtrip:
  assumes "0 < i"
  shows "Suc (read_number 16 (butlast (drop 8 (fmt_id i)))) = i"
  using assms by (simp add: fmt_id_def butlast_append read_fmt id_to_usize_def)

theorem fmt_id_roundtrip_witness: "Suc (read_number 16 (butlast (drop 8 (fmt_id 300)))) = 300 \<and> fmt_id 300 = ''IdNum[0x12B]''"
  using fmt_id_roundtrip [of 300] by (simp add: fmt_id_def fmt_hex_def digits.simps digit_char_def id_to_usize_def)

text \<open>
  Dumping a scheduler returns, also from inside a task that is being polled, and leaves it as it was: every reference to
  a task is given back. A handle prints the current task, or that it is invalid.
\<close>

theorem format_internal_pure:
  assumes "alg_inv p b c q s" and "Suc b < usize_MAX"
  shows "format_internal p name s =
     (Inr (name @ ''{'' @ newline @ ''   current: '' @ (case c of None \<Rightarrow> ''None'' | Some k \<Rightarrow> task_label s k) @ newline @ ''}''), s)"
proof -
  have "readable p s" "current s = c" using assms by (auto simp: alg_inv_def reg_inv_def readable_def)
  then show ?thesis by (simp add: format_internal_reads fmt_right_def numeral_eq_Suc)
qed

theorem format_internal_pure_witness:
  "fst (format_internal Debug ''Wheel'' two_yields) = Inr (''Wheel{'' @ newline @ ''   current: None'' @ newline @ ''}'')"
  using format_internal_pure [OF two_yields_idle, of "''Wheel''"] by (simp add: usize_MAX_def)

text \<open>
  The dump of the queue scheduler reads only, too, and lists the tasks where the scheduler keeps them: the queue in turn
  before the other one, the deferred tasks, and the suspended ones in the order of their keys.
\<close>

theorem sched_format_pure:
  assumes "sched_inv p s"
  shows "\<exists>text. sched_format_internal p name s = (Inr text, s)
    \<and> text = name @ ''{'' @ newline
        @ fmt_right 10 ''current'' @ '': None'' @ newline
        @ fmt_right 10 ''runnable'' @ '': '' @ (if queue_list False s = [] \<and> queue_list True s = [] then ''None''
            else fmt_list (map (task_label (ctrl s)) (queue_list (which_buffer s) s @ queue_list (\<not> which_buffer s) s))) @ newline
        @ fmt_right 10 ''waiting'' @ '': '' @ (if deferred_list s = [] then ''None''
            else fmt_list (map (task_label (ctrl s)) (deferred_list s))) @ newline
        @ fmt_right 10 ''suspended'' @ '': '' @ (let ks = filter (suspended_in (ctrl s)) (map fst (slab_iter usize_MAX (reg_slab (registry (ctrl s))))) in
            if ks = [] then ''None'' else fmt_list (map (task_label (ctrl s)) ks)) @ newline @ ''}''"
proof -
  have inv: "alg_idle p (ctrl s)" "cells_free s" using assms by (auto simp: sched_inv_def sched_shape_def)
  then have r: "readable p (ctrl s)" "current (ctrl s) = None" "reg_iterate_flag (registry (ctrl s)) = 0"
    by (auto simp: alg_inv_def reg_inv_def readable_def usize_MAX_def)
  show ?thesis
    by (simp add: sched_format_internal_def exec_defs on_ctrl_def fmt_task_reads [OF r(1)] r(2)
        fmt_runnable_reads [OF r(1) inv(2)] fmt_waiting_reads [OF r(1) inv(2)] fmt_suspended_reads [OF r(1,3)])
qed

end
