(* ===== verification/Signed_Time.thy ===== *)
theory Signed_Time
  imports Timing
begin

text \<open>
  \<open>src/utils/timing.rs\<close>, the signed instances of \<open>TimerCount\<close>: \<open>i16\<close>, \<open>i32\<close>, \<open>i64\<close>, \<open>i128\<close> and \<open>isize\<close>. A group that
  counts in a signed integer and is given no negative durations behaves as one that counts in an unsigned integer with
  the same maximum, as long as the slot counts fit the integer; for \<open>i16\<close> they need not.
\<close>

subsection \<open>Signed counters\<close>

text \<open>A signed integer type with the largest value \<open>cm\<close>; its smallest is \<open>- cm - 1\<close>.\<close>

definition sint_wrap :: "nat \<Rightarrow> int \<Rightarrow> int" where
  "sint_wrap cm x = (x + int cm + 1) mod (2 * (int cm + 1)) - int cm - 1"

definition sint_check :: "profile \<Rightarrow> nat \<Rightarrow> int \<Rightarrow> panic + int" where
  "sint_check p cm x =
     (if - int cm - 1 \<le> x \<and> x \<le> int cm then Inr x
      else case p of Debug \<Rightarrow> Inl ArithOverflow | Release \<Rightarrow> Inr (sint_wrap cm x))"

text \<open>Division of the language rounds towards zero.\<close>

definition trunc_div :: "int \<Rightarrow> int \<Rightarrow> int" where
  "trunc_div a b = sgn a * sgn b * (\<bar>a\<bar> div \<bar>b\<bar>)"

text \<open>
  \<open>impl_count!\<close> at a signed type: the slot count is cast by \<open>as Self\<close>, which wraps. The one quotient that does not fit,
  the smallest value by minus one, panics in the program; a sum is that small only after negative durations.
\<close>

definition sint_ops :: "profile \<Rightarrow> nat \<Rightarrow> int timer_ops" where
  "sint_ops p cm =
     \<lparr>tc_default = 0, tc_add = (\<lambda>a b. sint_check p cm (a + b)), div_by = (\<lambda>a n. trunc_div a (sint_wrap cm (int n))),
      mul_by = (\<lambda>a n. sint_check p cm (a * sint_wrap cm (int n)))\<rparr>"

lemma sint_wrap_id: "- int cm - 1 \<le> x \<Longrightarrow> x \<le> int cm \<Longrightarrow> sint_wrap cm x = x"
  by (simp add: sint_wrap_def)

lemma trunc_div_int: "trunc_div (int a) (int n) = int (a div n)"
  by (cases "a = 0"; cases "n = 0") (simp_all add: trunc_div_def zdiv_int)

lemma sint_check_int: "sint_check Debug cm (int x) = map_sum id int (int_check Debug cm x)"
  by (simp add: sint_check_def int_check_def)

lemma sint_ops_int:
  "tc_default (sint_ops Debug cm) = int (tc_default (uint_ops Debug cm))"
  "tc_add (sint_ops Debug cm) (int a) (int b) = map_sum id int (tc_add (uint_ops Debug cm) a b)"
  "n \<le> cm \<Longrightarrow> div_by (sint_ops Debug cm) (int a) n = int (div_by (uint_ops Debug cm) a n)"
  "n \<le> cm \<Longrightarrow> mul_by (sint_ops Debug cm) (int a) n = map_sum id int (mul_by (uint_ops Debug cm) a n)"
  using sint_check_int [of cm "a + b"] sint_check_int [of cm "a * n"]
  by (simp_all add: sint_ops_def uint_ops_def sint_wrap_id trunc_div_int)

subsection \<open>Reading an unsigned group as a signed one\<close>

definition map_slab :: "('a \<Rightarrow> 'b) \<Rightarrow> 'a chunk_slab \<Rightarrow> 'b chunk_slab" where
  "map_slab f s = \<lparr>slab_entries = map (map (map_entry f)) (slab_entries s), slab_len = slab_len s, slab_next = slab_next s\<rparr>"

definition signed_entry :: "nat time_entry \<Rightarrow> int time_entry" where
  "signed_entry e = \<lparr>te_sum = int (te_sum e), te_proportion = te_proportion e\<rparr>"

definition signed_group :: "nat timing_group \<Rightarrow> int timing_group" where
  "signed_group g = \<lparr>tg_info = map_slab signed_entry (tg_info g), tg_max = int (tg_max g)\<rparr>"

lemma map_slab_simps [simp]:
  "slab_entries (map_slab f s) = map (map (map_entry f)) (slab_entries s)"
  "slab_len (map_slab f s) = slab_len s" "slab_next (map_slab f s) = slab_next s"
  by (simp_all add: map_slab_def)

lemma signed_group_simps [simp]:
  "tg_info (signed_group g) = map_slab signed_entry (tg_info g)" "tg_max (signed_group g) = int (tg_max g)"
  by (simp_all add: signed_group_def)

lemma signed_entry_simps [simp]:
  "te_sum (signed_entry e) = int (te_sum e)" "te_proportion (signed_entry e) = te_proportion e"
  by (simp_all add: signed_entry_def)

lemma map_slab_iter: "slab_iter mx (map_slab f s) = map (\<lambda>(k, v). (k, f v)) (slab_iter mx s)"
proof -
  have row: "List.map_filter (\<lambda>(i, e). case e of Full v \<Rightarrow> Some (from_index mx i, v) | Empty _ \<Rightarrow> None)
        (map (\<lambda>(i, e). (c + i, e)) (enumerate n (map (map_entry f) ch)))
     = map (\<lambda>(k, v). (k, f v)) (List.map_filter (\<lambda>(i, e). case e of Full v \<Rightarrow> Some (from_index mx i, v) | Empty _ \<Rightarrow> None)
        (map (\<lambda>(i, e). (c + i, e)) (enumerate n ch)))" for c n ch
    by (induction ch arbitrary: n) (auto simp: map_filter_simps split: entry.split)
  have app: "List.map_filter h (xs @ ys) = List.map_filter h xs @ List.map_filter h ys" for h :: "nat \<times> 'x entry \<Rightarrow> (nat \<times> 'x) option" and xs ys
    by (simp add: List.map_filter_def)
  have "List.map_filter (\<lambda>(i, e). case e of Full v \<Rightarrow> Some (from_index mx i, v) | Empty _ \<Rightarrow> None)
       (concat (map (\<lambda>(ci, ch). map (\<lambda>(i, e). (ci * CHUNK_SIZE + i, e)) (enumerate 0 ch)) (enumerate n (map (map (map_entry f)) es))))
     = map (\<lambda>(k, v). (k, f v)) (List.map_filter (\<lambda>(i, e). case e of Full v \<Rightarrow> Some (from_index mx i, v) | Empty _ \<Rightarrow> None)
       (concat (map (\<lambda>(ci, ch). map (\<lambda>(i, e). (ci * CHUNK_SIZE + i, e)) (enumerate 0 ch)) (enumerate n es))))" for n es
    by (induction es arbitrary: n) (simp_all add: app row)
  then show ?thesis by (simp add: slab_iter_def)
qed

lemma slab_chunk:
  assumes "slab_inv mx s" and "into_index k div CHUNK_SIZE < length (slab_entries s)"
  shows "into_index k mod CHUNK_SIZE < length (slab_entries s ! (into_index k div CHUNK_SIZE))"
  using assms by (auto simp: slab_inv_def CHUNK_SIZE_def uniform_def)

lemma map_slab_get: "slab_inv mx s \<Longrightarrow> slab_get k (map_slab f s) = map_option f (slab_get k s)"
  using slab_chunk [of mx s k] by (auto simp: slab_get_def split: entry.split)

lemma map_slab_get_mut:
  assumes "slab_inv mx s" and "\<And>v. h (f v) = f (g v)"
  shows "slab_get_mut k h (map_slab f s) = map_prod (map_option f) (map_slab f) (slab_get_mut k g s)"
  using slab_chunk [OF assms(1), of k] assms(2)
  by (auto simp: slab_get_mut_def Let_def map_slab_def map_update split: entry.split)

lemma map_chunk_links: "map (map_entry f) (chunk_links mx n k) = chunk_links mx n k"
  by (induction n arbitrary: k) (simp_all add: Let_def)

lemma map_slab_insert:
  assumes "slab_inv mx s"
  shows "slab_insert p mx (f v) (map_slab f s) = map_prod id (map_slab f) (slab_insert p mx v s)"
  using slab_chunk [OF assms, of "slab_next s"]
  by (auto simp: slab_insert_def Let_def map_slab_def map_update chunk_init_def map_chunk_links split: entry.split sum.split)

lemma map_slab_remove:
  assumes "slab_inv mx s"
  shows "slab_remove p k (map_slab f s) = map_prod (map_sum id (map_option f)) (map_slab f) (slab_remove p k s)"
  using slab_chunk [OF assms, of k]
  by (auto simp: slab_remove_def Let_def map_slab_def map_update split: entry.split sum.split)

subsection \<open>Properties\<close>

lemma Min_int: "xs \<noteq> [] \<Longrightarrow> Min (set (map int xs)) = int (Min (set xs))"
  using mono_Min_commute [of int "set xs"] by (simp add: monoI)

lemma signed_proportionals:
  assumes "tg_inv (uint_ops Debug cm) g" and "\<And>k e. entry_at g k = Some e \<Longrightarrow> te_proportion e \<le> cm"
  shows "proportionals (sint_ops Debug cm) (signed_group g) = map int (proportionals (uint_ops Debug cm) g)"
proof -
  have slab: "slab_inv usize_MAX (tg_info g)" using assms(1) by (simp add: tg_inv_def)
  have "entry_at g k = Some e" if "(k, e) \<in> set (slab_iter usize_MAX (tg_info g))" for k e
    using that by (auto simp: slab_iter_view [OF slab] set_map_filter_Pair)
  then show ?thesis
    using assms(2) by (fastforce simp: proportionals_def map_slab_iter get_proportional_def sint_ops_int)
qed

text \<open>The group over unsigned counters with the maximum of the signed type, a step of the comparison below.\<close>

lemma signed_counters_equal:
  assumes inv: "tg_inv (uint_ops Debug cm) g" and fit: "\<forall>k e. entry_at g k = Some e \<longrightarrow> te_proportion e \<le> cm" and ten: "10 \<le> cm"
  shows "can_execute (sint_ops Debug cm) k (signed_group g) = can_execute (uint_ops Debug cm) k g
    \<and> update_duration (sint_ops Debug cm) k (int d) (signed_group g) = map_prod id signed_group (update_duration (uint_ops Debug cm) k d g)
    \<and> tg_insert p (sint_ops Debug cm) n (signed_group g) = map_prod id signed_group (tg_insert p (uint_ops Debug cm) n g)
    \<and> tg_remove p k (signed_group g) = map_prod id signed_group (tg_remove p k g)"
proof (intro conjI)
  let ?u = "uint_ops Debug cm" and ?s = "sint_ops Debug cm"
  have slab: "slab_inv usize_MAX (tg_info g)" using inv by (simp add: tg_inv_def)
  note get = map_slab_get [OF slab, of k signed_entry] slab_get_view [OF slab]
  note props = signed_proportionals [OF inv fit [rule_format]]
  show "can_execute ?s k (signed_group g) = can_execute ?u k g"
  proof (cases "entry_at g k")
    case None
    then show ?thesis by (simp add: can_execute_def get)
  next
    case (Some e)
    have "get_proportional ?u e \<in> set (proportionals ?u g)" using Some by (auto simp: set_proportionals [OF slab])
    then have ne: "proportionals ?u g \<noteq> []" by auto
    have e: "get_proportional ?s (signed_entry e) = int (get_proportional ?u e)"
      using fit Some by (simp add: get_proportional_def sint_ops_int)
    have m: "mul_by ?s (int (tg_max g)) 9 = map_sum id int (mul_by ?u (tg_max g) 9)" using ten by (simp add: sint_ops_int)
    show ?thesis
      using Some ten Min_int [OF ne]
      by (auto simp: can_execute_def get e props m sint_ops_int Let_def split: sum.split)
  qed
  show "update_duration ?s k (int d) (signed_group g) = map_prod id signed_group (update_duration ?u k d g)"
  proof (cases "entry_at g k")
    case None
    then show ?thesis by (simp add: update_duration_def get)
  next
    case (Some e)
    have "slab_get_mut k (\<lambda>_. (signed_entry e)\<lparr>te_sum := int x\<rparr>) (map_slab signed_entry (tg_info g))
        = map_prod (map_option signed_entry) (map_slab signed_entry) (slab_get_mut k (\<lambda>_. e\<lparr>te_sum := x\<rparr>) (tg_info g))" for x
      by (rule map_slab_get_mut [OF slab]) (simp add: signed_entry_def)
    then show ?thesis
      using Some fit
      by (auto simp: update_duration_def get sint_ops_int get_proportional_def signed_group_def Let_def split: sum.split)
  qed
  have fresh: "\<lparr>te_sum = tc_default ?s, te_proportion = n\<rparr> = signed_entry \<lparr>te_sum = tc_default ?u, te_proportion = n\<rparr>"
    by (simp add: signed_entry_def sint_ops_int)
  show "tg_insert p ?s n (signed_group g) = map_prod id signed_group (tg_insert p ?u n g)"
    unfolding tg_insert_def fresh by (simp add: map_slab_insert [OF slab] signed_group_def split: prod.split)
  show "tg_remove p k (signed_group g) = map_prod id signed_group (tg_remove p k g)"
    by (auto simp: tg_remove_def map_slab_remove [OF slab] signed_group_def split: prod.split sum.split option.split)
qed

text \<open>Two unsigned types differ only in when their arithmetic overflows.\<close>

lemma uint_inv_any: "tg_inv (uint_ops Debug cm) g \<longleftrightarrow> tg_inv (uint_ops Debug cu) g"
  by (simp add: tg_inv_def get_proportional_def uint_ops_def)

lemma uint_wider:
  assumes "tg_inv (uint_ops Debug cu) g" and "cm \<le> cu"
  shows "can_execute (uint_ops Debug cm) k g = can_execute (uint_ops Debug cu) k g
      \<or> can_execute (uint_ops Debug cm) k g = Inl ArithOverflow \<and> cm < 9 * tg_max g"
    and "update_duration (uint_ops Debug cm) k d g = update_duration (uint_ops Debug cu) k d g
      \<or> update_duration (uint_ops Debug cm) k d g = (Inl ArithOverflow, g) \<and> (\<exists>e. entry_at g k = Some e \<and> cm < te_sum e + d)"
    and "tg_insert p (uint_ops Debug cm) n g = tg_insert p (uint_ops Debug cu) n g"
proof -
  have slab: "slab_inv usize_MAX (tg_info g)" using assms(1) by (simp add: tg_inv_def)
  have eqs: "get_proportional (uint_ops Debug cm) = get_proportional (uint_ops Debug cu)"
    "proportionals (uint_ops Debug cm) g = proportionals (uint_ops Debug cu) g"
    "div_by (uint_ops Debug cm) = div_by (uint_ops Debug cu)" "tc_default (uint_ops Debug cm) = tc_default (uint_ops Debug cu)"
    by (auto simp: fun_eq_iff get_proportional_def proportionals_def uint_ops_def)
  have mul: "mul_by (uint_ops Debug c) x 9 = int_check Debug c (x * 9)" and add: "tc_add (uint_ops Debug c) x y = int_check Debug c (x + y)" for c x y
    by (simp_all add: uint_ops_def)
  have chk: "int_check Debug cm x = int_check Debug cu x \<or> int_check Debug cm x = Inl ArithOverflow \<and> cm < x" for x
    using assms(2) by (auto simp: int_check_def)
  show "can_execute (uint_ops Debug cm) k g = can_execute (uint_ops Debug cu) k g
      \<or> can_execute (uint_ops Debug cm) k g = Inl ArithOverflow \<and> cm < 9 * tg_max g"
    using chk [of "tg_max g * 9"] by (auto simp: can_execute_def eqs mul Let_def mult.commute split: option.split sum.split)
  show "update_duration (uint_ops Debug cm) k d g = update_duration (uint_ops Debug cu) k d g
      \<or> update_duration (uint_ops Debug cm) k d g = (Inl ArithOverflow, g) \<and> (\<exists>e. entry_at g k = Some e \<and> cm < te_sum e + d)"
  proof (cases "entry_at g k")
    case (Some e)
    then show ?thesis
      using chk [of "te_sum e + d"] by (auto simp: update_duration_def slab_get_view [OF slab] eqs add Let_def split: sum.split)
  qed (simp add: update_duration_def slab_get_view [OF slab])
  show "tg_insert p (uint_ops Debug cm) n g = tg_insert p (uint_ops Debug cu) n g" by (simp add: tg_insert_def eqs)
qed

text \<open>
  C39. Signed counters. Let a timing group count in a signed integer with the largest value \<open>cm\<close>, at least ten, under checked
  arithmetic, with slot counts that fit the integer and no negative duration. Then it answers as the group with the same
  entries that counts in an unsigned integer with a maximum \<open>cu\<close> no smaller than \<open>cm\<close>, such as \<open>i32\<close> and \<open>u32\<close> or \<open>u64\<close>:
  insertions and removals do the same, and so do the decisions of \<open>can_execute\<close> and the accounting of \<open>update_duration\<close>,
  panics included, unless the signed arithmetic overflows; that happens only where nine times the maximum of the group, or the
  sum with the new duration, exceeds \<open>cm\<close>, and leaves the group as it was.
\<close>

theorem signed_counters_agree:
  assumes inv: "tg_inv (uint_ops Debug cu) g" and fit: "\<forall>k e. entry_at g k = Some e \<longrightarrow> te_proportion e \<le> cm"
    and ten: "10 \<le> cm" and wide: "cm \<le> cu"
  shows "(can_execute (sint_ops Debug cm) k (signed_group g) = can_execute (uint_ops Debug cu) k g
      \<or> can_execute (sint_ops Debug cm) k (signed_group g) = Inl ArithOverflow \<and> cm < 9 * tg_max g)
    \<and> (update_duration (sint_ops Debug cm) k (int d) (signed_group g) = map_prod id signed_group (update_duration (uint_ops Debug cu) k d g)
      \<or> update_duration (sint_ops Debug cm) k (int d) (signed_group g) = (Inl ArithOverflow, signed_group g)
        \<and> (\<exists>e. entry_at g k = Some e \<and> cm < te_sum e + d))
    \<and> tg_insert p (sint_ops Debug cm) n (signed_group g) = map_prod id signed_group (tg_insert p (uint_ops Debug cu) n g)
    \<and> tg_remove p k (signed_group g) = map_prod id signed_group (tg_remove p k g)"
proof -
  have "tg_inv (uint_ops Debug cm) g" using inv uint_inv_any by blast
  note eq = signed_counters_equal [OF this fit ten]
  note wider = uint_wider [OF inv wide]
  show ?thesis
    unfolding eq [THEN conjunct1] eq [THEN conjunct2, THEN conjunct1] eq [THEN conjunct2, THEN conjunct2, THEN conjunct1]
      eq [THEN conjunct2, THEN conjunct2, THEN conjunct2] wider(3)
    using wider(1) [of k] wider(2) [of k d] by auto
qed

lemma duo_entries: "entry_at duo k = Some e \<Longrightarrow> te_proportion e \<le> 2 \<and> te_sum e = 0"
proof -
  have slab: "slab_inv usize_MAX (tg_info duo)" using duo_inv(1) by (simp add: tg_inv_def)
  have "list_all (\<lambda>(k, e). te_proportion e \<le> 2 \<and> te_sum e = 0) (slab_iter usize_MAX (tg_info duo))"
    by (simp add: run duo_def u32_ops_def cong: run_cong)
  then show "entry_at duo k = Some e \<Longrightarrow> te_proportion e \<le> 2 \<and> te_sum e = 0"
    using slab_view_capacity [OF slab, of k e] by (fastforce simp: list_all_iff slab_iter_view [OF slab] set_map_filter_Pair)
qed

lemmas duo_slots = duo_entries [THEN conjunct1]
lemmas duo_sums = duo_entries [THEN conjunct2]

text \<open>An \<open>i32\<close> group against the \<open>u32\<close> group: the second entry is charged 500 ticks.\<close>

theorem signed_counters_agree_witness:
  "update_duration (sint_ops Debug (2 ^ 31 - 1)) 1 500 (signed_group duo) = map_prod id signed_group (update_duration u32_ops 1 500 duo)"
proof -
  let ?i = "sint_ops Debug (2 ^ 31 - 1)"
  have fit: "\<forall>k e. entry_at duo k = Some e \<longrightarrow> te_proportion e \<le> 2 ^ 31 - 1" using duo_slots order_trans by fastforce
  have "update_duration ?i 1 (int 500) (signed_group duo) = map_prod id signed_group (update_duration (uint_ops Debug (2 ^ 32 - 1)) 1 500 duo)
      \<or> (\<exists>e. entry_at duo 1 = Some e \<and> 2 ^ 31 - 1 < te_sum e + 500)"
    using signed_counters_agree [of "2 ^ 32 - 1" duo "2 ^ 31 - 1" 1 500 Debug 1, OF duo_inv(1) [unfolded u32_ops_def] fit] by auto
  moreover have "te_sum e = 0" if "entry_at duo 1 = Some e" for e using duo_sums that by blast
  ultimately show ?thesis by (auto simp: u32_ops_def)
qed

text \<open>
  A slot count over 32767 does not fit \<open>i16\<close> and is cast to a negative number. In a group that counts in \<open>i16\<close>, an entry
  with 65535 slots has minus the time it took as its share: beside an entry that has run, it may execute however much
  time it has taken, and the other entry may not.
\<close>

definition i16_group :: "int \<Rightarrow> int timing_group" where
  "i16_group d =
     (let ops = sint_ops Debug 32767 in
      snd (update_duration ops 0 d (snd (update_duration ops 1 10
        (snd (tg_insert Debug ops 1 (snd (tg_insert Debug ops 65535 (tg_new ops)))))))))"

lemma i16_ops:
  "tc_default (sint_ops Debug 32767) = 0" "tc_add (sint_ops Debug 32767) a b = sint_check Debug 32767 (a + b)"
  "div_by (sint_ops Debug 32767) a 65535 = - a" "div_by (sint_ops Debug 32767) a (Suc 0) = a" "div_by (sint_ops Debug 32767) 90 10 = 9"
  "mul_by (sint_ops Debug 32767) 10 9 = Inr 90"
proof -
  have "sgn a * \<bar>a\<bar> = a" by (simp add: sgn_mult_abs)
  then show "div_by (sint_ops Debug 32767) a 65535 = - a" "div_by (sint_ops Debug 32767) a (Suc 0) = a"
    by (simp_all add: sint_ops_def sint_wrap_def trunc_div_def)
qed (simp_all add: sint_ops_def sint_wrap_def sint_check_def trunc_div_def)

theorem i16_slots_starve:
  assumes "0 \<le> d" and "d \<le> 32767"
  shows "can_execute (sint_ops Debug 32767) 0 (i16_group d) = Inr True \<and> can_execute (sint_ops Debug 32767) 1 (i16_group d) = Inr False"
  using assms by (simp add: run i16_group_def i16_ops sint_check_def min_def Let_def cong: run_cong)

end
