(* ===== verification/Cell_Ownership.thy ===== *)
theory Cell_Ownership
  imports Atomic_Cell "HOL-Library.Multiset"
begin

text \<open>
  \<open>src/utils/cell.rs\<close>, who owns the values of an \<open>AtomicCell\<close>. The cell keeps its value in a \<open>ManuallyDrop\<close> that
  \<open>swap\<close> copies bit by bit; that no value is dropped twice or lost is up to the protocol. A run of swaps is given
  with the values handed to the cell and the values it handed back; a value is an allocation, so that equal values are
  counted.
\<close>

subsection \<open>Exclusive access\<close>

text \<open>\<open>get_mut\<close>, \<open>into_inner\<close> and \<open>drop\<close> take the cell itself or a unique reference to it: no call is under way.\<close>

definition quiet :: "'a cell_state \<Rightarrow> bool" where
  "quiet s \<longleftrightarrow> (\<forall>t. thread s t = Idle)"

text \<open>\<open>get_mut\<close> with the update \<open>f\<close> made through the reference; \<open>into_inner\<close>; the value whose destructor \<open>drop\<close> runs.\<close>

definition cell_get_mut :: "('a \<Rightarrow> 'a) \<Rightarrow> 'a cell_state \<Rightarrow> 'a cell_state" where
  "cell_get_mut f s = s\<lparr>cell := f (cell s)\<rparr>"

definition cell_into_inner :: "'a cell_state \<Rightarrow> 'a" where
  "cell_into_inner s = cell s"

definition cell_drop :: "'a cell_state \<Rightarrow> 'a" where
  "cell_drop s = cell s"

subsection \<open>Runs of swaps\<close>

primrec handed_back :: "'a outcome \<Rightarrow> 'a multiset" where
  "handed_back (Swapped v) = {#v#}"
| "handed_back Applied = {#}"
| "handed_back Unwound = {#}"
| "handed_back Refused = {#}"

text \<open>
  \<open>swap_trace weak v0 inn out s\<close>: swaps of several threads lead from a new cell with \<open>v0\<close> to \<open>s\<close>; \<open>inn\<close> are the values
  moved into the cell or into a call, \<open>out\<close> those that calls returned, as the previous value or, from a refused
  \<open>try_swap\<close>, as the argument.
\<close>

inductive swap_trace :: "bool \<Rightarrow> 'a \<Rightarrow> 'a multiset \<Rightarrow> 'a multiset \<Rightarrow> 'a cell_state \<Rightarrow> bool"
  for weak v0 where
  fresh: "swap_trace weak v0 {#v0#} {#} (cell_new v0)"
| give: "swap_trace weak v0 inn out s \<Longrightarrow> thread s t = Idle \<Longrightarrow>
    swap_trace weak v0 (add_mset v inn) out (at_pc t (Try (OpSwap v) again) s)"
| silent: "swap_trace weak v0 inn out s \<Longrightarrow> cell_step weak s s' \<Longrightarrow>
    (\<forall>t. thread s' t = Idle \<longleftrightarrow> thread s t = Idle) \<Longrightarrow>
    (\<forall>t. thread s' t = Returned Refused \<longrightarrow> thread s t = Returned Refused) \<Longrightarrow>
    swap_trace weak v0 inn out s'"
| refuse: "swap_trace weak v0 inn out s \<Longrightarrow> thread s t = Try (OpSwap v) False \<Longrightarrow> mark s \<Longrightarrow>
    swap_trace weak v0 inn (add_mset v out) (at_pc t (Returned Refused) s)"
| take_back: "swap_trace weak v0 inn out s \<Longrightarrow> thread s t = Returned r \<Longrightarrow>
    swap_trace weak v0 inn (handed_back r + out) (at_pc t Idle s)"

lemma swap_trace_run: "swap_trace weak v0 inn out s \<Longrightarrow> cell_run weak v0 s"
proof (induction rule: swap_trace.induct)
  case (refuse inn out s t v)
  then show ?case using cell_run.step [OF refuse.IH cell_step.cas_taken [OF refuse.hyps(2,3)]] by simp
qed (auto intro: cell_run.intros cell_step.intros)

subsection \<open>What the calls under way hold\<close>

text \<open>
  A call holds its argument until it has written it into the cell, and then the value it read. Between the read and
  the write the old value is counted for the cell.
\<close>

primrec held_by :: "'a pc \<Rightarrow> 'a multiset" where
  "held_by Idle = {#}"
| "held_by (Try op again) = (case op of OpSwap v \<Rightarrow> {#v#} | OpApply f \<Rightarrow> {#})"
| "held_by (Enter op) = (case op of OpSwap v \<Rightarrow> {#v#} | OpApply f \<Rightarrow> {#})"
| "held_by (Have op first) = (case op of OpSwap v \<Rightarrow> {#v#} | OpApply f \<Rightarrow> {#})"
| "held_by (Unlock r) = handed_back r"
| "held_by (Returned r) = handed_back r"

primrec swapping :: "'a pc \<Rightarrow> bool" where
  "swapping Idle = True"
| "swapping (Try op again) = (case op of OpSwap v \<Rightarrow> True | OpApply f \<Rightarrow> False)"
| "swapping (Enter op) = (case op of OpSwap v \<Rightarrow> True | OpApply f \<Rightarrow> False)"
| "swapping (Have op first) = (case op of OpSwap v \<Rightarrow> True | OpApply f \<Rightarrow> False)"
| "swapping (Unlock r) = True"
| "swapping (Returned r) = True"

definition busy :: "'a cell_state \<Rightarrow> nat set" where
  "busy s = {t. thread s t \<noteq> Idle}"

definition in_flight :: "'a cell_state \<Rightarrow> 'a multiset" where
  "in_flight s = (\<Sum>t \<in> busy s. held_by (thread s t))"

lemma in_flight_wider:
  "finite T \<Longrightarrow> busy s \<subseteq> T \<Longrightarrow> in_flight s = (\<Sum>t \<in> T. held_by (thread s t))"
  unfolding in_flight_def by (rule sum.mono_neutral_left) (auto simp: busy_def)

lemma in_flight_at:
  assumes "finite (busy s)"
  shows "finite (busy (at_pc t pc s))" "in_flight (at_pc t pc s) + held_by (thread s t) = in_flight s + held_by pc"
proof -
  let ?T = "insert t (busy s)"
  have sub: "busy (at_pc t pc s) \<subseteq> ?T" by (auto simp: busy_def split: if_splits)
  then show "finite (busy (at_pc t pc s))" using assms finite_subset by blast
  have "in_flight (at_pc t pc s) = held_by pc + (\<Sum>j \<in> ?T - {t}. held_by (thread s j))"
    using in_flight_wider [OF _ sub] assms by (simp add: sum.remove [of ?T t])
  moreover have "in_flight s = held_by (thread s t) + (\<Sum>j \<in> ?T - {t}. held_by (thread s j))"
    using in_flight_wider [of ?T s] assms by (simp add: sum.remove [of ?T t] subset_insertI)
  ultimately show "in_flight (at_pc t pc s) + held_by (thread s t) = in_flight s + held_by pc" by simp
qed

definition balanced :: "'a multiset \<Rightarrow> 'a multiset \<Rightarrow> 'a cell_state \<Rightarrow> bool" where
  "balanced inn out s \<longleftrightarrow>
     finite (busy s) \<and> (\<forall>t. swapping (thread s t)) \<and> inn = out + in_flight s + {#cell s#}"

lemma busy_fields [simp]: "busy (s\<lparr>mark := m\<rparr>) = busy s" "busy (s\<lparr>cell := v\<rparr>) = busy s"
  "in_flight (s\<lparr>mark := m\<rparr>) = in_flight s" "in_flight (s\<lparr>cell := v\<rparr>) = in_flight s"
  by (simp_all add: busy_def in_flight_def)

text \<open>A thread moves on: the balance is kept if what it held and what it holds account for the change.\<close>

lemma balanced_at:
  assumes "balanced inn out s" and "swapping pc"
    and "inn' + out + held_by (thread s t) + {#cell s#} = inn + out' + held_by pc + {#v#}"
  shows "balanced inn' out' (at_pc t pc (s\<lparr>mark := m, cell := v\<rparr>))"
proof -
  have fin: "finite (busy s)" and inn: "inn = out + in_flight s + {#cell s#}" using assms(1) by (simp_all add: balanced_def)
  note move = in_flight_at [of "s\<lparr>mark := m, cell := v\<rparr>" t pc]
  have mv: "in_flight (at_pc t pc (s\<lparr>mark := m, cell := v\<rparr>)) + held_by (thread s t) = in_flight s + held_by pc"
    using move(2) fin by simp
  have "inn' = out' + in_flight (at_pc t pc (s\<lparr>mark := m, cell := v\<rparr>)) + {#v#}"
  proof (rule multiset_eqI)
    fix x
    show "count inn' x = count (out' + in_flight (at_pc t pc (s\<lparr>mark := m, cell := v\<rparr>)) + {#v#}) x"
      using arg_cong [OF mv, of "\<lambda>M. count M x"] arg_cong [OF assms(3), of "\<lambda>M. count M x"]
        arg_cong [OF inn, of "\<lambda>M. count M x"]
      unfolding count_union by linarith
  qed
  then show ?thesis using assms(1,2) move(1) fin by (auto simp: balanced_def)
qed

lemma balanced_move:
  assumes "balanced inn out s" and "swapping pc" and "inn' + out + held_by (thread s t) = inn + out' + held_by pc"
  shows "balanced inn' out' (at_pc t pc s)"
  using balanced_at [OF assms(1,2), of inn' t out' "cell s" "mark s"] assms(3) by simp

lemma balanced_swapping: "balanced inn out s \<Longrightarrow> swapping (thread s t)"
  by (simp add: balanced_def)

lemma balanced_step:
  assumes bal: "balanced inn out s" and step: "cell_step weak s s'" and inv: "cell_inv s"
    and idle: "\<forall>t. thread s' t = Idle \<longleftrightarrow> thread s t = Idle"
    and refused: "\<forall>t. thread s' t = Returned Refused \<longrightarrow> thread s t = Returned Refused"
  shows "balanced inn out s'"
  using step
proof cases
  case (call t op again)
  then show ?thesis using idle [rule_format, of t] by simp
next
  case (cas_ok t op again)
  then show ?thesis using balanced_at [OF bal, of "Enter op" inn t out "cell s" True] balanced_swapping [OF bal, of t] by simp
next
  case (cas_spurious t op again)
  then show ?thesis using balanced_move [OF bal, of "Enter op" inn t out] balanced_swapping [OF bal, of t] by simp
next
  case (cas_taken t op again)
  have "again" using cas_taken refused [rule_format, of t] by (auto split: if_splits)
  then show ?thesis using cas_taken balanced_move [OF bal, of "Try op again" inn t out] balanced_swapping [OF bal, of t] by simp
next
  case (reads t op)
  then show ?thesis using balanced_move [OF bal, of "Have op (cell s)" inn t out] balanced_swapping [OF bal, of t] by simp
next
  case (writes t op first new r)
  have "first = cell s" using writes(2) inv by (simp add: cell_inv_def)
  then obtain v where "op = OpSwap v" "new = Some v" "r = Swapped (cell s)" using writes balanced_swapping [OF bal, of t] by (cases op) auto
  then show ?thesis using writes balanced_at [OF bal, of "Unlock r" inn t out v "mark s"] by simp
next
  case (unlocks t r)
  then show ?thesis using balanced_at [OF bal, of "Returned r" inn t out "cell s" False] balanced_swapping [OF bal, of t] by simp
next
  case (returns t r)
  then show ?thesis using idle [rule_format, of t] by simp
qed

lemma swap_trace_balanced: "swap_trace False v0 inn out s \<Longrightarrow> balanced inn out s"
proof (induction rule: swap_trace.induct)
  case fresh
  show ?case by (simp add: balanced_def busy_def in_flight_def cell_new_def)
next
  case (give inn out s t v again)
  then show ?case using balanced_move [OF give.IH, of "Try (OpSwap v) again" "add_mset v inn" t out] by simp
next
  case (silent inn out s s')
  show ?case by (rule balanced_step [OF silent.IH silent.hyps(2) cell_run_inv [OF swap_trace_run [OF silent.hyps(1)]] silent.hyps(3,4)])
next
  case (refuse inn out s t v)
  then show ?case using balanced_move [OF refuse.IH, of "Returned Refused" inn t "add_mset v out"] by simp
next
  case (take_back inn out s t r)
  then show ?case using balanced_move [OF take_back.IH, of Idle inn t "handed_back r + out"] by (simp add: ac_simps)
qed

subsection \<open>Properties\<close>

text \<open>
  C11. With the strong exchange no value is lost or handed out twice: in every interleaving of swaps, the values moved into
  the cell are those its calls returned, those the calls under way hold, and the one in the cell. When no call is under
  way, \<open>into_inner\<close> returns, or \<open>drop\<close> destroys, exactly the one value that has not been returned.
\<close>

theorem swaps_conserve:
  assumes "swap_trace False v0 inn out s"
  shows "inn = out + in_flight s + {#cell s#}
    \<and> (quiet s \<longrightarrow> inn = add_mset (cell_into_inner s) out \<and> inn = add_mset (cell_drop s) out)"
proof -
  have "inn = out + in_flight s + {#cell s#}" using swap_trace_balanced [OF assms] by (simp add: balanced_def)
  moreover have "quiet s \<Longrightarrow> in_flight s = {#}" by (simp add: quiet_def in_flight_def busy_def)
  ultimately show ?thesis by (simp add: cell_into_inner_def cell_drop_def)
qed

text \<open>A thread swaps 2 into a cell that holds 0, alone and to the end.\<close>

lemma one_swap: "swap_trace weak 0 {#2, 0#} {#0#} ((cell_new (0::nat))\<lparr>cell := 2\<rparr>)"
proof -
  let ?s1 = "at_pc 0 (Try (OpSwap 2) True) (cell_new (0::nat))"
  let ?s2 = "at_pc 0 (Enter (OpSwap 2)) (?s1\<lparr>mark := True\<rparr>)"
  let ?s3 = "at_pc 0 (Have (OpSwap 2) (cell ?s2)) ?s2"
  let ?s4 = "at_pc 0 (Unlock (Swapped 0)) (?s3\<lparr>cell := 2\<rparr>)"
  let ?s5 = "at_pc 0 (Returned (Swapped 0)) (?s4\<lparr>mark := False\<rparr>)"
  have s1: "swap_trace weak 0 {#2, 0#} {#} ?s1"
    using swap_trace.give [OF swap_trace.fresh [of weak 0], of 0 2 True] by (simp add: cell_new_def add_mset_commute)
  have "swap_trace weak 0 {#2, 0#} {#} ?s2"
    by (rule swap_trace.silent [OF s1 cell_step.cas_ok [where again = True]]) (auto simp: cell_new_def)
  then have "swap_trace weak 0 {#2, 0#} {#} ?s3"
    by (rule swap_trace.silent [OF _ cell_step.reads]) (auto simp: cell_new_def)
  then have "swap_trace weak 0 {#2, 0#} {#} ?s4"
    using swap_trace.silent [OF _ cell_step.writes [of ?s3 0 "OpSwap 2" 0 "Some 2" "Swapped 0"]] by (simp add: cell_new_def)
  then have "swap_trace weak 0 {#2, 0#} {#} ?s5"
    by (rule swap_trace.silent [OF _ cell_step.unlocks]) (auto simp: cell_new_def)
  then have "swap_trace weak 0 {#2, 0#} {#0#} (at_pc 0 Idle ?s5)"
    using swap_trace.take_back [of weak 0 _ _ ?s5 0 "Swapped 0"] by simp
  moreover have "at_pc 0 Idle ?s5 = (cell_new 0)\<lparr>cell := 2\<rparr>" by (simp add: cell_new_def at_pc_def fun_eq_iff)
  ultimately show ?thesis by simp
qed

theorem swaps_conserve_witness:
  "{#2, 0#} = add_mset (cell_into_inner ((cell_new (0::nat))\<lparr>cell := 2\<rparr>)) {#0#}"
  using swaps_conserve [OF one_swap [of False]] by (simp add: quiet_def cell_new_def)

end
