(* ===== verification/Task_Drop.thy ===== *)
theory Task_Drop
  imports Scheduler_Correct
begin

text \<open>
  The destructors of the futures. \<open>Registry::remove\<close> (\<open>src/dy/registry.rs\<close>) drops the task it takes out of the slab, and
  with it the boxed future, whose destructor is code of the user: it may call the handle and it may panic. The other
  theories leave it out; here the scheduler of \<open>src/dy/unordered_algorithm.rs\<close> is given again with it. With destructors
  that do nothing it is the scheduler of \<open>Unordered_Algorithm\<close>; with destructors that make no calls a poll means the
  same; and with arbitrary ones it stays consistent, but may go to sleep with a runnable task.
\<close>

subsection \<open>Operations\<close>

text \<open>
  \<open>drop_code c fin f u\<close> is what the destructor of the future \<open>f\<close> does; \<open>fin\<close> if its last poll returned \<open>Ready\<close>, in
  which case \<open>f\<close> is the future before that poll. The code ends like that of a poll, \<open>Ready\<close> or \<open>Pending\<close> alike.
\<close>

record ('f, 'u) task_code =
  poll_code :: "('f, 'u) body"
  drop_code :: "bool \<Rightarrow> 'f \<Rightarrow> 'u \<Rightarrow> ('f, 'u) prog"

definition drop_future ::
  "profile \<Rightarrow> ('f, 'u) task_code \<Rightarrow> bool \<Rightarrow> 'f dynamic_future \<Rightarrow> (('f, 'u) alg, unit) exec" where
  "drop_future p code fin t =
     bind_exec (gets_exec user) (\<lambda>u.
     bind_exec (run_prog p (drop_code code fin (df_future t) u)) (\<lambda>_. return_exec ()))"

text \<open>\<open>remove(key).map(|_| ())\<close>: the task is out of the slab when its destructor runs.\<close>

definition remove_dropping ::
  "profile \<Rightarrow> ('f, 'u) task_code \<Rightarrow> bool \<Rightarrow> nat \<Rightarrow> (('f, 'u) alg, unit) exec" where
  "remove_dropping p code fin key =
     bind_exec (gets_exec (\<lambda>s. slab_get key (reg_slab (registry s)))) (\<lambda>t.
     bind_exec (remove_task p key) (\<lambda>_.
     case t of None \<Rightarrow> return_exec () | Some task \<Rightarrow> drop_future p code fin task))"

definition drop_slot :: "profile \<Rightarrow> ('f, 'u) task_code \<Rightarrow> nat \<Rightarrow> bool \<Rightarrow> (('f, 'u) alg, bool) exec" where
  "drop_slot p code key any_poll =
     bind_exec (modify_exec deliver) (\<lambda>_.
     bind_exec (on_registry (registry_get p key)) (\<lambda>t.
     case t of
       None \<Rightarrow> return_exec any_poll
     | Some run_task \<Rightarrow>
         let reason = df_stop_reason run_task in
         if \<not> is_poll_allowed reason then
           bind_exec (modify_exec (drop_ref p)) (\<lambda>_.
           if reason = SrCancelled then bind_exec (remove_dropping p code False key) (\<lambda>_. return_exec any_poll)
           else return_exec any_poll)
         else
           bind_exec (gets_exec (\<lambda>s. is_runnable (arcs s) run_task)) (\<lambda>runnable.
           if \<not> runnable then bind_exec (modify_exec (drop_ref p)) (\<lambda>_. return_exec any_poll)
           else
             bind_exec (poll_task p (poll_code code) key run_task) (\<lambda>is_ready.
             if is_ready then bind_exec (remove_dropping p code True key) (\<lambda>_. return_exec True)
             else return_exec True))))"

primrec drop_loop :: "profile \<Rightarrow> ('f, 'u) task_code \<Rightarrow> nat list \<Rightarrow> bool \<Rightarrow> (('f, 'u) alg, bool) exec" where
  "drop_loop p code [] any_poll = return_exec any_poll"
| "drop_loop p code (k # ks) any_poll =
     bind_exec (drop_slot p code k any_poll) (\<lambda>any. drop_loop p code ks any)"

definition drop_beat :: "profile \<Rightarrow> ('f, 'u) task_code \<Rightarrow> (('f, 'u) alg, bool) exec" where
  "drop_beat p code =
     bind_exec (gets_exec (\<lambda>s. registry_capacity (registry s))) (\<lambda>cap.
     drop_loop p code [0..<cap] False)"

definition drop_iter :: "profile \<Rightarrow> ('f, 'u) task_code \<Rightarrow> nat \<Rightarrow> (('f, 'u) alg, bool poll option) exec" where
  "drop_iter p code waker =
     bind_exec (drop_beat p code) (\<lambda>any.
     if any then return_exec None
     else
       bind_exec (modify_exec (\<lambda>s. snd (waker_register waker (deliver s)))) (\<lambda>_.
       bind_exec (drop_beat p code) (\<lambda>any'.
       bind_exec (modify_exec deliver) (\<lambda>_.
       if \<not> any' then
         bind_exec (gets_exec (\<lambda>s. (registered_count s, suspended_count s))) (\<lambda>(cnt, sus).
         if cnt = 0 \<or> cnt = sus then
           bind_exec (modify_exec (\<lambda>s. snd (waker_clear s))) (\<lambda>_. return_exec (Some (Ready (cnt = 0))))
         else return_exec (Some Pending))
       else
         bind_exec (modify_exec (\<lambda>s. snd (waker_clear s))) (\<lambda>_. return_exec None)))))"

text \<open>The loop of \<open>poll_internal\<close>, for at most \<open>n\<close> iterations.\<close>

definition drop_poll ::
  "profile \<Rightarrow> ('f, 'u) task_code \<Rightarrow> nat \<Rightarrow> nat \<Rightarrow> ('f, 'u) alg \<Rightarrow> ((panic + bool poll) \<times> ('f, 'u) alg) option" where
  "drop_poll p code waker n s = until_some (drop_iter p code waker) n (snd (waker_clear s))"

declare drop_future_def [run] remove_dropping_def [run] drop_slot_def [run] drop_beat_def [run] drop_iter_def [run]
  drop_poll_def [run]

lemma until_some_numeral [run]:
  "until_some it (numeral n) s =
     (case it s of
        (Inl e, s') \<Rightarrow> Some (Inl e, s')
      | (Inr (Some r), s') \<Rightarrow> Some (Inr r, s')
      | (Inr None, s') \<Rightarrow> until_some it (pred_numeral n) s')"
  by (simp add: numeral_eq_Suc)

subsection \<open>Destructors that do nothing\<close>

definition silent :: "('f, 'u) task_code \<Rightarrow> bool" where
  "silent code \<longleftrightarrow> (\<forall>fin f u. drop_code code fin f u = PReady u)"

lemma silent_drop: "silent code \<Longrightarrow> drop_future p code fin t = return_exec ()"
  by (simp add: fun_eq_iff drop_future_def silent_def exec_defs)

lemma silent_remove: "silent code \<Longrightarrow> remove_dropping p code fin k = remove_task p k"
  by (auto simp: fun_eq_iff remove_dropping_def silent_drop exec_defs cong: option.case_cong
      split: option.split prod.split sum.split)

lemma silent_slot: "silent code \<Longrightarrow> drop_slot p code k any = beat_slot p (poll_code code) k any"
  by (simp only: drop_slot_def beat_slot_def silent_remove)

lemma silent_loop: "silent code \<Longrightarrow> drop_loop p code ks any = beat_loop p (poll_code code) ks any"
  by (induction ks arbitrary: any) (simp_all add: silent_slot)

lemma silent_beat: "silent code \<Longrightarrow> drop_beat p code = beat_once p (poll_code code)"
  by (simp add: drop_beat_def beat_once_def silent_loop)

lemma silent_iter: "silent code \<Longrightarrow> drop_iter p code w = poll_iter p (poll_code code) w"
  by (simp only: drop_iter_def poll_iter_def silent_beat)

subsection \<open>A slot\<close>

lemma drop_future_ok:
  assumes "alg_idle p s"
  shows "wpx (drop_future p code fin t)
    (\<lambda>_ s'. alg_idle p s' \<and> kept s s' \<and> polled s' = polled s) (poll_panic p) s"
  unfolding drop_future_def
  by (auto intro!: wpx_mono [OF wpx_conj [OF run_prog_ok [OF assms zero_less_usize(1)] run_prog_polled [OF assms zero_less_usize(1)]]]
      simp: call_ok_def body_panic_def poll_panic_def frame_kept)

text \<open>The destructor runs after the visit of the slot as it is without destructors, if that removed the task.\<close>

lemma remove_dropping_eq:
  assumes "alg_idle p s" and "task_at s k = Some t"
  shows "remove_dropping p code fin k s = drop_future p code fin t (removed p k s)"
proof -
  have slab: "slab_inv usize_MAX (reg_slab (registry s))" using assms(1) by (simp add: alg_inv_def reg_inv_def)
  have "slab_get k (reg_slab (registry s)) = Some t"
    using assms(2) slab_get_view [OF slab, of k] by (simp add: reg_view_def)
  then show ?thesis
    using remove_task_eq [OF assms(1), of k] assms(2) by (simp add: remove_dropping_def exec_defs)
qed

definition then_drop :: "profile \<Rightarrow> ('f, 'u) task_code \<Rightarrow> nat \<Rightarrow> ('f, 'u) alg \<Rightarrow> bool \<Rightarrow> (('f, 'u) alg, bool) exec" where
  "then_drop p code k s x s' =
     (case task_at (deliver s) k of
        Some t \<Rightarrow>
          if task_at s' k = None then
            bind_exec (drop_future p code (df_stop_reason t \<noteq> SrCancelled) t) (\<lambda>_. return_exec x) s'
          else (Inr x, s')
      | None \<Rightarrow> (Inr x, s'))"

lemma drop_future_same: "df_future t' = df_future t \<Longrightarrow> drop_future p code fin t' = drop_future p code fin t"
  by (simp add: drop_future_def)

text \<open>The visit of a slot, with the references resolved.\<close>

lemma drop_slot_eq:
  assumes inv: "alg_idle p s"
  shows "drop_slot p code k any s =
     (let s1 = deliver s in
      case task_at s1 k of
        None \<Rightarrow> (Inr any, s1)
      | Some t \<Rightarrow>
          (case df_stop_reason t of
             SrCancelled \<Rightarrow> bind_exec (remove_dropping p code False k) (\<lambda>_. return_exec any) s1
           | SrSuspended \<Rightarrow> (Inr any, s1)
           | SrNone \<Rightarrow>
               if is_runnable (arcs s1) t then
                 bind_exec (poll_task p (poll_code code) k t) (\<lambda>is_ready.
                   if is_ready then bind_exec (remove_dropping p code True k) (\<lambda>_. return_exec True)
                   else return_exec True) (add_ref p s1)
               else (Inr any, s1)))"
proof -
  have inv1: "alg_idle p (deliver s)" using inv by simp
  note ref = get_ref_eq [OF inv1 zero_less_usize(1)]
  note drop = drop_add_ref(1) [OF inv1 zero_less_usize(1)]
  show ?thesis
    by (auto simp: drop_slot_def bind_exec_def [of "modify_exec _"] bind_exec_def [of "on_registry _"]
        modify_exec_def ref drop is_poll_allowed_def gets_exec_def bind_exec_def [of "gets_exec _"]
        return_exec_def Let_def split: option.split stop_reason.split)
qed

lemma polled_future:
  assumes inv: "alg_idle p s" and t: "task_at s k = Some t" and fr: "frame (started p k t s) s'"
    and inv': "alg_inv p (Suc 0) (Some k) (Some k) s'"
  obtains t' where "task_at (ended p k s') k = Some t'" "df_future t' = df_future t"
proof -
  have "task_at (started p k t s) k = Some (set_polling True t)" by (simp add: started_view [OF inv t])
  then obtain r where "task_at s' k = Some (set_stop_reason r (set_polling True t))"
    using fr unfolding frame_def by blast
  then show ?thesis using that ended_inv(2) [OF inv'] by simp
qed

lemma drop_slot_polls:
  assumes inv: "alg_idle p s" and t: "task_at (deliver s) k = Some t" "df_stop_reason t = SrNone" "is_runnable (arcs (deliver s)) t"
  shows "drop_slot p code k any s =
     (case beat_slot p (poll_code code) k any s of
        (Inl e, s') \<Rightarrow> (Inl e, s')
      | (Inr x, s') \<Rightarrow> then_drop p code k s x s')"
proof -
  have inv1: "alg_idle p (deliver s)" using inv by simp
  obtain r s2 where run: "run_prog p (poll_code code (df_future t) (df_flags t) (user s)) (started p k t (deliver s)) = (r, s2)"
    by fastforce
  note bs = beat_slot_poll_eq [OF inv t, of "poll_code code" any]
  have poll: "drop_slot p code k any s = (case r of
      Inl e \<Rightarrow> (Inl e, ended p k s2)
    | Inr None \<Rightarrow> bind_exec (remove_dropping p code True k) (\<lambda>_. return_exec True) (ended p k s2)
    | Inr (Some f) \<Rightarrow> (Inr True, ended p k (modify_task k (\<lambda>t. t\<lparr>df_future := f\<rparr>) s2)))"
    using t run
    by (auto simp: drop_slot_eq [OF inv] Let_def bind_exec_def [of "poll_task _ _ _ _"] poll_task_eq [OF inv1 t(1)] return_exec_def
        split: sum.split option.split)
  show ?thesis
  proof (cases r)
    case (Inl e)
    then show ?thesis using run poll by (simp add: bs)
  next
    case (Inr x)
    have i2: "alg_inv p (Suc 0) (Some k) (Some k) s2" and fr: "frame (started p k t (deliver s)) s2"
      using wpx_InrD [OF run_prog_ok [OF started_inv [OF inv1 t(1)] zero_less_usize(2)] run [unfolded Inr]] by (simp_all add: call_ok_def)
    obtain t2 where t2: "task_at s2 k = Some t2" using ended_inv(3) [OF i2] by blast
    note v = finished_view [OF i2 t2, of x]
    show ?thesis
    proof (cases x)
      case None
      obtain t' where e: "task_at (ended p k s2) k = Some t'" "df_future t' = df_future t"
        using polled_future [OF inv1 t(1) fr i2] by blast
      show ?thesis
        using Inr None run poll v t remove_dropping_eq [OF ended_inv(1) [OF i2] e(1)] drop_future_same [OF e(2), of p code]
        by (simp add: bs then_drop_def finished_def bind_exec_def [of "remove_dropping _ _ _ _"] bind_exec_def [of "drop_future _ _ _ _"])
    next
      case (Some f)
      then show ?thesis using Inr run poll v t by (simp add: bs then_drop_def finished_def)
    qed
  qed
qed

lemma drop_slot_split:
  assumes inv: "alg_idle p s"
  shows "drop_slot p code k any s =
     (case beat_slot p (poll_code code) k any s of
        (Inl e, s') \<Rightarrow> (Inl e, s')
      | (Inr x, s') \<Rightarrow> then_drop p code k s x s')"
proof -
  have inv1: "alg_idle p (deliver s)" using inv by simp
  note eqs = drop_slot_eq [OF inv] beat_slot_eq [OF inv, of "poll_code code" k any] then_drop_def Let_def
  consider (none) "task_at (deliver s) k = None"
    | (cancelled) t where "task_at (deliver s) k = Some t" "df_stop_reason t = SrCancelled"
    | (polls) t where "task_at (deliver s) k = Some t" "df_stop_reason t = SrNone" "is_runnable (arcs (deliver s)) t"
    | (idle) t where "task_at (deliver s) k = Some t"
        "df_stop_reason t = SrSuspended \<or> df_stop_reason t = SrNone \<and> \<not> is_runnable (arcs (deliver s)) t"
    by (metis not_None_eq stop_reason.exhaust)
  then show ?thesis
  proof cases
    case cancelled
    then show ?thesis
      using removed_view(1) [OF inv1, of k] remove_dropping_eq [OF inv1 cancelled(1), of code False]
      by (simp add: eqs bind_exec_def [of "remove_dropping _ _ _ _"] bind_exec_def [of "drop_future _ _ _ _"])
  next
    case polls
    then show ?thesis by (rule drop_slot_polls [OF inv])
  qed (auto simp: eqs)
qed

lemma drop_slot_wpx:
  assumes "alg_idle p s" and base: "wpx (beat_slot p (poll_code code) k any) Q' E s"
    and drop: "\<And>x s' fin t. Q' x s' \<Longrightarrow> wpx (drop_future p code fin t) (\<lambda>_ s''. Q x s'') E s'"
    and stay: "\<And>x s'. Q' x s' \<Longrightarrow> Q x s'"
  shows "wpx (drop_slot p code k any) Q E s"
proof -
  have "wpx (then_drop p code k s x) Q E s'" if q: "Q' x s'" for x s'
  proof -
    have "wpx (bind_exec (drop_future p code fin t) (\<lambda>_. return_exec x)) Q E s'" for fin t using drop [OF q] by simp
    then show ?thesis using stay [OF q] by (auto simp: wpx_def then_drop_def split: option.split)
  qed
  then have td: "wpx (then_drop p code k s x) Q E s'" if "Q' x s'" for x s' using that by blast
  obtain r s1 where b: "beat_slot p (poll_code code) k any s = (r, s1)" by fastforce
  show ?thesis
  proof (cases r)
    case (Inr x)
    then have "Q' x s1" using base b by (simp add: wpx_def)
    then show ?thesis using td b Inr by (simp add: wpx_def drop_slot_split [OF assms(1)])
  qed (use base b in \<open>simp add: wpx_def drop_slot_split [OF assms(1)]\<close>)
qed

subsection \<open>Destructors that make no calls\<close>

definition plain :: "('f, 'u) task_code \<Rightarrow> bool" where
  "plain code \<longleftrightarrow> (\<forall>fin f u. case drop_code code fin f u of PCall _ _ \<Rightarrow> False | _ \<Rightarrow> True)"

lemma plain_drop:
  assumes "plain code"
  shows "wpx (drop_future p code fin t) (\<lambda>_ s'. \<exists>u. s' = s\<lparr>user := u\<rparr>) (\<lambda>e s'. e = UserPanic \<and> (\<exists>u. s' = s\<lparr>user := u\<rparr>)) s"
  using assms [unfolded plain_def, rule_format, of fin "df_future t" "user s"]
  by (cases "drop_code code fin (df_future t) (user s)") (auto simp: drop_future_def)

lemma wake_user: "wake v (s\<lparr>user := u\<rparr>) = (wake v s)\<lparr>user := u\<rparr>"
  by (simp add: wake_def notify_wake_def split: option.split)

lemma wakes_user: "fold wake ws (s\<lparr>user := u\<rparr>) = (fold wake ws s)\<lparr>user := u\<rparr>"
  by (induction ws arbitrary: s) (simp_all add: wake_user)

lemma deliver_user: "deliver (s\<lparr>user := u\<rparr>) = (deliver s)\<lparr>user := u\<rparr>"
proof (cases "external s")
  case (Cons ws rest)
  have eq: "s\<lparr>user := u, external := rest\<rparr> = s\<lparr>external := rest, user := u\<rparr>" by simp
  have "fold wake ws (s\<lparr>user := u, external := rest\<rparr>) = (fold wake ws (s\<lparr>external := rest\<rparr>))\<lparr>user := u\<rparr>"
    by (simp only: eq wakes_user)
  then show ?thesis using Cons by (simp add: deliver_def)
qed (simp add: deliver_def)

lemma quiet_user [simp]:
  "quiet_slot p k (s\<lparr>user := u\<rparr>) = (quiet_slot p k s)\<lparr>user := u\<rparr>"
  by (simp add: quiet_slot_def Let_def deliver_user state_at_def removed_def)

lemma quiet_run_user [simp]:
  "fold (quiet_slot p) ks (s\<lparr>user := u\<rparr>) = (fold (quiet_slot p) ks s)\<lparr>user := u\<rparr>"
  "quiet_run p ks (s\<lparr>user := u\<rparr>) = quiet_run p ks s"
  by (induction ks arbitrary: s) (simp_all add: deliver_user state_at_def)

lemma quiet_run_append: "quiet_run p (ks @ js) s \<longleftrightarrow> quiet_run p ks s \<and> quiet_run p js (fold (quiet_slot p) ks s)"
  by (induction ks arbitrary: s) simp_all

text \<open>The visits of a beat; if the destructors make no calls, one that polls nothing is a run of quiet visits.\<close>

definition drop_visit :: "profile \<Rightarrow> ('f, 'u) task_code \<Rightarrow> nat list \<Rightarrow> ('f, 'u) alg \<Rightarrow> bool \<Rightarrow> bool \<Rightarrow> ('f, 'u) alg \<Rightarrow> bool" where
  "drop_visit p code ks s any x s' \<longleftrightarrow>
     alg_idle p s' \<and> registry_capacity (registry s) \<le> registry_capacity (registry s') \<and> length (woken s) \<le> length (woken s')
     \<and> (\<exists>ps. polled s' = polled s @ ps \<and> subseq ps ks \<and> (x \<longleftrightarrow> any \<or> ps \<noteq> []))
     \<and> (plain code \<longrightarrow> \<not> x \<longrightarrow> quiet_run p ks s \<and> s'\<lparr>user := user s\<rparr> = fold (quiet_slot p) ks s)"

lemma drop_visit_user: "drop_visit p code ks s any x (s'\<lparr>user := u\<rparr>) = drop_visit p code ks s any x s'"
  by (simp add: drop_visit_def)

lemma beat_slot_visit:
  assumes "alg_idle p s"
  shows "wpx (beat_slot p body k any) (drop_visit p code [k] s any) (poll_panic p) s"
proof (rule wpx_mono [OF beat_slot_inv [OF assms]])
  fix x s'
  assume a: "alg_idle p s' \<and> registry_capacity (registry s) \<le> registry_capacity (registry s') \<and> length (woken s) \<le> length (woken s')
      \<and> ((x \<and> polled s' = polled s @ [k]) \<or> (x = any \<and> polled s' = polled s \<and> s' = quiet_slot p k s
            \<and> state_at (deliver s) k \<noteq> Runnable))"
  have "user (quiet_slot p k s) = user s" by (simp add: quiet_slot_def Let_def)
  then have q: "(quiet_slot p k s)\<lparr>user := user s\<rparr> = quiet_slot p k s" by (cases "quiet_slot p k s") simp
  from a consider "x" "polled s' = polled s @ [k]"
    | "x = any" "polled s' = polled s" "s' = quiet_slot p k s" "state_at (deliver s) k \<noteq> Runnable" by blast
  then show "drop_visit p code [k] s any x s'"
  proof cases
    case 1
    then show ?thesis using a by (simp add: drop_visit_def)
  next
    case 2
    have "polled s' = polled s @ [] \<and> subseq [] [k] \<and> (x \<longleftrightarrow> any \<or> [] \<noteq> [])" using 2 by simp
    then have "\<exists>ps. polled s' = polled s @ ps \<and> subseq ps [k] \<and> (x \<longleftrightarrow> any \<or> ps \<noteq> [])" by blast
    moreover have "quiet_run p [k] s \<and> s'\<lparr>user := user s\<rparr> = fold (quiet_slot p) [k] s" using 2(3,4) q by simp
    ultimately show ?thesis using a unfolding drop_visit_def by blast
  qed
qed

lemma drop_slot_ok:
  assumes inv: "alg_idle p s"
  shows "wpx (drop_slot p code k any) (drop_visit p code [k] s any) (poll_panic p) s"
proof (rule drop_slot_wpx [OF inv beat_slot_visit [OF inv]])
  fix x s' fin t
  assume v: "drop_visit p code [k] s any x s'"
  then have idle: "alg_idle p s'" by (simp add: drop_visit_def)
  show "wpx (drop_future p code fin t) (\<lambda>_. drop_visit p code [k] s any x) (poll_panic p) s'"
  proof (cases "plain code")
    case True
    then show ?thesis
      by (rule wpx_mono [OF plain_drop]) (use v idle in \<open>auto simp: drop_visit_user poll_panic_def\<close>)
  next
    case False
    have "registry_capacity (registry s') \<le> registry_capacity (registry s'') \<and> length (woken s') \<le> length (woken s'')" if "kept s' s''" for s''
      using that by (simp add: kept_def)
    then show ?thesis
      by (intro wpx_mono [OF drop_future_ok [OF idle]]) (use v False in \<open>fastforce simp: drop_visit_def\<close>)+
  qed
qed

lemma drop_visitD:
  assumes "drop_visit p code ks s any x s'"
  shows "alg_idle p s'" "registry_capacity (registry s) \<le> registry_capacity (registry s')"
    "length (woken s) \<le> length (woken s')"
    "\<exists>ps. polled s' = polled s @ ps \<and> subseq ps ks \<and> (x \<longleftrightarrow> any \<or> ps \<noteq> [])"
    "plain code \<Longrightarrow> \<not> x \<Longrightarrow> quiet_run p ks s \<and> s'\<lparr>user := user s\<rparr> = fold (quiet_slot p) ks s"
  using assms unfolding drop_visit_def by blast+

lemma drop_visit_trans:
  assumes "drop_visit p code ks s any x s1" and "drop_visit p code js s1 x y s'"
  shows "drop_visit p code (ks @ js) s any y s'"
proof -
  note v = drop_visitD [OF assms(1)] and v' = drop_visitD [OF assms(2)]
  obtain ps where ps: "polled s1 = polled s @ ps" "subseq ps ks" "x \<longleftrightarrow> any \<or> ps \<noteq> []" using v(4) by blast
  obtain qs where qs: "polled s' = polled s1 @ qs" "subseq qs js" "y \<longleftrightarrow> x \<or> qs \<noteq> []" using v'(4) by blast
  have "polled s' = polled s @ (ps @ qs) \<and> subseq (ps @ qs) (ks @ js) \<and> (y \<longleftrightarrow> any \<or> ps @ qs \<noteq> [])"
    using ps qs by (auto intro: list_emb_append_mono)
  then have "\<exists>ps. polled s' = polled s @ ps \<and> subseq ps (ks @ js) \<and> (y \<longleftrightarrow> any \<or> ps \<noteq> [])" by blast
  moreover have "quiet_run p (ks @ js) s \<and> s'\<lparr>user := user s\<rparr> = fold (quiet_slot p) (ks @ js) s"
    if "plain code" "\<not> y"
  proof -
    have 1: "quiet_run p ks s" "s1\<lparr>user := user s\<rparr> = fold (quiet_slot p) ks s"
      using v(5) [OF that(1)] that(2) qs(3) by blast+
    have 2: "quiet_run p js s1" "s'\<lparr>user := user s1\<rparr> = fold (quiet_slot p) js s1"
      using v'(5) [OF that] by blast+
    have "quiet_run p js (fold (quiet_slot p) ks s)" using 2(1) unfolding 1(2) [symmetric] by simp
    moreover have "fold (quiet_slot p) js (fold (quiet_slot p) ks s) = s'\<lparr>user := user s\<rparr>"
      unfolding 1(2) [symmetric] quiet_run_user 2(2) [symmetric] by simp
    ultimately show ?thesis using 1(1) by (simp add: quiet_run_append)
  qed
  ultimately show ?thesis
    using v'(1) order_trans [OF v(2) v'(2)] order_trans [OF v(3) v'(3)] unfolding drop_visit_def by blast
qed

lemma drop_loop_ok:
  "alg_idle p s \<Longrightarrow> wpx (drop_loop p code ks any) (drop_visit p code ks s any) (poll_panic p) s"
proof (induction ks arbitrary: any s)
  case Nil
  then show ?case by (simp add: drop_visit_def)
next
  case (Cons k ks)
  show ?case
    unfolding drop_loop.simps wpx_bind
  proof (rule wpx_mono [OF drop_slot_ok [OF Cons.prems]])
    fix x s1
    assume v: "drop_visit p code [k] s any x s1"
    have idle: "alg_idle p s1" using v by (simp add: drop_visit_def)
    show "wpx (drop_loop p code ks x) (drop_visit p code (k # ks) s any) (poll_panic p) s1"
    proof (rule wpx_mono [OF Cons.IH [OF idle]])
      fix y s2
      assume "drop_visit p code ks s1 x y s2"
      then have "drop_visit p code ([k] @ ks) s any y s2" by (rule drop_visit_trans [OF v])
      then show "drop_visit p code (k # ks) s any y s2" by (simp only: append_Cons append_Nil)
    qed simp
  qed simp
qed

lemma drop_beat_ok:
  "alg_idle p s \<Longrightarrow> wpx (drop_beat p code) (drop_visit p code [0..<registry_capacity (registry s)] s False) (poll_panic p) s"
  using drop_loop_ok by (simp add: drop_beat_def)

lemma drop_beat_post:
  assumes "plain code" and "alg_idle p s"
  shows "wpx (drop_beat p code) (beat_post p s) (poll_panic p) s"
proof (rule wpx_mono [OF drop_beat_ok [OF assms(2), of code]])
  fix x s'
  assume "drop_visit p code [0..<registry_capacity (registry s)] s False x s'"
  note v = drop_visitD [OF this]
  show "beat_post p s x s'"
    unfolding beat_post_def Let_def using v(1-4) v(5) [OF assms(1)] by simp
qed

lemma drop_poll_plain:
  assumes "plain code" and "alg_idle p s" and "drop_poll p code w n s = Some res"
  shows "poll_post p w s res"
proof -
  have it: "wpx (drop_iter p code w) (iter_post p w s) (poll_panic p) s" if "alg_idle p s" for s
    unfolding drop_iter_def by (intro iteration_ok drop_beat_post that assms(1))
  have "poll_post p w (snd (waker_clear s)) res"
    using until_some_ok [OF it clear_idle [OF assms(2)]] assms(3) by (simp add: drop_poll_def)
  then show ?thesis by (simp add: poll_post_def waker_clear_def split: prod.splits sum.splits)
qed

subsection \<open>Arbitrary destructors\<close>

definition drop_result :: "bool poll \<Rightarrow> ('f, 'u) alg \<Rightarrow> bool" where
  "drop_result r s \<longleftrightarrow>
     (case r of
        Ready fin \<Rightarrow> last_waker s = None \<and> (fin \<longleftrightarrow> task_at s = Map.empty)
          \<and> (\<not> fin \<longrightarrow> registered_count s = suspended_count s)
      | Pending \<Rightarrow> task_at s \<noteq> Map.empty \<and> registered_count s \<noteq> suspended_count s)"

definition drop_iter_post :: "profile \<Rightarrow> ('f, 'u) alg \<Rightarrow> bool poll option \<Rightarrow> ('f, 'u) alg \<Rightarrow> bool" where
  "drop_iter_post p s x s' \<longleftrightarrow>
     alg_idle p s' \<and> length (polled s) \<le> length (polled s') \<and> (x = None \<longrightarrow> length (polled s) < length (polled s'))
     \<and> (\<forall>r. x = Some r \<longrightarrow> drop_result r s')"

lemma drop_beat_polled:
  assumes "alg_idle p s"
  shows "wpx (drop_beat p code)
     (\<lambda>x s'. alg_idle p s' \<and> length (polled s) \<le> length (polled s') \<and> (x \<longrightarrow> length (polled s) < length (polled s')))
     (poll_panic p) s"
proof (rule wpx_mono [OF drop_beat_ok [OF assms, of code]])
  fix x s'
  assume "drop_visit p code [0..<registry_capacity (registry s)] s False x s'"
  note v = drop_visitD(1,4) [OF this]
  show "alg_idle p s' \<and> length (polled s) \<le> length (polled s') \<and> (x \<longrightarrow> length (polled s) < length (polled s'))"
    using v by auto
qed

text \<open>The end of an iteration.\<close>

lemma drop_decision:
  assumes inv: "alg_idle p s" and "\<not> any \<longrightarrow> m \<le> length (polled s)" and "any \<longrightarrow> m < length (polled s)"
    and m: "m = length (polled s0)"
  shows "wpx (bind_exec (modify_exec deliver) (\<lambda>_.
       if \<not> any then
         bind_exec (gets_exec (\<lambda>s. (registered_count s, suspended_count s))) (\<lambda>(cnt, sus).
         if cnt = 0 \<or> cnt = sus then
           bind_exec (modify_exec (\<lambda>s. snd (waker_clear s))) (\<lambda>_. return_exec (Some (Ready (cnt = 0))))
         else return_exec (Some Pending))
       else
         bind_exec (modify_exec (\<lambda>s. snd (waker_clear s))) (\<lambda>_. return_exec None)))
     (drop_iter_post p s0) (poll_panic p) s"
proof -
  have inv': "alg_idle p (deliver s)" "alg_idle p (snd (waker_clear (deliver s)))" using inv by (simp_all add: waker_clear_def)
  have t: "task_at (snd (waker_clear (deliver s))) = task_at (deliver s)" by (simp add: waker_clear_def)
  have r: "registered_count (snd (waker_clear (deliver s))) = registered_count (deliver s)" "last_waker (snd (waker_clear (deliver s))) = None"
    "suspended_count (snd (waker_clear (deliver s))) = suspended_count (deliver s)"
    "polled (snd (waker_clear (deliver s))) = polled s" "polled (deliver s) = polled s"
    by (simp_all add: waker_clear_def registered_count_def)
  note cnt = count_zero [OF inv'(1)]
  show ?thesis
  proof (cases any)
    case True
    then show ?thesis using assms inv' r by (simp add: drop_iter_post_def)
  next
    case False
    then show ?thesis
      using assms inv' by (simp add: drop_iter_post_def drop_result_def r t cnt)
  qed
qed

lemma drop_iter_ok:
  assumes inv: "alg_idle p s"
  shows "wpx (drop_iter p code w) (drop_iter_post p s) (poll_panic p) s"
  unfolding drop_iter_def
proof (subst wpx_bind, rule wpx_mono [OF drop_beat_polled [OF inv]], goal_cases)
  case a: (1 any s1)
  let ?s1 = "snd (waker_register w (deliver s1))"
  have i1: "alg_idle p ?s1" "polled ?s1 = polled s1" using a by (simp_all add: waker_register_def)
  show ?case
  proof (cases any)
    case True
    then show ?thesis using a by (simp add: drop_iter_post_def)
  next
    case False
    show ?thesis
      unfolding if_not_P [OF False] wpx_bind [of "modify_exec _" "\<lambda>_. bind_exec (drop_beat p code) _"] wpx_modify wpx_bind [of "drop_beat p code"]
      by (rule wpx_mono [OF drop_beat_polled [OF i1(1)] drop_decision]) (use a i1(2) in auto)
  qed
qed simp

lemma drop_until_ok:
  assumes "alg_idle p s" and "until_some (drop_iter p code w) n s = Some res"
  shows "case res of (Inl e, s') \<Rightarrow> poll_panic p e s' | (Inr r, s') \<Rightarrow> alg_idle p s' \<and> drop_result r s'"
  using assms
proof (induction n arbitrary: s)
  case (Suc n)
  obtain x s1 where i: "drop_iter p code w s = (x, s1)" by fastforce
  note post = drop_iter_ok [OF Suc.prems(1), of code w, unfolded wpx_def i]
  show ?case
  proof (cases "x = Inr None")
    case True
    then show ?thesis using Suc.IH [of s1] Suc.prems(2) post i by (simp add: drop_iter_post_def)
  next
    case False
    then show ?thesis
      using post i Suc.prems(2) by (auto simp: drop_iter_post_def split: sum.splits option.splits)
  qed
qed simp

text \<open>Relations kept by the task's code and by the destructors are kept by a poll with destructors.\<close>

locale drop_relation = poll_relation p "poll_code code" R F
  for p :: profile
    and code :: "('f, 'u) task_code"
    and R :: "('f, 'u) alg \<Rightarrow> ('f, 'u) alg \<Rightarrow> bool"
    and F :: "('f, 'u) alg \<Rightarrow> panic \<Rightarrow> bool" +
  assumes R_drop: "alg_idle p s \<Longrightarrow> wpx (drop_future p code fin t) (\<lambda>_ s'. R s s') (\<lambda>e _. F s e) s"
begin

lemma drop_slot_rel:
  assumes inv: "alg_idle p s"
  shows "wpx (drop_slot p code k any) (\<lambda>_ s'. R s s') (\<lambda>e _. F s e) s"
proof (rule drop_slot_wpx [OF inv])
  show "wpx (beat_slot p (poll_code code) k any) (\<lambda>_ s'. R s s' \<and> alg_idle p s') (\<lambda>e _. F s e) s"
    by (rule wpx_mono [OF wpx_conj [OF slot_rel [OF inv] beat_slot_inv [OF inv]]]) auto
  fix s' fin t
  assume r: "R s s' \<and> alg_idle p s'"
  then have idle: "alg_idle p s'" by blast
  show "wpx (drop_future p code fin t) (\<lambda>_ s''. R s s'') (\<lambda>e _. F s e) s'"
    by (rule wpx_mono [OF R_drop [OF idle]]) (use r R_trans F_mono in blast)+
qed simp

lemma drop_loop_rel:
  "alg_idle p s \<Longrightarrow> wpx (drop_loop p code ks any) (\<lambda>_ s'. R s s' \<and> alg_idle p s') (\<lambda>e _. F s e) s"
proof (induction ks arbitrary: any s)
  case (Cons k ks)
  show ?case
    unfolding drop_loop.simps wpx_bind
  proof (rule wpx_mono [OF wpx_conj [OF drop_slot_rel [OF Cons.prems] drop_slot_ok [OF Cons.prems]]])
    fix x s1
    assume "R s s1 \<and> drop_visit p code [k] s any x s1"
    then have r: "R s s1" and idle: "alg_idle p s1" by (blast dest: drop_visitD(1))+
    show "wpx (drop_loop p code ks x) (\<lambda>_ s'. R s s' \<and> alg_idle p s') (\<lambda>e _. F s e) s1"
      by (rule wpx_mono [OF Cons.IH [OF idle]]) (use r R_trans F_mono in blast)+
  qed simp
qed (simp add: R_refl)

lemma drop_iter_rel:
  "alg_idle p s \<Longrightarrow> wpx (drop_iter p code w) (\<lambda>_ s'. R s s' \<and> alg_idle p s') (\<lambda>e _. F s e) s"
  unfolding drop_iter_def by (intro iteration_rel) (simp_all add: drop_beat_def drop_loop_rel)

lemma drop_until_rel:
  "alg_idle p s \<Longrightarrow> until_some (drop_iter p code w) n s = Some res \<Longrightarrow>
     case res of (Inl e, _) \<Rightarrow> F s e | (Inr _, s') \<Rightarrow> R s s'"
  by (rule until_rel [OF drop_iter_rel])

end

text \<open>The suspended count stays exact whatever the destructors do.\<close>

interpretation drop_count: drop_relation p code "exact_rel (poll_code code)" "exact_panic (poll_code code)"
  for p code
proof unfold_locales
  fix s :: "('a, 'b) alg" and fin t
  assume inv: "alg_idle p s"
  show "wpx (drop_future p code fin t) (\<lambda>_ s'. exact_rel (poll_code code) s s') (\<lambda>e _. exact_panic (poll_code code) s e) s"
  proof (cases "exact s")
    case True
    show ?thesis
      unfolding drop_future_def
      by (auto intro!: wpx_mono [OF run_prog_exact [OF inv zero_less_usize(1) True]] simp: exact_rel_def exact_panic_def)
  qed (simp add: exact_rel_def exact_panic_def wpx_def split: prod.split sum.split)
qed

text \<open>Destructors that spawn no task keep the weight of the futures.\<close>

primrec spawns :: "('f, 'u) prog \<Rightarrow> bool" where
  "spawns (PReady u) = False"
| "spawns (PPending f u) = False"
| "spawns (PPanic u) = False"
| "spawns (PCall c k) = ((\<exists>sp f. c = CallSpawn sp f) \<or> (\<exists>r. spawns (k r)))"

definition spawnless :: "('f, 'u) task_code \<Rightarrow> bool" where
  "spawnless code \<longleftrightarrow> (\<forall>fin f u. \<not> spawns (drop_code code fin f u))"

lemma run_prog_spawnless:
  assumes "alg_inv p b c q s" and b: "b < usize_MAX" and "\<not> spawns pr"
  shows "wpx (run_prog p pr) (\<lambda>_ s'. futures s' = futures s) (\<lambda>_ _. True) s"
  using assms(1,3)
proof (induction pr arbitrary: s)
  case (PCall call cont)
  have "wpx (exec_call p call) (\<lambda>x s1. call_ok p b c q s x s1 \<and>
      (case call of CallSpawn sp f \<Rightarrow> \<exists>j. futures s j = None \<and> futures s1 = (futures s)(j \<mapsto> f)
        | _ \<Rightarrow> futures s1 = futures s)) (\<lambda>e s1. call_panic p b c q s e s1 \<and> True) s"
    by (rule wpx_conj [OF exec_call_ok exec_call_futures]) (use PCall.prems b in auto)
  then show ?case
    unfolding run_prog.simps wpx_bind
  proof (rule wpx_mono, goal_cases)
    case (1 r s1)
    then have "futures s1 = futures s" using PCall.prems(2) by (auto split: hcall.splits)
    then have "wpx (run_prog p (cont r)) (\<lambda>_ s'. futures s' = futures s1) (\<lambda>_ _. True) s1"
      using PCall.prems(2) 1 by (intro PCall.IH) (auto simp: call_ok_def)
    then show ?case using \<open>futures s1 = futures s\<close> by simp
  qed simp
qed (simp_all add: futures_def fun_eq_iff)

definition drop_weight_rel :: "('f \<Rightarrow> nat) \<Rightarrow> ('f, 'u) task_code \<Rightarrow> ('f, 'u) alg \<Rightarrow> ('f, 'u) alg \<Rightarrow> bool" where
  "drop_weight_rel w code s s' \<longleftrightarrow> (spawnless code \<longrightarrow> weight_rel w (poll_code code) s s')"

interpretation drop_weights: drop_relation p code "drop_weight_rel w code" "\<lambda>_ _. True"
  for p code w
proof unfold_locales
  fix s :: "('a, 'b) alg" and k t
  assume "alg_idle p s" and "task_at s k = Some t" "df_stop_reason t = SrNone"
  note weights.R_run [OF this, of "poll_code code" w]
  then show "wpx (run_prog p (poll_code code (df_future t) (df_flags t) (user s)))
      (\<lambda>x s'. drop_weight_rel w code s (finished p k x s')) (\<lambda>_ _. True) (started p k t s)"
    by (rule wpx_mono) (simp_all add: drop_weight_rel_def)
next
  fix s :: "('a, 'b) alg" and fin t
  assume inv: "alg_idle p s"
  show "wpx (drop_future p code fin t) (\<lambda>_ s'. drop_weight_rel w code s s') (\<lambda>_ _. True) s"
  proof (cases "spawnless code")
    case True
    then have ns: "\<not> spawns (drop_code code fin (df_future t) (user s))" by (simp add: spawnless_def)
    note run = wpx_conj [OF run_prog_spawnless [OF inv zero_less_usize(1) ns] run_prog_polled [OF inv zero_less_usize(1)]]
    show ?thesis
      unfolding drop_future_def
      by (auto intro!: wpx_mono [OF run] simp: drop_weight_rel_def weight_rel_def weight_def)
  qed (simp add: drop_weight_rel_def wpx_def split: prod.split sum.split)
next
  fix s s' :: "('a, 'b) alg"
  show "drop_weight_rel w code s s'"
    if "registry s' = registry s" "suspended_count s' = suspended_count s" "polled s' = polled s" "raised s s'"
    using weights.R_outer [OF that, of w "poll_code code"] by (simp add: drop_weight_rel_def)
next
  fix s :: "('a, 'b) alg" and k
  show "drop_weight_rel w code s (removed p k s)" if "alg_idle p s" "state_at s k = Cancelled"
    using weights.R_cancelled [OF that, of w "poll_code code"] by (simp add: drop_weight_rel_def)
qed (auto simp: drop_weight_rel_def intro: weights.R_trans)

lemma drop_poll_ends:
  assumes inv: "alg_idle p s" and w: "bounded_by w (poll_code code)" "spawnless code"
  shows "\<exists>res. drop_poll p code v (Suc (weight w s)) s = Some res"
  unfolding drop_poll_def
proof (rule until_some_ends [where I = "alg_idle p" and m = "weight w", OF _ clear_idle [OF inv]])
  fix s :: "('a, 'b) alg"
  assume inv: "alg_idle p s"
  show "wpx (drop_iter p code v) (\<lambda>x s'. alg_idle p s' \<and> (x = None \<longrightarrow> weight w s' < weight w s)) (\<lambda>_ _. True) s"
  proof (rule wpx_mono [OF wpx_conj [OF drop_weights.drop_iter_rel [OF inv, of code v w] drop_iter_ok [OF inv, of code v]]], goal_cases)
    case (1 x s')
    then have "weight w s' + length (polled s') \<le> weight w s + length (polled s)"
      using w by (simp add: drop_weight_rel_def weight_rel_def)
    then show ?case using 1 by (auto simp: drop_iter_post_def)
  qed simp
qed (simp add: weight_def waker_clear_def)

end
