(* ===== verification/Drop_Correct.thy ===== *)
theory Drop_Correct
  imports Task_Drop
begin

text \<open>
  The properties of the scheduler of \<open>src/dy/unordered_algorithm.rs\<close> when the futures have destructors (\<open>Task_Drop\<close>):
  which of those of \<open>Scheduler_Correct\<close> remain, for which destructors, and one that does not.
\<close>

subsection \<open>What a poll does\<close>

text \<open>
  With destructors that do nothing the scheduler is the one of the other theories, step for step: what is shown of
  \<open>poll_internal\<close> holds for it.
\<close>

lemma drop_poll_silent:
  assumes "silent code"
  shows "drop_poll p code w n s = poll_internal p (poll_code code) w n s"
  by (simp add: drop_poll_def poll_internal_def poll_loop_until silent_iter [OF assms])

lemma drop_poll_silent_example:
  "\<exists>s'. drop_poll Debug \<lparr>poll_code = await_body yield_times_poll, drop_code = \<lambda>_ _ u. PReady u\<rparr> 7 4 two_yields
     = Some (Inr (Ready True), s')"
  using drop_poll_silent [of "\<lparr>poll_code = await_body yield_times_poll, drop_code = \<lambda>_ _ u. PReady u\<rparr>" Debug 7 4 two_yields]
    two_yields_poll by (simp add: silent_def)

text \<open>A parent task (1) and its child (0): dropping the parent cancels the child, dropping the child spawns a cleanup (2).\<close>

definition chain_code :: "bool \<Rightarrow> (nat, unit) task_code" where
  "chain_code ready =
     \<lparr>poll_code = \<lambda>f w u. if ready \<and> f = 1 then PReady u else PPending f u,
      drop_code = \<lambda>fin f u.
        if f = 1 then PCall (CallCancel 0) (\<lambda>_. PReady u)
        else if f = 0 then PCall (CallSpawn params_default 2) (\<lambda>_. PReady u)
        else PReady u\<rparr>"

definition chain_start :: "(nat, unit) alg" where
  "chain_start = snd (spawn_task Debug params_default 1 (snd (spawn_task Debug params_default 0 (alg_new () []))))"

lemma chain_start_idle: "alg_idle Debug chain_start"
  unfolding chain_start_def
  by (rule spawn_idle [where x = "Some 1"], rule spawn_idle [where x = "Some 0"], rule alg_new_idle)
     (simp_all add: run cong: run_cong)

lemma chain_start_poll:
  "\<exists>s'. drop_poll Debug (chain_code True) 7 4 chain_start = Some (Inr Pending, s')"
  by (simp add: run chain_start_def chain_code_def cong: run_cong)

text \<open>
  C12. Whatever the destructors do - call the handle, spawn, cancel, panic - a poll leaves the scheduler consistent and
  its result means what it says of the tasks and the counts; it unwinds only with a panic of the task's code or of a
  destructor, with the overflow of the suspended count in a debug build, or when the registry cannot grow. And from an
  exact count, with tasks that do not finish in a poll in which they suspend, \<open>Ready(false)\<close> still means that every
  task is suspended.
\<close>

theorem drop_poll_outcome:
  assumes "alg_idle p s" and "drop_poll p code w n s = Some (res, s')"
  shows "case res of
      Inl e \<Rightarrow> e = Panic ''capacity overflow'' \<or> ((e = UserPanic \<or> (e = ArithOverflow \<and> p = Debug)) \<and> alg_idle p s')
    | Inr (Ready True) \<Rightarrow> alg_idle p s' \<and> task_at s' = Map.empty \<and> last_waker s' = None
    | Inr (Ready False) \<Rightarrow> alg_idle p s' \<and> task_at s' \<noteq> Map.empty \<and> registered_count s' = suspended_count s' \<and> last_waker s' = None
        \<and> (exact s \<and> tame (poll_code code) \<longrightarrow> (\<forall>k. state_at s' k \<in> {Suspended, Inactive}))
    | Inr Pending \<Rightarrow> alg_idle p s' \<and> task_at s' \<noteq> Map.empty \<and> registered_count s' \<noteq> suspended_count s'"
proof -
  let ?s = "snd (waker_clear s)"
  note idle = clear_idle [OF assms(1)]
  have u: "until_some (drop_iter p code w) n ?s = Some (res, s')" using assms(2) by (simp add: drop_poll_def)
  have ends: "case res of Inl e \<Rightarrow> poll_panic p e s' | Inr r \<Rightarrow> alg_idle p s' \<and> drop_result r s'"
    using drop_until_ok [OF idle u] by (simp split: sum.splits)
  have "exact ?s = exact s" by (rule exact_cong) (simp_all add: waker_clear_def)
  then have ex: "exact s'" if "res = Inr r" "exact s" "tame (poll_code code)" for r
    using drop_count.drop_until_rel [OF idle u] that by (simp add: exact_rel_def)
  have susp: "\<forall>k. state_at s' k \<in> {Suspended, Inactive}"
    if "res = Inr (Ready False)" "exact s" "tame (poll_code code)"
  proof
    have "alg_idle p s'" "registered_count s' = suspended_count s'" using ends that(1) by (simp_all add: drop_result_def)
    then show "state_at s' k \<in> {Suspended, Inactive}" for k using all_suspended ex [OF that] by blast
  qed
  show ?thesis
  proof (cases res)
    case (Inl e)
    then show ?thesis using ends by (auto simp: poll_panic_def out_of_memory_def)
  next
    case (Inr r)
    show ?thesis
    proof (cases r)
      case (Ready b)
      then show ?thesis using ends susp Inr by (cases b) (simp_all add: drop_result_def)
    qed (use ends Inr in \<open>simp add: drop_result_def\<close>)
  qed
qed

theorem drop_poll_outcome_witness:
  "\<exists>s'. drop_poll Debug (chain_code True) 7 4 chain_start = Some (Inr Pending, s')
     \<and> alg_idle Debug s' \<and> task_at s' \<noteq> Map.empty \<and> registered_count s' \<noteq> suspended_count s'"
proof -
  obtain s' where s': "drop_poll Debug (chain_code True) 7 4 chain_start = Some (Inr Pending, s')"
    using chain_start_poll by blast
  show ?thesis using drop_poll_outcome [OF chain_start_idle s'] s' by simp
qed

text \<open>
  C13. With destructors that make no calls no wake-up is lost and no cancelled task is left: if a poll returns
  \<open>Pending\<close>, then the outer waker is registered and no task is runnable, or it has been woken since.
\<close>

theorem plain_drop_armed:
  assumes "plain code" and "alg_idle p s" and "drop_poll p code w n s = Some (Inr r, s')"
  shows "(\<forall>k. state_at s' k \<noteq> Cancelled)
    \<and> (r = Pending \<longrightarrow> (last_waker s' = Some w \<and> (\<forall>k. state_at s' k \<noteq> Runnable))
         \<or> w \<in> set (drop (length (woken s)) (woken s')))"
proof -
  have out: "outcome w (length (woken s)) r s'" using drop_poll_plain [OF assms] by (simp add: poll_post_def)
  have "(last_waker s' = Some w \<and> (\<forall>k. state_at s' k \<noteq> Runnable)) \<or> w \<in> set (drop (length (woken s)) (woken s'))"
    if pend: "r = Pending"
  proof -
    obtain m where m: "length (woken s) \<le> m" "armed w m UNIV s'" using out pend by (auto simp: outcome_def)
    have "w \<in> set (drop (length (woken s)) (woken s'))" if "m < length (woken s')" "woken s' ! m = w"
      using that m(1) by (auto simp: in_set_conv_nth intro!: exI [of _ "m - length (woken s)"])
    then show ?thesis using m(2) by (auto simp: armed_def)
  qed
  then show ?thesis using out by (simp add: outcome_def)
qed

text \<open>Waiting tasks, and destructors that count.\<close>

definition counting_code :: "(unit, nat) task_code" where
  "counting_code = \<lparr>poll_code = \<lambda>f w u. PPending f u, drop_code = \<lambda>fin f u. PReady (Suc u)\<rparr>"

definition counting_start :: "(unit, nat) alg" where
  "counting_start = snd (spawn_task Debug params_default () (snd (spawn_task Debug params_default () (alg_new 0 []))))"

lemma counting_start_idle: "alg_idle Debug counting_start"
  unfolding counting_start_def
  by (rule spawn_idle [where x = "Some 1"], rule spawn_idle [where x = "Some 0"], rule alg_new_idle)
     (simp_all add: run cong: run_cong)

lemma counting_cancel_idle: "alg_idle Debug (snd (cancel Debug 1 counting_start))"
proof -
  obtain s' where s': "cancel Debug 1 counting_start = (Inr True, s')"
    by (simp add: run counting_start_def cong: run_cong)
  then show ?thesis using wpx_InrD [OF cancel_ok [OF counting_start_idle zero_less_usize(1)] s'] by (simp add: call_ok_def)
qed

theorem plain_drop_armed_witness:
  "\<exists>s'. drop_poll Debug counting_code 7 3 (snd (cancel Debug 1 counting_start)) = Some (Inr Pending, s') \<and> user s' = 1
     \<and> (\<forall>k. state_at s' k \<noteq> Cancelled)"
proof -
  have pl: "plain counting_code" by (simp add: plain_def counting_code_def)
  obtain s' where s': "drop_poll Debug counting_code 7 3 (snd (cancel Debug 1 counting_start)) = Some (Inr Pending, s')" "user s' = 1"
    by (simp add: run counting_start_def counting_code_def cong: run_cong)
  show ?thesis using plain_drop_armed [OF pl counting_cancel_idle s'(1)] s' by blast
qed

text \<open>
  C40. A poll with destructors returns: if every poll of a task spends weight and the destructors spawn nothing - they
  may suspend, resume, cancel and wake -, within one more iteration than the stored futures weigh.
\<close>

theorem drop_poll_terminates:
  assumes "alg_idle p s" and "bounded_by weigh (poll_code code)" and "spawnless code"
  shows "\<exists>res. drop_poll p code w (Suc (weight weigh s)) s = Some res"
  by (rule drop_poll_ends [OF assms])

theorem drop_poll_terminates_witness:
  "\<exists>res. drop_poll Debug \<lparr>poll_code = await_body yield_times_poll, drop_code = \<lambda>_ _ u. PCall (CallCancel 0) (\<lambda>_. PReady u)\<rparr> 7
     (Suc (weight (\<lambda>y. Suc (remaining y)) two_yields)) two_yields = Some res"
  by (rule drop_poll_terminates [OF two_yields_idle]) (simp_all add: yield_times_bounded spawnless_def)

text \<open>The parent is cancelled from outside when both wait.\<close>

definition chain_state :: "(nat, unit) alg" where
  "chain_state = snd (cancel Debug 1 (snd (the (drop_poll Debug (chain_code False) 7 3 chain_start))))"

text \<open>
  An example of a spawn that is missed: the parent is dropped in
  the first of the two beats and cancels the child, whose slot the beat has passed; the child is dropped in the second,
  and the cleanup its destructor spawns takes the freed slot. No task was polled, so the poll returns \<open>Pending\<close>; nobody
  is woken, and the cleanup waits for an event that has nothing to do with it.
\<close>

lemma drop_chain_run:
  "case drop_poll Debug (chain_code False) 7 3 chain_state of
     Some (Inr Pending, s') \<Rightarrow>
       futures s' = [0 \<mapsto> 2] \<and> state_at s' 0 = Runnable \<and> last_waker s' = Some 7 \<and> woken s' = []
   | _ \<Rightarrow> False"
  by (simp add: run chain_state_def chain_start_def chain_code_def state_at_def futures_def reg_view_def slab_view_def slab_flat_def nth_Cons'
      fun_eq_iff cong: run_cong)

subsection \<open>A resumed task that is missed\<close>

lemma drop_loop_append:
  "drop_loop p code (ks @ js) any = bind_exec (drop_loop p code ks any) (\<lambda>x. drop_loop p code js x)"
  by (induction ks arbitrary: any) (simp_all add: fun_eq_iff bind_exec_def return_exec_def split: prod.split sum.split)

lemma drop_loop_idle:
  assumes inv: "alg_idle p s" and ext: "external s = []" and idle: "\<forall>k \<in> set ks. state_at s k \<notin> {Runnable, Cancelled}"
  shows "drop_loop p code ks any s = (Inr any, s)"
  using idle
proof (induction ks)
  case (Cons k ks)
  have d: "deliver s = s" using ext by (simp add: deliver_def)
  have k: "state_at s k \<noteq> Runnable" "state_at s k \<noteq> Cancelled" using Cons.prems by auto
  have "drop_slot p code k any s = (Inr any, s)"
    using k by (auto simp: drop_slot_eq [OF inv] d Let_def state_at_Runnable state_at_Cancelled split: option.split stop_reason.split)
  then show ?case using Cons by (simp add: bind_exec_def)
qed (simp add: return_exec_def)

lemma drop_slot_cancelled:
  assumes inv: "alg_idle p s" and ext: "external s = []" and t: "task_at s k = Some t" "df_stop_reason t = SrCancelled"
    and run: "run_prog p (drop_code code False (df_future t) (user s)) (removed p k s) = (Inr x, s')"
  shows "drop_slot p code k any s = (Inr any, s')" "alg_idle p s'" "exact s \<Longrightarrow> exact s'"
proof -
  have d: "deliver s = s" using ext by (simp add: deliver_def)
  have u: "user (removed p k s) = user s" by (simp add: removed_def)
  show "drop_slot p code k any s = (Inr any, s')"
    using t run by (simp add: drop_slot_eq [OF inv] d Let_def bind_exec_def [of "remove_dropping _ _ _ _"] remove_dropping_eq [OF inv t(1)]
      drop_future_def bind_exec_def gets_exec_def return_exec_def u)
  note i = removed_inv [OF inv, of k]
  show "alg_idle p s'" using wpx_InrD [OF run_prog_ok [OF i zero_less_usize(1)] run] by (simp add: call_ok_def)
  show "exact s'" if "exact s"
  proof -
    have "k \<notin> suspended_keys s" using t by (simp add: suspended_keys_def)
    then have "suspended_keys (removed p k s) = suspended_keys s" by (simp add: suspended_keys_removed [OF inv])
    then have "exact (removed p k s)" using that by (simp add: exact_def removed_def)
    from wpx_InrD [OF run_prog_exact [OF i zero_less_usize(1) this] run] show ?thesis .
  qed
qed

lemma drop_beat_one:
  assumes inv: "alg_idle p s" and ext: "external s = []" and t: "task_at s k = Some t" "df_stop_reason t = SrCancelled"
    and run: "run_prog p (drop_code code False (df_future t) (user s)) (removed p k s) = (Inr x, s')"
    and idle: "\<forall>j. j \<noteq> k \<longrightarrow> state_at s j \<notin> {Runnable, Cancelled}"
    and rest: "external s' = []" "\<forall>j > k. state_at s' j \<notin> {Runnable, Cancelled}"
  shows "drop_beat p code s = (Inr False, s')"
proof -
  let ?c = "registry_capacity (registry s)"
  have k: "k < ?c" by (rule task_at_capacity [OF inv t(1)])
  have "[0..<?c] = [0..<k] @ k # [Suc k..<?c]" using k upt_add_eq_append [of 0 k "?c - k"] by (simp add: upt_conv_Cons)
  moreover note slot = drop_slot_cancelled [OF inv ext t run]
  have "drop_loop p code [0..<k] False s = (Inr False, s)" using idle by (intro drop_loop_idle [OF inv ext]) auto
  moreover have "drop_loop p code [Suc k..<?c] False s' = (Inr False, s')"
    using rest(2) by (intro drop_loop_idle [OF slot(2) rest(1)]) auto
  ultimately show ?thesis
    using slot(1) by (simp add: drop_beat_def bind_exec_def gets_exec_def drop_loop_append)
qed

text \<open>
  The two beats of the run below: a destructor that cancels a task the beat has passed, and one that resumes a suspended
  task the beat has passed.
\<close>

lemma drop_beat_cancels:
  assumes inv: "alg_idle p s" and ex: "exact s" and ext: "external s = []" and order: "child < parent"
    and tc: "task_at s child = Some tc" "df_stop_reason tc = SrNone"
    and tp: "task_at s parent = Some tp" "df_stop_reason tp = SrCancelled"
    and idle: "\<forall>k. k \<noteq> parent \<longrightarrow> state_at s k \<notin> {Runnable, Cancelled}"
    and drop: "\<forall>u. drop_code code False (df_future tp) u = PCall (CallCancel child) (\<lambda>_. PReady (f u))"
  shows "\<exists>s'. drop_beat p code s = (Inr False, s') \<and> alg_idle p s' \<and> exact s' \<and> external s' = []
    \<and> task_at s' = (task_at s)(parent := None, child \<mapsto> set_stop_reason SrCancelled tc)
    \<and> arcs s' = arcs s \<and> woken s' = woken s \<and> polled s' = polled s"
proof -
  let ?r = "removed p parent s"
  note ri = removed_inv [OF inv, of parent] and rv = removed_view(1) [OF inv, of parent]
  have rc: "task_at ?r child = Some tc" using order tc(1) by (simp add: rv)
  define s1 where "s1 = (modify_task child (set_stop_reason SrCancelled) ?r)\<lparr>user := f (user s)\<rparr>"
  have u: "user (removed p parent s) = user s" by (simp add: removed_def)
  have run1: "run_prog p (drop_code code False (df_future tp) (user s)) ?r = (Inr None, s1)"
    using drop tc(2) by (simp add: s1_def bind_exec_def return_exec_def modify_exec_def cancel_eq [OF ri zero_less_usize(1)] rc stop_write_def)
  note slot1 = drop_slot_cancelled [OF inv ext tp run1]
  have t1: "task_at s1 = (task_at s)(parent := None, child \<mapsto> set_stop_reason SrCancelled tc)"
    using order tc(1) by (auto simp: s1_def task_at_modify [OF ri] rv)
  have f1: "external s1 = []" "arcs s1 = arcs s" "woken s1 = woken s" "polled s1 = polled s"
    using ext by (simp_all add: s1_def modify_task_def removed_def)
  have st1: "state_at s1 k = (if k = parent then Inactive else if k = child then Cancelled else state_at s k)" for k
    using order by (simp add: state_at_def t1 f1(2) state_of_def)
  have "drop_beat p code s = (Inr False, s1)"
    by (rule drop_beat_one [OF inv ext tp run1]) (use idle f1(1) order st1 in auto)
  then show ?thesis using slot1(2) slot1(3) [OF ex] t1 f1 by blast
qed

lemma drop_beat_resumes:
  assumes inv: "alg_idle p s" and ex: "exact s" and ext: "external s = []" and order: "j < child"
    and tj: "task_at s j = Some tj" "df_stop_reason tj = SrSuspended" "is_runnable (arcs s) tj"
    and tc: "task_at s child = Some tc" "df_stop_reason tc = SrCancelled"
    and idle: "\<forall>k. k \<noteq> child \<longrightarrow> state_at s k \<notin> {Runnable, Cancelled}"
    and drop: "\<forall>u. drop_code code False (df_future tc) u = PCall (CallResume j) (\<lambda>_. PReady (g u))"
  shows "\<exists>s'. drop_beat p code s = (Inr False, s') \<and> alg_idle p s' \<and> exact s' \<and> external s' = []
    \<and> state_at s' j = Runnable \<and> woken s' = woken s \<and> polled s' = polled s \<and> last_waker s' = last_waker s"
proof -
  let ?q = "removed p child s"
  note qi = removed_inv [OF inv, of child] and qv = removed_view(1) [OF inv, of child]
  have qj: "task_at ?q j = Some tj" using order tj(1) by (simp add: qv)
  have pos: "0 < suspended_count ?q"
    using exact_pos [OF inv ex tj(1,2)] by (simp add: removed_def)
  define s3 where "s3 = (modify_task j (set_stop_reason SrNone) ?q)\<lparr>suspended_count := suspended_count ?q - 1, user := g (user s)\<rparr>"
  have run2: "run_prog p (drop_code code False (df_future tc) (user s)) ?q = (Inr None, s3)"
    using drop tj(2) pos
    by (simp add: s3_def bind_exec_def return_exec_def modify_exec_def resume_eq [OF qi zero_less_usize(1)] qj stop_write_def)
  note slot2 = drop_slot_cancelled [OF inv ext tc run2]
  have t3: "task_at s3 = (task_at s)(child := None, j \<mapsto> set_stop_reason SrNone tj)"
    using order tj(1) by (auto simp: s3_def task_at_modify [OF qi] qv)
  have f3: "external s3 = []" "arcs s3 = arcs s" "woken s3 = woken s" "polled s3 = polled s" "last_waker s3 = last_waker s"
    using ext by (simp_all add: s3_def modify_task_def removed_def)
  have st3: "state_at s3 k = (if k = child then Inactive else if k = j then Runnable else state_at s k)" for k
    using order tj(3) by (simp add: state_at_def t3 f3(2) state_of_def is_runnable_def)
  have "drop_beat p code s = (Inr False, s3)"
    by (rule drop_beat_one [OF inv ext tc run2]) (use idle f3(1) order st3 in auto)
  then show ?thesis using slot2(2) slot2(3) [OF ex] st3 [of j] order f3 by auto
qed

text \<open>
  C14. A destructor can put the scheduler to sleep over a task that is ready to run. In every consistent scheduler with an
  exact count: let the task \<open>parent\<close> be cancelled and its destructor cancel the waiting task \<open>child\<close> in a lower slot, whose
  destructor resumes the suspended task \<open>j\<close> in a slot lower still, which has its runnable flag set; let no other task be
  runnable or cancelled and no wake of another thread be under way. The first beat drops the parent after it has passed
  the child, the second drops the child after it has passed \<open>j\<close>; as nothing was polled, the poll returns \<open>Pending\<close> with
  \<open>j\<close> runnable, the outer waker still registered and nobody woken.
\<close>

theorem drop_resume_sleeps:
  assumes inv: "alg_idle p s" and ex: "exact s" and ext: "external s = []" and order: "j < child" "child < parent"
    and tj: "task_at s j = Some tj" "df_stop_reason tj = SrSuspended" "is_runnable (arcs s) tj"
    and tc: "task_at s child = Some tc" "df_stop_reason tc = SrNone"
    and tp: "task_at s parent = Some tp" "df_stop_reason tp = SrCancelled"
    and idle: "\<forall>k. k \<noteq> parent \<longrightarrow> state_at s k \<notin> {Runnable, Cancelled}"
    and drop_parent: "\<forall>u. drop_code code False (df_future tp) u = PCall (CallCancel child) (\<lambda>_. PReady (f u))"
    and drop_child: "\<forall>u. drop_code code False (df_future tc) u = PCall (CallResume j) (\<lambda>_. PReady (g u))"
  shows "\<exists>s'. drop_poll p code w (Suc n) s = Some (Inr Pending, s') \<and> state_at s' j = Runnable
    \<and> last_waker s' = Some w \<and> woken s' = woken s \<and> polled s' = polled s"
proof -
  let ?c = "snd (waker_clear s)"
  have c: "alg_idle p ?c" "external ?c = []" "task_at ?c = task_at s" "state_at ?c = state_at s" "exact ?c"
      "arcs ?c = arcs s" "woken ?c = woken s" "polled ?c = polled s"
    using inv ext ex by (simp_all add: waker_clear_def state_at_def fun_eq_iff exact_def suspended_keys_def)
  obtain s1 where s1: "drop_beat p code ?c = (Inr False, s1)" "alg_idle p s1" "exact s1" "external s1 = []"
      "task_at s1 = (task_at s)(parent := None, child \<mapsto> set_stop_reason SrCancelled tc)"
      "arcs s1 = arcs s" "woken s1 = woken s" "polled s1 = polled s"
    using drop_beat_cancels [OF c(1,5,2) order(2) tc(1) [folded c(3)] tc(2) tp(1) [folded c(3)] tp(2) idle [folded c(4)] drop_parent]
    unfolding c(3,6-8) by blast
  define s2 where "s2 = snd (waker_register w s1)"
  have s2: "alg_idle p s2" "exact s2" "external s2 = []" "task_at s2 = task_at s1" "arcs s2 = arcs s"
      "woken s2 = woken s" "polled s2 = polled s" "last_waker s2 = Some w"
    using s1 by (simp_all add: s2_def waker_register_def exact_def suspended_keys_def)
  have st2: "state_at s2 k = (if k = parent then Inactive else if k = child then Cancelled else state_at s k)" for k
    using order by (simp add: state_at_def s2(4,5) s1(5) state_of_def)
  have j2: "task_at s2 j = Some tj" "is_runnable (arcs s2) tj" and c2: "task_at s2 child = Some (set_stop_reason SrCancelled tc)"
    using order tj by (simp_all add: s2(4,5) s1(5))
  have idle2: "\<forall>k. k \<noteq> child \<longrightarrow> state_at s2 k \<notin> {Runnable, Cancelled}" using idle by (simp add: st2)
  obtain s3 where s3: "drop_beat p code s2 = (Inr False, s3)" "alg_idle p s3" "exact s3" "external s3 = []"
      "state_at s3 j = Runnable" "woken s3 = woken s2" "polled s3 = polled s2" "last_waker s3 = last_waker s2"
    using drop_beat_resumes [OF s2(1-3) order(1) j2(1) tj(2) j2(2) c2 _ idle2, of code g] drop_child by auto
  have "registered_count s3 \<noteq> suspended_count s3" using all_suspended [OF s3(2,3), of j] s3(5) by auto
  moreover have "registered_count s3 \<noteq> 0" using count_zero [OF s3(2)] s3(5) by (auto simp: state_at_def state_of_def)
  moreover have "deliver s1 = s1" "deliver s3 = s3" using s1(4) s3(4) by (simp_all add: deliver_def)
  ultimately have "drop_iter p code w ?c = (Inr (Some Pending), s3)"
    using s1(1) s3(1) by (simp add: drop_iter_def bind_exec_def modify_exec_def gets_exec_def return_exec_def s2_def)
  then have "drop_poll p code w (Suc n) s = Some (Inr Pending, s3)" by (simp add: drop_poll_def)
  then show ?thesis using s3(5-8) s2(6-8) by auto
qed

text \<open>A suspended task (0), a child (1) and its parent (2); both wait, then the parent is cancelled.\<close>

definition resume_code :: "(nat, unit) task_code" where
  "resume_code =
     \<lparr>poll_code = \<lambda>f w u. PPending f u,
      drop_code = \<lambda>fin f u.
        if f = 2 then PCall (CallCancel 1) (\<lambda>_. PReady u)
        else if f = 1 then PCall (CallResume 0) (\<lambda>_. PReady u)
        else PReady u\<rparr>"

definition resume_start :: "(nat, unit) alg" where
  "resume_start =
     snd (spawn_task Debug params_default 2 (snd (spawn_task Debug params_default 1
       (snd (spawn_task Debug (params_suspended True) 0 (alg_new () []))))))"

definition resume_waiting :: "(nat, unit) alg" where
  "resume_waiting = snd (the (drop_poll Debug resume_code 7 2 resume_start))"

definition resume_state :: "(nat, unit) alg" where
  "resume_state = snd (cancel Debug 2 resume_waiting)"

lemmas resume_defs = resume_state_def resume_waiting_def resume_start_def resume_code_def

lemma resume_state_idle: "alg_idle Debug resume_state"
proof -
  have start: "alg_idle Debug resume_start"
    unfolding resume_start_def
    by (rule spawn_idle [where x = "Some 2"], rule spawn_idle [where x = "Some 1"], rule spawn_idle [where x = "Some 0"], rule alg_new_idle)
       (simp_all add: run cong: run_cong)
  have "drop_poll Debug resume_code 7 2 resume_start = Some (Inr Pending, resume_waiting)"
    by (simp add: resume_waiting_def) (simp add: run resume_start_def resume_code_def cong: run_cong)
  then have wait: "alg_idle Debug resume_waiting"
    using drop_until_ok [OF clear_idle [OF start]] by (fastforce simp: drop_poll_def)
  have "cancel Debug 2 resume_waiting = (Inr True, resume_state)"
    by (simp add: resume_state_def) (simp add: run resume_waiting_def resume_start_def resume_code_def cong: run_cong)
  then show ?thesis using wpx_InrD [OF cancel_ok [OF wait zero_less_usize(1)]] by (fastforce simp: call_ok_def)
qed

lemma resume_state_tasks:
  "external resume_state = []"
  "\<exists>t. task_at resume_state 0 = Some t \<and> df_stop_reason t = SrSuspended \<and> is_runnable (arcs resume_state) t"
  "\<exists>t. task_at resume_state 1 = Some t \<and> df_stop_reason t = SrNone \<and> df_future t = 1"
  "\<exists>t. task_at resume_state 2 = Some t \<and> df_stop_reason t = SrCancelled \<and> df_future t = 2"
  "k \<noteq> 2 \<Longrightarrow> state_at resume_state k \<notin> {Runnable, Cancelled}"
  by (simp_all add: run resume_defs state_at_def reg_view_def slab_view_def slab_flat_def nth_Cons' cong: run_cong)

lemma resume_state_exact: "exact resume_state"
proof -
  have "task_at resume_state k \<noteq> None \<longleftrightarrow> k < 3" for k
    by (simp add: run resume_defs reg_view_def slab_view_def slab_flat_def nth_Cons' cong: run_cong)
  then have "k \<in> suspended_keys resume_state \<Longrightarrow> k < 3" for k by (fastforce simp: suspended_keys_def)
  moreover have "0 \<in> suspended_keys resume_state" "1 \<notin> suspended_keys resume_state" "2 \<notin> suspended_keys resume_state"
    using resume_state_tasks(2-4) by (auto simp: suspended_keys_def)
  ultimately have "suspended_keys resume_state = {0}"
    by (auto simp: numeral_3_eq_3 numeral_2_eq_2 less_Suc_eq)
  moreover have "suspended_count resume_state = 1" by (simp add: run resume_defs cong: run_cong)
  ultimately show ?thesis by (simp add: exact_def)
qed

theorem drop_resume_sleeps_witness:
  "\<exists>s'. drop_poll Debug resume_code 7 1 resume_state = Some (Inr Pending, s') \<and> state_at s' 0 = Runnable \<and> last_waker s' = Some 7"
proof -
  obtain tj tc tp where t: "task_at resume_state 0 = Some tj" "df_stop_reason tj = SrSuspended" "is_runnable (arcs resume_state) tj"
    "task_at resume_state 1 = Some tc" "df_stop_reason tc = SrNone" "df_future tc = 1"
    "task_at resume_state 2 = Some tp" "df_stop_reason tp = SrCancelled" "df_future tp = 2"
    using resume_state_tasks(2-4) by blast
  have "\<exists>s'. drop_poll Debug resume_code 7 (Suc 0) resume_state = Some (Inr Pending, s') \<and> state_at s' 0 = Runnable
      \<and> last_waker s' = Some 7 \<and> woken s' = woken resume_state \<and> polled s' = polled resume_state"
    by (rule drop_resume_sleeps [where f = "\<lambda>u. u" and g = "\<lambda>u. u", OF resume_state_idle resume_state_exact resume_state_tasks(1) _ _ t(1-5) t(7,8)])
       (use resume_state_tasks(5) t(6,9) in \<open>simp_all add: resume_code_def\<close>)
  then show ?thesis by auto
qed

end
