(* ===== verification/Async_Task.thy ===== *)
theory Async_Task
  imports Scheduler_Correct
begin

text \<open>
  Async blocks written with the macros of \<open>src/lib.rs\<close>, as tasks of the scheduler: statements that run, \<open>yield_once!()\<close>
  and \<open>yield_while!(test)\<close>. Such a task wakes itself whenever it is pending; a wheel of tasks each of which ends after
  finitely many yields, whatever the other tasks do in between, is done after one poll.
\<close>

subsection \<open>Async blocks\<close>

text \<open>The macros expand to awaiting a leaf of \<open>yield_helper.rs\<close>; the test reads the locals of the block and the world.\<close>

definition yield_once_macro :: bool where
  "yield_once_macro = yield_once"

definition yield_while_macro :: "('w \<Rightarrow> bool \<times> 'w) \<Rightarrow> ('w \<Rightarrow> bool \<times> 'w)" where
  "yield_while_macro test_expr = yield_while (\<lambda>w. let (ret, w') = test_expr w in (ret, w'))"

datatype ('l, 'u) stmt =
    Code "'l \<Rightarrow> 'u \<Rightarrow> 'l \<times> 'u"
  | Yield_Once
  | Yield_While "'l \<times> 'u \<Rightarrow> bool \<times> ('l \<times> 'u)"

text \<open>
  A block that is suspended at an await: the statements from there on, the leaf it awaits if that has a state of its own
  (\<open>None\<close> before its first poll), and the locals.
\<close>

record ('l, 'u) async_block =
  ab_rest :: "('l, 'u) stmt list"
  ab_yield :: "bool option"
  ab_locals :: 'l

definition async_block_new :: "('l, 'u) stmt list \<Rightarrow> 'l \<Rightarrow> ('l, 'u) async_block" where
  "async_block_new stmts l = \<lparr>ab_rest = stmts, ab_yield = None, ab_locals = l\<rparr>"

primrec run_stmts :: "('l, 'u) stmt list \<Rightarrow> bool option \<Rightarrow> 'l \<Rightarrow> 'u \<Rightarrow> unit poll \<times> ('l, 'u) async_block \<times> 'u \<times> bool" where
  "run_stmts [] y l u = (Ready (), \<lparr>ab_rest = [], ab_yield = None, ab_locals = l\<rparr>, u, False)"
| "run_stmts (c # cs) y l u =
     (case c of
        Code g \<Rightarrow> (case g l u of (l', u') \<Rightarrow> run_stmts cs None l' u')
      | Yield_Once \<Rightarrow>
          (case yield_poll (case y of None \<Rightarrow> yield_once_macro | Some b \<Rightarrow> b) u of
             (Ready _, b, u', woke) \<Rightarrow> run_stmts cs None l u'
           | (Pending, b, u', woke) \<Rightarrow> (Pending, \<lparr>ab_rest = c # cs, ab_yield = Some b, ab_locals = l\<rparr>, u', woke))
      | Yield_While test \<Rightarrow>
          (case yield_while_poll (yield_while_macro test) (l, u) of
             (Ready _, _, (l', u'), woke) \<Rightarrow> run_stmts cs None l' u'
           | (Pending, _, (l', u'), woke) \<Rightarrow> (Pending, \<lparr>ab_rest = c # cs, ab_yield = None, ab_locals = l'\<rparr>, u', woke)))"

definition async_poll :: "(('l, 'u) async_block, 'u) leaf" where
  "async_poll a u = run_stmts (ab_rest a) (ab_yield a) (ab_locals a) u"

declare yield_once_macro_def [run] yield_while_macro_def [run] yield_while_def [run] async_block_new_def [run] async_poll_def [run]

lemma run_stmts_wakes: "run_stmts cs y l u = (Pending, a, u', woke) \<Longrightarrow> woke"
  by (induction cs arbitrary: y l u)
     (auto simp: yield_poll_def yield_while_poll_def split: stmt.splits prod.splits if_splits)

lemma async_self_waking: "self_waking async_poll"
  using run_stmts_wakes by (auto simp: self_waking_def async_poll_def)

subsection \<open>Futures that end\<close>

text \<open>\<open>ends_within leaf n f\<close>: the future is pending at most \<open>n\<close> times, whatever the world is at each poll.\<close>

primrec ends_within :: "('l, 'u) leaf \<Rightarrow> nat \<Rightarrow> 'l \<Rightarrow> bool" where
  "ends_within leaf 0 f \<longleftrightarrow> (\<forall>u. case leaf f u of (Pending, _) \<Rightarrow> False | _ \<Rightarrow> True)"
| "ends_within leaf (Suc n) f \<longleftrightarrow> (\<forall>u. case leaf f u of (Pending, f', _) \<Rightarrow> ends_within leaf n f' | _ \<Rightarrow> True)"

lemma ends_Suc: "ends_within leaf n f \<Longrightarrow> ends_within leaf (Suc n) f"
proof (induction n arbitrary: f)
  case 0
  then show ?case by (fastforce split: prod.splits poll.splits)
next
  case (Suc n)
  show ?case
    unfolding ends_within.simps(2) [of leaf "Suc n"]
    using Suc by (fastforce simp del: ends_within.simps(2) simp: ends_within.simps(2) [of leaf n f] split: prod.splits poll.splits)
qed

lemma ends_pending:
  assumes "ends_within leaf n f" and "leaf f u = (Pending, f', u', woke)"
  obtains m where "n = Suc m" "ends_within leaf m f'"
proof (cases n)
  case 0
  have "case leaf f u of (Pending, _) \<Rightarrow> False | _ \<Rightarrow> True" using assms(1) 0 by simp
  then show ?thesis using assms(2) by simp
next
  case (Suc m)
  have "case leaf f u of (Pending, f', _) \<Rightarrow> ends_within leaf m f' | _ \<Rightarrow> True" using assms(1) Suc by simp
  then show ?thesis using assms(2) Suc that by simp
qed

definition ends :: "('l, 'u) leaf \<Rightarrow> 'l \<Rightarrow> bool" where
  "ends leaf f \<longleftrightarrow> (\<exists>n. ends_within leaf n f)"

definition yields_left :: "('l, 'u) leaf \<Rightarrow> 'l \<Rightarrow> nat" where
  "yields_left leaf f = (LEAST n. ends_within leaf n f)"

lemma yields_left_pending:
  assumes "ends leaf f" and "leaf f u = (Pending, f', u', woke)"
  shows "ends leaf f'" "yields_left leaf f' < yields_left leaf f"
proof -
  have "ends_within leaf (yields_left leaf f) f"
    using assms(1) unfolding ends_def yields_left_def by (rule LeastI_ex)
  then obtain m where m: "yields_left leaf f = Suc m" "ends_within leaf m f'" using assms(2) by (rule ends_pending)
  then show "ends leaf f'" by (auto simp: ends_def)
  have "yields_left leaf f' \<le> m" unfolding yields_left_def by (rule Least_le) (rule m(2))
  then show "yields_left leaf f' < yields_left leaf f" using m(1) by simp
qed

text \<open>The leaf with the futures that need not end cut off: it spends its rank everywhere.\<close>

definition cut_off :: "('l, 'u) leaf \<Rightarrow> ('l, 'u) leaf" where
  "cut_off leaf f u = (if ends leaf f then leaf f u else (Ready (), f, u, False))"

lemma cut_rank: "cut_off leaf f u = (Pending, f', u', woke) \<Longrightarrow> yields_left leaf f' < yields_left leaf f"
  using yields_left_pending(2) by (fastforce simp: cut_off_def split: if_splits)

lemma cut_self_waking: "self_waking leaf \<Longrightarrow> self_waking (cut_off leaf)"
  unfolding self_waking_def cut_off_def by (simp split: if_splits) blast

lemma cut_body: "ends leaf f \<Longrightarrow> await_body (cut_off leaf) f v u = await_body leaf f v u"
  by (simp add: await_body_def cut_off_def)

subsection \<open>A wheel of futures that end\<close>

definition all_end :: "('l, 'u) leaf \<Rightarrow> ('l, 'u) alg \<Rightarrow> bool" where
  "all_end leaf s \<longleftrightarrow> (\<forall>k f. futures s k = Some f \<longrightarrow> ends leaf f)"

lemma all_endD: "all_end leaf s \<Longrightarrow> task_at s k = Some t \<Longrightarrow> ends leaf (df_future t)"
proof -
  assume "all_end leaf s" and t: "task_at s k = Some t"
  moreover have "futures s k = Some (df_future t)" using t by (simp add: futures_def)
  ultimately show ?thesis unfolding all_end_def by blast
qed

lemma await_futures:
  "fst (run_prog p (await_body leaf f v u) s) = Inr x \<Longrightarrow>
   futures (snd (run_prog p (await_body leaf f v u) s)) = futures s
   \<and> (\<forall>f'. x = Some f' \<longrightarrow> (\<exists>u' woke. leaf f u = (Pending, f', u', woke)))"
  by (auto simp: await_body_def exec_defs futures_def fun_eq_iff split: prod.splits poll.splits if_splits)

interpretation ending: poll_relation p "await_body leaf" "\<lambda>s s'. all_end leaf s \<longrightarrow> all_end leaf s'" "\<lambda>_ _. True"
  for p leaf
proof unfold_locales
  fix s s' :: "('a, 'b) alg"
  show "all_end leaf s \<longrightarrow> all_end leaf s'" if "registry s' = registry s"
    using that by (simp add: all_end_def futures_def)
next
  fix s :: "('a, 'b) alg" and k
  assume "alg_idle p s"
  then show "all_end leaf s \<longrightarrow> all_end leaf (removed p k s)"
    by (auto simp: all_end_def futures_def removed_view)
next
  fix s :: "('a, 'b) alg" and k t
  assume inv: "alg_idle p s" and t: "task_at s k = Some t"
  let ?pr = "await_body leaf (df_future t) (df_flags t) (user s)"
  note st = started_inv [OF inv t]
  show "wpx (run_prog p ?pr) (\<lambda>x s'. all_end leaf s \<longrightarrow> all_end leaf (finished p k x s')) (\<lambda>_ _. True) (started p k t s)"
  proof (cases "run_prog p ?pr (started p k t s)")
    case run': (Pair r s')
    show ?thesis
    proof (cases r)
      case (Inl e)
      then show ?thesis by (simp add: wpx_def run')
    next
      case (Inr x)
      note run = run' [unfolded Inr]
      have inv': "alg_inv p (Suc 0) (Some k) (Some k) s'"
        using wpx_InrD [OF run_prog_ok [OF st zero_less_usize(2)] run] by (simp add: call_ok_def)
      have fs: "futures s' = futures s" "\<And>f'. x = Some f' \<Longrightarrow> \<exists>u' woke. leaf (df_future t) (user s) = (Pending, f', u', woke)"
        using await_futures [of p leaf "df_future t" "df_flags t" "user s" "started p k t s" x] run started_futures(1) [OF inv t] by simp_all
      have "all_end leaf s \<longrightarrow> all_end leaf (finished p k x s')"
      proof
        assume e: "all_end leaf s"
        then have own: "ends leaf (df_future t)" using all_endD t by blast
        have "ends leaf f'" if "x = Some f'" for f' using fs(2) [OF that] yields_left_pending(1) [OF own] by blast
        then show "all_end leaf (finished p k x s')"
          using e by (auto simp: all_end_def finished_futures(1) [OF inv'] fs(1))
      qed
      then show ?thesis by (simp add: wpx_def run)
    qed
  qed
qed simp_all

lemma cut_slot:
  assumes inv: "alg_idle p s" and e: "all_end leaf s"
  shows "beat_slot p (await_body (cut_off leaf)) k any s = beat_slot p (await_body leaf) k any s"
proof (cases "state_at (deliver s) k = Runnable")
  case True
  then obtain t where t: "task_at (deliver s) k = Some t" "df_stop_reason t = SrNone" "is_runnable (arcs (deliver s)) t"
    by (auto simp: state_at_Runnable)
  have "ends leaf (df_future t)" using all_endD [OF e t(1) [simplified]] .
  then show ?thesis by (simp add: beat_slot_poll_eq [OF inv t] cut_body)
qed (simp add: beat_slot_quiet [OF inv])

lemma cut_loop:
  "alg_idle p s \<Longrightarrow> all_end leaf s \<Longrightarrow>
   beat_loop p (await_body (cut_off leaf)) ks any s = beat_loop p (await_body leaf) ks any s"
proof (induction ks arbitrary: any s)
  case (Cons k ks)
  obtain r s1 where b: "beat_slot p (await_body leaf) k any s = (r, s1)" by fastforce
  show ?case
  proof (cases r)
    case (Inr x)
    have "alg_idle p s1" using wpx_InrD [OF beat_slot_inv [OF Cons.prems(1)] b [unfolded Inr]] by simp
    moreover have "all_end leaf s1" using wpx_InrD [OF ending.slot_rel [OF Cons.prems(1)] b [unfolded Inr]] Cons.prems(2) by simp
    ultimately show ?thesis using Cons.IH b Inr by (simp add: bind_exec_def cut_slot [OF Cons.prems])
  qed (use b in \<open>simp add: bind_exec_def cut_slot [OF Cons.prems]\<close>)
qed simp

lemma cut_beat:
  "alg_idle p s \<Longrightarrow> all_end leaf s \<Longrightarrow> beat_once p (await_body (cut_off leaf)) s = beat_once p (await_body leaf) s"
  by (simp add: beat_once_def bind_exec_def gets_exec_def cut_loop)

lemma cut_iter:
  assumes inv: "alg_idle p s" and e: "all_end leaf s"
  shows "poll_iter p (await_body (cut_off leaf)) w s = poll_iter p (await_body leaf) w s"
proof -
  obtain r s1 where b: "beat_once p (await_body leaf) s = (r, s1)" by fastforce
  have first: "beat_once p (await_body (cut_off leaf)) s = (r, s1)" by (simp add: cut_beat [OF assms] b)
  show ?thesis
  proof (cases "r = Inr False")
    case True
    let ?s1 = "snd (waker_register w (deliver s1))"
    have "alg_idle p s1" "all_end leaf s1"
      using wpx_InrD [OF ending.beat_both [OF inv] b [unfolded True]] e by simp_all
    then have i1: "alg_idle p ?s1" "all_end leaf ?s1"
      using ending.R_deliver [of leaf s1] by (simp_all add: waker_register_def all_end_def futures_def)
    show ?thesis
      unfolding poll_iter_def bind_exec_def [of "beat_once _ _" "\<lambda>any. if any then _ else _ any"] first b True
      by (simp add: bind_exec_def [of "modify_exec _"] modify_exec_def bind_exec_def [of "beat_once _ _"] cut_beat [OF i1])
  next
    case False
    then show ?thesis
      unfolding poll_iter_def bind_exec_def [of "beat_once _ _"] first b by (auto split: sum.split)
  qed
qed

lemma cut_poll_loop:
  "alg_idle p s \<Longrightarrow> all_end leaf s \<Longrightarrow> poll_loop p (await_body (cut_off leaf)) w n s = poll_loop p (await_body leaf) w n s"
proof (induction n arbitrary: s)
  case (Suc n)
  obtain r s1 where it: "poll_iter p (await_body leaf) w s = (r, s1)" by fastforce
  show ?case
  proof (cases "r = Inr None")
    case True
    have "alg_idle p s1" "all_end leaf s1"
      using wpx_InrD [OF ending.iter_rel [OF Suc.prems(1)] it [unfolded True]] Suc.prems(2) by simp_all
    then show ?thesis using Suc.IH [of s1] True it by (simp add: cut_iter [OF Suc.prems])
  qed (use it in \<open>auto simp: cut_iter [OF Suc.prems] split: sum.split option.split\<close>)
qed simp

lemma ending_poll:
  assumes inv: "alg_idle p s" and ready: "all_ready s" and leaf: "self_waking leaf"
    and e: "\<And>k f. futures s k = Some f \<Longrightarrow> ends_within leaf (r k) f"
  shows "\<exists>s'. poll_internal p (await_body leaf) w (Suc (\<Sum>k \<in> dom (task_at s). Suc (r k))) s = Some (Inr (Ready True), s')
    \<and> task_at s' = Map.empty"
proof -
  let ?rank = "yields_left leaf" and ?s = "snd (waker_clear s)"
  have ae: "all_end leaf s" using e by (auto simp: all_end_def ends_def)
  then have ae': "all_end leaf ?s" by (simp add: all_end_def futures_def waker_clear_def)
  have "\<exists>s'. poll_internal p (await_body (cut_off leaf)) w (Suc (weight (\<lambda>f. Suc (?rank f)) s)) s = Some (Inr (Ready True), s')
      \<and> task_at s' = Map.empty"
    by (rule yielding_poll [where rank = ?rank, OF inv ready cut_self_waking [OF leaf]]) (rule cut_rank)
  then obtain s' where s': "poll_internal p (await_body (cut_off leaf)) w (Suc (weight (\<lambda>f. Suc (?rank f)) s)) s = Some (Inr (Ready True), s')"
      "task_at s' = Map.empty" by blast
  have "weight (\<lambda>f. Suc (?rank f)) s \<le> (\<Sum>k \<in> dom (task_at s). Suc (r k))"
    unfolding weight_def wsum_def dom_futures
  proof (rule sum_mono)
    fix k
    assume "k \<in> dom (task_at s)"
    then obtain f where f: "futures s k = Some f" by (auto simp: futures_def)
    have "?rank f \<le> r k" unfolding yields_left_def by (rule Least_le) (rule e [OF f])
    then show "Suc (?rank (the (futures s k))) \<le> Suc (r k)" using f by simp
  qed
  moreover have "poll_loop p (await_body leaf) w (Suc (weight (\<lambda>f. Suc (?rank f)) s)) ?s = Some (Inr (Ready True), s')"
    using s'(1) cut_poll_loop [OF clear_idle [OF inv] ae'] by (simp only: poll_internal_def)
  ultimately show ?thesis using s'(2) poll_loop_mono by (fastforce simp: poll_internal_def)
qed

text \<open>
  C7. A wheel runs async tasks to their end in a single poll. Let every stored task be runnable when the poll starts
  (\<open>all_ready\<close>: none is suspended, waiting or cancelled), let every task await a future that wakes itself whenever it is
  pending, as an async block written with \<open>yield_once!\<close> and \<open>yield_while!\<close> does, and makes no other call to the handle, and let
  the future in slot \<open>k\<close> be pending at most \<open>r k\<close> times whatever the world holds at each of its polls (\<open>ends_within\<close>). A
  \<open>yield_while!\<close> whose test reads the shared world is covered only if it stops for every world. Then the poll returns
  \<open>Ready(true)\<close> with no task left, within one iteration more than \<open>r k + 1\<close> adds up to. Futures that are not stored need not end.
\<close>

theorem async_wheel_completes:
  assumes "alg_idle p s" and "all_ready s" and "self_waking leaf"
    and "\<And>k f. futures s k = Some f \<Longrightarrow> ends_within leaf (r k) f"
  shows "\<exists>s'. poll_internal p (await_body leaf) w (Suc (\<Sum>k \<in> dom (task_at s). Suc (r k))) s = Some (Inr (Ready True), s')
    \<and> task_at s' = Map.empty"
  by (rule ending_poll [OF assms(1-3)]) (rule assms(4))

text \<open>A task that yields while its counter is above zero, and one that counts in the world between two yields.\<close>

definition async_tasks :: "((nat, nat) async_block, nat) alg" where
  "async_tasks =
     snd (spawn_task Debug params_default (async_block_new [Yield_Once, Code (\<lambda>l u. (l, Suc u)), Yield_Once] 0)
       (snd (spawn_task Debug params_default (async_block_new [Yield_While (\<lambda>(l, u). (0 < l, (l - 1, u)))] 2) (alg_new 0 []))))"

lemma async_tasks_idle: "alg_idle Debug async_tasks"
  unfolding async_tasks_def
  by (rule spawn_idle [where x = "Some 1"], rule spawn_idle [where x = "Some 0"], rule alg_new_idle)
     (simp_all add: run cong: run_cong)

lemma async_tasks_ready: "all_ready async_tasks"
  by (auto simp: all_ready_def async_tasks_def run reg_view_def slab_view_def slab_flat_def entry_value_def
      nth_Cons' cong: run_cong split: if_splits)

lemma async_tasks_futures:
  "futures async_tasks =
     [0 \<mapsto> async_block_new [Yield_While (\<lambda>(l, u). (0 < l, (l - 1, u)))] 2,
      1 \<mapsto> async_block_new [Yield_Once, Code (\<lambda>l u. (l, Suc u)), Yield_Once] 0]"
  by (simp add: futures_def async_tasks_def run reg_view_def slab_view_def slab_flat_def entry_value_def nth_Cons'
      fun_eq_iff cong: run_cong)

lemma async_blocks_end:
  "ends_within async_poll 2 (async_block_new [Yield_While (\<lambda>(l, u). (0 < l, (l - 1, u)))] (2 :: nat))"
  "ends_within async_poll 2 (async_block_new [Yield_Once, Code (\<lambda>l u. (l, Suc u)), Yield_Once] (0 :: nat))"
  unfolding numeral_2_eq_2 ends_within.simps
  by (simp_all add: async_poll_def async_block_new_def yield_poll_def yield_once_macro_def yield_once_def
      yield_while_macro_def yield_while_def yield_while_poll_def Let_def)

lemma async_tasks_end: "futures async_tasks k = Some f \<Longrightarrow> ends_within async_poll 2 f"
  using async_blocks_end by (auto simp: async_tasks_futures split: if_splits)

theorem async_wheel_completes_witness:
  "\<exists>s'. poll_internal Debug (await_body async_poll) 7 (Suc (\<Sum>k \<in> dom (task_at async_tasks). Suc 2)) async_tasks
     = Some (Inr (Ready True), s') \<and> task_at s' = Map.empty"
  by (rule async_wheel_completes [OF async_tasks_idle async_tasks_ready async_self_waking async_tasks_end])

end
