(* ===== verification/Spec2Isabelle.thy ===== *)
theory Spec2Isabelle
  imports Scheduler_Correct Suspend_Leak Store_Correct Wheel_Handle Timing Atomic_Cell Wake_Race Static_Block Static_Failures Atomic_Marker Irq_Signal Wakers Queue_Correct Debug_Format Signed_Time Cell_Ownership Drop_Correct Async_Task
begin

text \<open>
  A verification development for the crate \<open>juggle\<close> (\<open>src/src\<close>): schedulers that multiplex async tasks on
  one thread, with the wakers, cells and timers they are built from.

  \<^bold>\<open>The program.\<close> A \<open>Wheel\<close> (\<open>dy/wheel.rs\<close>) owns a scheduler, \<open>UnorderedAlgorithm\<close>
  (\<open>dy/unordered_algorithm.rs\<close>), and gives out weak handles to it (\<open>dy/handle.rs\<close>). Handles spawn, cancel,
  suspend and resume tasks, also from inside a task that is being polled. The scheduler keeps its tasks in a
  \<open>Registry\<close> (\<open>dy/registry.rs\<close>), a \<open>ChunkSlab\<close> (\<open>utils/chunk_slab.rs\<close>) behind run-time borrow flags, so that a task
  never moves. Every task is a \<open>DynamicFuture\<close> (\<open>dy/dyn_future.rs\<close>) with a stop reason and a shared \<open>runnable\<close>
  flag that its waker sets. Polling the wheel polls the runnable tasks until none is left; then the wheel
  registers the waker of its own caller in an \<open>AtomicWakerRegistry\<close> (\<open>utils/mod.rs\<close>), which is an \<open>AtomicCell\<close>
  (\<open>utils/cell.rs\<close>), and the wakers of the tasks notify it. The static scheduler (\<open>st\<close>) does the same over an
  array of tasks fixed at compile time, whose memory it creates, drops and re-creates. A second dynamic scheduler, the round-robin \<open>SchedulerAlgorithm\<close> of
  \<open>dy/algorithm.rs\<close>, is compiled and not used: it keeps its runnable tasks in two queues behind borrow-checked cells
  (\<open>Ucw\<close>, \<open>utils/ucw.rs\<close>) and parks the waiting ones in a third list. \<open>block.rs\<close> and
  \<open>yield_helper.rs\<close> hold the outermost loop and the futures that give control back; \<open>utils/timing.rs\<close> and
  \<open>utils/load.rs\<close> share the time of a thread between futures.

  \<^bold>\<open>The model.\<close> Code that mutates state and may panic is a function from a state to a result and a state
  (type \<open>exec\<close> of \<open>Juggle_Prelude\<close>): the result is a panic or a value, and the state is kept when a panic unwinds,
  because the interior-mutable state of the program survives unwinding; \<open>guard_exec\<close> is a drop guard.
  \<open>usize\<close> is 64 bits wide; its arithmetic panics on overflow under the profile \<open>Debug\<close> and wraps under \<open>Release\<close>,
  and the flags that exist only with \<open>debug_assertions\<close> are read only under \<open>Debug\<close>. The code of a task is a
  parameter: what one poll of it does is a tree of calls into the scheduler (type \<open>prog\<close>), which ends in \<open>Ready\<close>,
  in \<open>Pending\<close> with the next state of the future, or in a panic. Theorems that quantify over \<open>body\<close> thus hold
  for every task code. Wakes of other threads arrive at the points where the scheduler looks at flags
  (field \<open>external\<close>).

  \<^bold>\<open>Theories\<close>, in the order of their imports:
  \<^item> \<open>Juggle_Prelude\<close>: panics, profiles, \<open>exec\<close> with weakest preconditions (\<open>wpx\<close>, collection \<open>wp\<close>), code that keeps
    an invariant (\<open>keeps\<close>), evaluation of concrete runs (\<open>run\<close>), lists of chunks, counting.
  \<^item> \<open>Chunk_Slab\<close> (\<open>utils/chunk_slab.rs\<close>): chunks, free list, keys of all widths; invariant \<open>slab_inv\<close>, the view
    \<open>slab_view\<close> as a partial map and the locale of what a slab promises.
  \<^item> \<open>Dyn_Future\<close> (\<open>dy/stat.rs\<close>, \<open>dy/dyn_future.rs\<close>, the types of \<open>dy/handle.rs\<close>); \<open>Task_Registry\<close>
    (\<open>dy/registry.rs\<close>): the borrow and iterate flags; locale \<open>task_registry\<close>, interpreted on it.
  \<^item> \<open>Unordered_Algorithm\<close> (\<open>dy/unordered_algorithm.rs\<close>): state \<open>alg\<close>, one definition per method;
    \<open>Scheduler_Calls\<close>, \<open>Scheduler_Beat\<close>, \<open>Scheduler_Poll\<close>: the invariant of the scheduler through the calls of a
    handle, the visit of a slot, a round and a whole poll; \<open>Scheduler_Count\<close>: exactness of the count of
    suspended tasks and the weight that bounds a poll.
  \<^item> \<open>Task_Drop\<close> and \<open>Drop_Correct\<close>: the same scheduler when removing a task runs the destructor of its future, which may
    call the handle and panic; locale \<open>drop_relation\<close>, which extends \<open>poll_relation\<close> of \<open>Scheduler_Count\<close> by what a
    destructor keeps, interpreted for the count and for the weight. It is a second translation of the same lines; lemma
    \<open>drop_poll_silent\<close> shows that it is the first one when the destructors do nothing.
  \<^item> \<open>Yield_Block\<close> (\<open>yield_helper.rs\<close>, \<open>block.rs\<close>, \<open>forever\<close> of \<open>utils/mod.rs\<close>); \<open>Wheel_Handle\<close> (\<open>dy/wheel.rs\<close>, \<open>dy/handle.rs\<close>): a heap of
    reference-counted schedulers, weak handles as addresses; locale \<open>handle_call\<close>, interpreted on each of the
    operations of the handle.
  \<^item> \<open>Async_Task\<close> (the macros of \<open>lib.rs\<close>): async blocks as lists of statements and yields, and wheels of futures each of
    which ends on its own.
  \<^item> \<open>Scheduler_Correct\<close> and \<open>Store_Correct\<close>: the properties of the dynamic scheduler and of the two stores;
    \<open>Suspend_Leak\<close>: the task that suspends itself and returns.
  \<^item> \<open>Static_Scheduler\<close>, \<open>Static_Safety\<close>, \<open>Static_Correct\<close> (\<open>st\<close>): the static scheduler with the memory of each task
    and the flag of \<open>handle_task\<close>; the memory invariant; runs of a static wheel and their properties.
  \<^item> \<open>Static_Counts\<close>: the code of tasks that keeps away from the faulty operations (\<open>tame_code\<close>), locale
    \<open>task_invariant\<close> of what a call from a task keeps, the exactness of the counts; \<open>Static_Poll\<close>: what each result of
    the poll loop means; \<open>Static_Weight\<close> and \<open>Static_Yield\<close>: the weight that bounds a poll, and tasks that wake
    themselves; \<open>Static_Invariants\<close>: locale \<open>wheel_invariant\<close>, which lifts what a visit keeps to runs of a wheel;
    \<open>Static_Outcome\<close>: the properties of tame runs; \<open>Static_Block\<close> (\<open>st/wheel.rs\<close>): blocking on a static wheel; \<open>Static_Failures\<close>: what cancelling a task,
    and suspending one after a restart, does to the counts.
  \<^item> \<open>Ucw_Cell\<close> (\<open>utils/ucw.rs\<close>); \<open>Queue_Scheduler\<close> (\<open>dy/algorithm.rs\<close>): state \<open>sched\<close>, one definition per method;
    \<open>Queue_Rotation\<close>: the invariant that every registered task is in one place, and a rotation as a walk of the queue;
    \<open>Queue_Correct\<close>: its properties.
  \<^item> \<open>Timing\<close> (\<open>utils/timing.rs\<close>, \<open>utils/load.rs\<close>): the arithmetic of the counters is a record \<open>timer_ops\<close> given for
    the unsigned integers and for \<open>Duration\<close>; the clock and the wrapped future are parameters. \<open>Signed_Time\<close>: the
    signed integers, and the groups over them as images of the unsigned ones; in its lemma \<open>signed_counters_equal\<close> the
    unsigned operations stand at a signed maximum, which is no type of the program but a step between the two.
  \<^item> \<open>Atomic_Cell\<close> (\<open>utils/cell.rs\<close>), \<open>Atomic_Marker\<close> (\<open>st/atomic_marker.rs\<close>), \<open>Irq_Signal\<close> (\<open>utils/signal.rs\<close>) and \<open>Wake_Race\<close> (the wake
    of \<open>dy/dyn_future.rs\<close> against a scheduler that goes to sleep): step relations over threads, every atomic
    operation and every access to the guarded value a step of its own, at sequential consistency. \<open>Wake_Race\<close> follows one task
    and one wake, and says in which interleavings the wake is lost. The marker and
    the signal share the locale \<open>critical_section\<close>, interpreted on both.
    \<open>Cell_Ownership\<close>: the values that runs of swaps move in and out of a cell, and exclusive access to it.
  \<^item> \<open>Wakers\<close> (\<open>utils/mod.rs\<close>): the tables of the raw wakers over allocations with strong counts.
  \<^item> \<open>Debug_Format\<close>: the \<open>Debug\<close> and \<open>Display\<close> output of the identifiers, parameters, groups, cells and schedulers, as
    strings; numbers can be read back, and a dump leaves the scheduler, with its borrow flags, as it was.

  \<^bold>\<open>What is shown.\<close> For the dynamic scheduler: what every result of a poll means, that no wake-up is lost
  at the granularity of atomic wakes, what a panic leaves, that a poll ends, that yielding tasks are all
  finished, when the suspend error is justified, and the transitions of every handle operation; and which of this
  remains when futures have destructors: all of it if they do nothing, the meaning of the results for any, that no
  wake-up is lost if they make no calls. For the stores:
  refinement of a partial map, reuse of keys, the borrow guard. For the static scheduler: that the
  uninitialised memory of the tasks is used in order through panics, restarts and drops, in every run; and, for
  tame code, what a poll means, that it ends, and that blocking on yielding tasks returns. For the queue scheduler:
  a rotation polls exactly its queue, in order and once each. For the
  concurrent parts: linearizability of the cell with a strong exchange and the conservation of its values, mutual exclusion, the failure of
  the weak exchange, and the interleavings in which the order in which a wake notifies and stores loses it. For the timers: fairness and
  progress of the groups. Where the code does not do what it means to, a theorem says in which states, or gives the run
  (\<open>suspended_count_leak\<close>, \<open>wake_lost\<close>, \<open>weak_exchange_duplicates\<close>, \<open>u16_counter_overflows\<close>, \<open>static_cancel_breaks\<close>,
  \<open>restart_suspend_lost\<close>, \<open>static_suspended_leak\<close>, \<open>queue_stop_breaks\<close>, \<open>i16_slots_starve\<close>, \<open>signal_poll_jams\<close>, \<open>drop_resume_sleeps\<close>).

  \<^bold>\<open>Loops.\<close> Loops over the slots of a store are structural recursions over the list of keys, whose length
  is read when the loop starts, as in the source. The loops that may run for ever carry fuel and return
  nothing when it runs out: \<open>poll_loop\<close> and \<open>st_poll_loop\<close> (tasks may wake themselves for ever), \<open>rotate_loop\<close> and
  \<open>sched_poll_loop\<close> of the queue scheduler, and the blocking loops of \<open>Yield_Block\<close>, \<open>Wheel_Handle\<close> and \<open>Static_Block\<close>.
  \<open>poll_terminates\<close>, \<open>drop_poll_terminates\<close> and \<open>static_poll_terminates\<close> give the fuel that suffices from the weight of the stored futures;
  \<open>yielding_wheel_completes\<close>, \<open>async_wheel_completes\<close>, \<open>spin_block_completes\<close>, \<open>static_yielding_completes\<close> and \<open>static_spin_block_completes\<close> show
  that the result is reached; a rotation needs one look more than its queue has tasks (\<open>queue_round_robin\<close>).
  The retry loops of the concurrent parts are cycles of their step relations.

  \<^bold>\<open>Not modelled.\<close> Hashing; a formatter that fails or has the alternate flag; the destructors of dynamic futures in
  the queue scheduler and when a wheel is dropped; a future whose poll unwound (it is left as it was before); failing allocations other than the exhaustion of keys;
  a closure given to \<open>ChunkSlab::retain\<close> that panics or uses the slab (\<open>slab_retain\<close> takes a function on a state of its own, as the
  callers in the crate need); \<open>SmallVec\<close> and boxes, which are plain values here; memory orders weaker than sequential consistency; the panic of a
  signed counter at its smallest value divided by minus one, which needs negative durations; async
  blocks beyond statements in sequence and the yielding macros.
\<close>

end
